(* ===== verification/Epox_Prelude.thy ===== *)
theory Epox_Prelude
  imports Main "HOL-Library.Word"
begin

text \<open>
  Shared vocabulary of the development: the outcome of a piece of Rust code that may
  panic, dereference a bad pointer, block in the kernel or run out of the model's
  fuel; operating-system and I/O errors; file descriptors; and the generic list and
  map lemmas the component theories use.

  Lemma collections: \<open>res_simps\<close> (evaluation of the outcome type) and \<open>queue_intros\<close>
  (introduction rules for the list representation of the intrusive queues).
\<close>

named_theorems res_simps
named_theorems queue_intros

section \<open>Outcomes\<close>

text \<open>
  A Rust function of the crate either returns a value or ends in one of these faults.
  \<open>UB\<close> is a dereference of a null or freed pointer (undefined behaviour), a \<open>Panic\<close>
  unwinds, \<open>Blocked\<close> is a system call (or a loop retrying one) that never returns, and
  \<open>NoFuel\<close> is not a behaviour of the code: it says that the fuel given to the model was
  too small.
\<close>

datatype panic =
    BorrowMutError        \<comment> \<open>\<open>RefCell::borrow_mut\<close> or \<open>borrow\<close> on a borrowed cell\<close>
  | ExpectNone            \<comment> \<open>\<open>Option::expect\<close> or \<open>unwrap\<close> on \<open>None\<close>\<close>
  | UnwrapErr             \<comment> \<open>\<open>Result::unwrap\<close> on \<open>Err\<close>\<close>
  | PipeWrite             \<comment> \<open>\<open>panic!("error writing to task wake pipe")\<close>\<close>
  | AsyncResumed          \<comment> \<open>an \<open>async\<close> block polled after it returned\<close>
  | AccessError           \<comment> \<open>a thread-local value used while it is destroyed\<close>
  | UserPanic             \<comment> \<open>a panic of the code that uses the crate\<close>

datatype fault = UB | Panic panic | Blocked | NoFuel

datatype 'a res = Ok 'a | Fault fault

primrec bind_res :: "'a res \<Rightarrow> ('a \<Rightarrow> 'b res) \<Rightarrow> 'b res" where
  "bind_res (Ok x) f = f x"
| "bind_res (Fault e) f = Fault e"

declare bind_res.simps [res_simps]

lemma bind_res_Ok_iff [res_simps]:
  "bind_res m f = Ok y \<longleftrightarrow> (\<exists>x. m = Ok x \<and> f x = Ok y)"
  by (cases m) auto

lemma bind_res_Fault_iff:
  "bind_res m f = Fault e \<longleftrightarrow> m = Fault e \<or> (\<exists>x. m = Ok x \<and> f x = Fault e)"
  by (cases m) auto

lemma bind_res_assoc: "bind_res (bind_res m f) g = bind_res m (\<lambda>x. bind_res (f x) g)"
  by (cases m) auto

lemma bind_res_cong [fundef_cong]:
  "m = m' \<Longrightarrow> (\<And>x. m' = Ok x \<Longrightarrow> f x = f' x) \<Longrightarrow> bind_res m f = bind_res m' f'"
  by (cases m') auto

section \<open>Errors of the operating system\<close>

text \<open>
  \<open>nix::Error\<close> is an errno value; the code tells apart \<open>EINTR\<close>, \<open>EAGAIN\<close> and
  \<open>EBADF\<close>. A \<open>std::io::Error\<close> carries either an errno or a simple kind.
\<close>

datatype errno = EINTR | EAGAIN | EBADF | Errno nat

datatype error_kind = Interrupted | WouldBlock | Unsupported | OtherKind

datatype io_error = OsError errno | SimpleError error_kind

fun kind :: "io_error \<Rightarrow> error_kind" where
  "kind (OsError EINTR) = Interrupted"
| "kind (OsError EAGAIN) = WouldBlock"
| "kind (OsError _) = OtherKind"
| "kind (SimpleError k) = k"

type_synonym raw_fd = int

datatype 'a poll = Pending | Ready 'a

section \<open>Lists\<close>

lemma filter_neq_id [simp]: "x \<notin> set xs \<Longrightarrow> filter (\<lambda>y. y \<noteq> x) xs = xs"
  by (induction xs) auto

lemma distinct_filter_neq_split:
  "distinct (xs @ x # ys) \<Longrightarrow> filter (\<lambda>y. y \<noteq> x) (xs @ x # ys) = xs @ ys"
  by auto

end
