(* ===== verification/Epox_Queue.thy ===== *)
theory Epox_Queue
  imports Epox_Prelude
begin

text \<open>
  The intrusive queue of \<^verbatim>\<open>src/queue.rs\<close>, at the level of its raw pointers.

  A queue is a circular doubly linked list through a head entry and the entries
  embedded in the queued objects. Pointers are values of a type \<open>'p\<close>, \<open>None\<close> is the
  null pointer, and the memory maps the addresses of live entries to their two
  pointers; a dereference of null or of an address that is not live is \<open>Fault UB\<close>.
  The strong counts of the \<open>Arc\<close>s whose ownership the queue takes and gives back are
  part of the memory.

  The lemmas show that the pointer code implements first-in first-out lists
  (\<open>repr\<close>), for any number of queues that share entries. The locale \<open>intrusive_queues\<close>
  states this contract for the executor, and \<open>iq\<close> interprets it on the pointer code.
\<close>

section \<open>Entries and memory\<close>

record 'p queue_entry =
  qe_prev :: "'p option"
  qe_next :: "'p option"

record 'p qmem =
  links :: "'p \<rightharpoonup> 'p queue_entry"
  strong :: "'p \<Rightarrow> nat"

definition queue_entry_new :: "'p queue_entry" where
  "queue_entry_new = \<lparr>qe_prev = None, qe_next = None\<rparr>"

definition deref :: "'p option \<Rightarrow> 'p qmem \<Rightarrow> 'p queue_entry res" where
  "deref p m = (case p of
     None \<Rightarrow> Fault UB
   | Some a \<Rightarrow> (case links m a of None \<Rightarrow> Fault UB | Some e \<Rightarrow> Ok e))"

text \<open>The assignments \<open>(*p).prev = v\<close> and \<open>(*p).next = v\<close>.\<close>

definition set_prev :: "'p option \<Rightarrow> 'p option \<Rightarrow> 'p qmem \<Rightarrow> 'p qmem res" where
  "set_prev p v m = bind_res (deref p m) (\<lambda>e.
     Ok (m\<lparr>links := (links m)(the p \<mapsto> e\<lparr>qe_prev := v\<rparr>)\<rparr>))"

definition set_next :: "'p option \<Rightarrow> 'p option \<Rightarrow> 'p qmem \<Rightarrow> 'p qmem res" where
  "set_next p v m = bind_res (deref p m) (\<lambda>e.
     Ok (m\<lparr>links := (links m)(the p \<mapsto> e\<lparr>qe_next := v\<rparr>)\<rparr>))"

text \<open>Dropping one strong reference. A count of zero has no reference to drop.\<close>

definition arc_dec :: "'p \<Rightarrow> 'p qmem \<Rightarrow> 'p qmem res" where
  "arc_dec e m = (if strong m e = 0 then Fault UB
     else Ok (m\<lparr>strong := (strong m)(e := strong m e - 1)\<rparr>))"

definition arc_inc :: "'p \<Rightarrow> 'p qmem \<Rightarrow> 'p qmem" where
  "arc_inc e m = m\<lparr>strong := (strong m)(e := Suc (strong m e))\<rparr>"

section \<open>The operations of \<open>QueueEntry\<close> and \<open>Queue\<close>\<close>

definition entry_is_queued :: "'p \<Rightarrow> 'p qmem \<Rightarrow> bool res" where
  "entry_is_queued e m = bind_res (deref (Some e) m) (\<lambda>s. Ok (qe_prev s \<noteq> None))"

definition unqueue :: "'p \<Rightarrow> 'p qmem \<Rightarrow> 'p qmem res" where
  "unqueue e m = bind_res (entry_is_queued e m) (\<lambda>q.
     if \<not> q then Ok m
     else bind_res (deref (Some e) m) (\<lambda>s.
       bind_res (set_next (qe_prev s) (qe_next s) m) (\<lambda>m1.
       bind_res (deref (Some e) m1) (\<lambda>s1.
       bind_res (set_prev (qe_next s1) (qe_prev s1) m1) (\<lambda>m2.
       set_prev (Some e) None m2)))))"

definition queue_new :: "'p \<Rightarrow> 'p qmem \<Rightarrow> 'p qmem" where
  "queue_new h m = m\<lparr>links := (links m)(h \<mapsto> queue_entry_new)\<rparr>"

definition queue_init :: "'p \<Rightarrow> 'p qmem \<Rightarrow> 'p qmem res" where
  "queue_init h m = bind_res (set_prev (Some h) (Some h) m) (\<lambda>m1.
     set_next (Some h) (Some h) m1)"

definition queue_is_empty :: "'p \<Rightarrow> 'p qmem \<Rightarrow> bool res" where
  "queue_is_empty h m = bind_res (deref (Some h) m) (\<lambda>s. Ok (qe_prev s = Some h))"

text \<open>
  \<open>push\<close> consumes one strong reference to its entry: it becomes the queue's when the
  entry was in no queue, and is dropped when a queue held one already.
\<close>

definition push :: "'p \<Rightarrow> 'p \<Rightarrow> 'p qmem \<Rightarrow> 'p qmem res" where
  "push h e m = bind_res (entry_is_queued e m) (\<lambda>was_queued.
     bind_res (unqueue e m) (\<lambda>m1.
     bind_res (deref (Some h) m1) (\<lambda>s1.
     bind_res (set_next (Some e) (qe_next s1) m1) (\<lambda>m2.
     bind_res (set_prev (Some e) (Some h) m2) (\<lambda>m3.
     bind_res (deref (Some h) m3) (\<lambda>s3.
     bind_res (set_prev (qe_next s3) (Some e) m3) (\<lambda>m4.
     bind_res (set_next (Some h) (Some e) m4) (\<lambda>m5.
     if \<not> was_queued then Ok m5 else arc_dec e m5))))))))"

text \<open>\<open>pop\<close> gives the queue's strong reference to its caller.\<close>

definition pop :: "'p \<Rightarrow> 'p qmem \<Rightarrow> ('p option \<times> 'p qmem) res" where
  "pop h m = bind_res (queue_is_empty h m) (\<lambda>empty.
     if empty then Ok (None, m)
     else bind_res (deref (Some h) m) (\<lambda>s.
       case qe_prev s of
         None \<Rightarrow> Fault UB
       | Some e \<Rightarrow> bind_res (unqueue e m) (\<lambda>m1. Ok (Some e, m1))))"

text \<open>
  \<open>release\<close> consumes the caller's reference to the entry, and the queue's reference if
  a queue holds one.
\<close>

definition release :: "'p \<Rightarrow> 'p qmem \<Rightarrow> 'p qmem res" where
  "release e m = bind_res (entry_is_queued e m) (\<lambda>q.
     bind_res (if q then arc_dec e m else Ok m) (\<lambda>m1.
     bind_res (unqueue e m1) (\<lambda>m2.
     arc_dec e m2)))"

section \<open>Chains of links\<close>

text \<open>
  \<open>link L a b\<close>: the next pointer of \<open>a\<close> is \<open>b\<close> and the previous pointer of \<open>b\<close> is \<open>a\<close>.
  \<open>chain L a xs b\<close>: the links lead from \<open>a\<close> through \<open>xs\<close> to \<open>b\<close>.
\<close>

definition link :: "('p \<rightharpoonup> 'p queue_entry) \<Rightarrow> 'p \<Rightarrow> 'p \<Rightarrow> bool" where
  "link L a b \<longleftrightarrow> map_option qe_next (L a) = Some (Some b) \<and> map_option qe_prev (L b) = Some (Some a)"

fun chain :: "('p \<rightharpoonup> 'p queue_entry) \<Rightarrow> 'p \<Rightarrow> 'p list \<Rightarrow> 'p \<Rightarrow> bool" where
  "chain L a [] b = link L a b"
| "chain L a (x # xs) b = (link L a x \<and> chain L x xs b)"

definition upd_next :: "'p \<Rightarrow> 'p option \<Rightarrow> ('p \<rightharpoonup> 'p queue_entry) \<Rightarrow> ('p \<rightharpoonup> 'p queue_entry)" where
  "upd_next y v L = L(y := map_option (qe_next_update (\<lambda>_. v)) (L y))"

definition upd_prev :: "'p \<Rightarrow> 'p option \<Rightarrow> ('p \<rightharpoonup> 'p queue_entry) \<Rightarrow> ('p \<rightharpoonup> 'p queue_entry)" where
  "upd_prev y v L = L(y := map_option (qe_prev_update (\<lambda>_. v)) (L y))"

lemma chain_append: "chain L a (xs @ x # ys) b \<longleftrightarrow> chain L a xs x \<and> chain L x ys b"
  by (induction xs arbitrary: a) auto

lemma chain_snoc: "chain L a (xs @ [x]) b \<longleftrightarrow> chain L a xs x \<and> link L x b"
  by (simp add: chain_append)

lemma link_upd_next [simp]:
  "link (upd_next y v L) a b \<longleftrightarrow>
     (if a = y then L y \<noteq> None \<and> v = Some b \<and> map_option qe_prev (L b) = Some (Some a) else link L a b)"
  by (cases "L b") (auto simp: link_def upd_next_def)

lemma link_upd_prev [simp]:
  "link (upd_prev y v L) a b \<longleftrightarrow>
     (if b = y then L y \<noteq> None \<and> v = Some a \<and> map_option qe_next (L a) = Some (Some b) else link L a b)"
  by (cases "L a") (auto simp: link_def upd_prev_def)

lemma chain_upd_next [simp]:
  "a \<noteq> y \<Longrightarrow> y \<notin> set xs \<Longrightarrow> chain (upd_next y v L) a xs b = chain L a xs b"
  by (induction xs arbitrary: a) auto

lemma chain_upd_prev [simp]:
  "b \<noteq> y \<Longrightarrow> y \<notin> set xs \<Longrightarrow> chain (upd_prev y v L) a xs b = chain L a xs b"
  by (induction xs arbitrary: a) auto

lemma upd_lookup [simp]:
  "map_option qe_prev (upd_next y v L z) = map_option qe_prev (L z)"
  "map_option qe_next (upd_prev y v L z) = map_option qe_next (L z)"
  "map_option qe_next (upd_next y v L z) = (if z = y then map_option (\<lambda>_. v) (L y) else map_option qe_next (L z))"
  "map_option qe_prev (upd_prev y v L z) = (if z = y then map_option (\<lambda>_. v) (L y) else map_option qe_prev (L z))"
  "map_option (\<lambda>_. c) (upd_next y v L z) = map_option (\<lambda>_. c) (L z)"
  "map_option (\<lambda>_. c) (upd_prev y v L z) = map_option (\<lambda>_. c) (L z)"
  by (auto simp: upd_next_def upd_prev_def option.map_comp comp_def)

lemma upd_dom [simp]:
  "dom (upd_next y v L) = dom L" "dom (upd_prev y v L) = dom L"
  "upd_next y v L z = None \<longleftrightarrow> L z = None" "upd_prev y v L z = None \<longleftrightarrow> L z = None"
  "(\<exists>t. upd_next y v L z = Some t) \<longleftrightarrow> (\<exists>t. L z = Some t)"
  "(\<exists>t. upd_prev y v L z = Some t) \<longleftrightarrow> (\<exists>t. L z = Some t)"
  by (auto simp: upd_next_def upd_prev_def dom_def)

lemma link_dom: "link L a b \<Longrightarrow> L a \<noteq> None \<and> L b \<noteq> None"
  by (auto simp: link_def)

lemma chain_dom: "chain L a xs b \<Longrightarrow> x \<in> set xs \<or> x = a \<or> x = b \<Longrightarrow> L x \<noteq> None"
  by (induction xs arbitrary: a) (auto dest: link_dom)

lemma chain_first: "chain L a xs b \<Longrightarrow> map_option qe_next (L a) = Some (Some (hd (xs @ [b])))"
  by (cases xs) (auto simp: link_def)

lemma chain_last: "chain L a xs b \<Longrightarrow> map_option qe_prev (L b) = Some (Some (last (a # xs)))"
  by (induction xs arbitrary: a) (auto simp: link_def)


section \<open>Removing and inserting an entry in a ring\<close>

text \<open>
  \<open>unlink\<close> and \<open>insert_after\<close> are the net effect of the pointer assignments of
  \<open>unqueue\<close> and \<open>push\<close> on the links.
\<close>

definition unlink :: "'p \<Rightarrow> 'p \<Rightarrow> 'p \<Rightarrow> ('p \<rightharpoonup> 'p queue_entry) \<Rightarrow> ('p \<rightharpoonup> 'p queue_entry)" where
  "unlink p e s L = upd_prev e None (upd_prev s (Some p) (upd_next p (Some s) L))"

definition insert_after :: "'p \<Rightarrow> 'p \<Rightarrow> 'p \<Rightarrow> ('p \<rightharpoonup> 'p queue_entry) \<Rightarrow> ('p \<rightharpoonup> 'p queue_entry)" where
  "insert_after h e n L =
     upd_next h (Some e) (upd_prev n (Some e) (upd_prev e (Some h) (upd_next e (Some n) L)))"

lemma ring_unlink:
  assumes "chain L h (xs @ e # ys) h" and "distinct (h # xs @ e # ys)"
  shows "chain (unlink (last (h # xs)) e (hd (ys @ [h])) L) h (xs @ ys) h"
proof (cases xs rule: rev_cases)
  case Nil
  with assms show ?thesis
    by (cases ys) (auto simp: unlink_def link_def)
next
  case (snoc xs' p)
  with assms show ?thesis
    by (cases ys) (auto simp: unlink_def chain_append link_def)
qed

lemma ring_insert:
  assumes "chain L h xs h" and "distinct (h # e # xs)" and "L e \<noteq> None"
  shows "chain (insert_after h e (hd (xs @ [h])) L) h (e # xs) h"
  using assms by (cases xs) (auto simp: insert_after_def link_def)

lemma chain_unlink_other:
  "{p, e, s} \<inter> insert a (set xs) = {} \<Longrightarrow> {p, e, s} \<inter> insert b (set xs) = {} \<Longrightarrow>
   chain (unlink p e s L) a xs b = chain L a xs b"
  by (simp add: unlink_def)

lemma chain_insert_other:
  "{h, e, n} \<inter> insert a (set xs) = {} \<Longrightarrow> {h, e, n} \<inter> insert b (set xs) = {} \<Longrightarrow>
   chain (insert_after h e n L) a xs b = chain L a xs b"
  by (simp add: insert_after_def)

section \<open>Queues as lists\<close>

text \<open>
  The abstract state of all queues: each head that is in use maps to its entries,
  oldest first. The ring holds them in the other order, because \<open>push\<close> inserts after
  the head and \<open>pop\<close> takes the entry before it.
\<close>

type_synonym 'p queues = "'p \<rightharpoonup> 'p list"

definition queued :: "'p queues \<Rightarrow> 'p \<Rightarrow> bool" where
  "queued Q e \<longleftrightarrow> (\<exists>xs \<in> ran Q. e \<in> set xs)"

definition repr :: "'p qmem \<Rightarrow> 'p queues \<Rightarrow> bool" where
  "repr m Q \<longleftrightarrow>
     (\<forall>h xs. Q h = Some xs \<longrightarrow> chain (links m) h (rev xs) h \<and> distinct xs \<and> set xs \<inter> dom Q = {}) \<and>
     (\<forall>h h' xs xs'. Q h = Some xs \<longrightarrow> Q h' = Some xs' \<longrightarrow> h \<noteq> h' \<longrightarrow> set xs \<inter> set xs' = {}) \<and>
     (\<forall>e. e \<in> dom (links m) \<longrightarrow> e \<notin> dom Q \<longrightarrow>
        map_option qe_prev (links m e) = Some None \<longleftrightarrow> \<not> queued Q e)"

text \<open>The abstract operations.\<close>

definition qremove :: "'p \<Rightarrow> 'p queues \<Rightarrow> 'p queues" where
  "qremove e Q = (\<lambda>h. map_option (filter (\<lambda>x. x \<noteq> e)) (Q h))"

definition qpush :: "'p \<Rightarrow> 'p \<Rightarrow> 'p queues \<Rightarrow> 'p queues" where
  "qpush h e Q = (qremove e Q)(h := map_option (\<lambda>xs. xs @ [e]) (qremove e Q h))"

definition qtail :: "'p \<Rightarrow> 'p queues \<Rightarrow> 'p queues" where
  "qtail h Q = Q(h := map_option tl (Q h))"

lemma queuedI: "Q h = Some xs \<Longrightarrow> e \<in> set xs \<Longrightarrow> queued Q e"
  by (auto simp: queued_def ran_def)

lemma queuedE:
  assumes "queued Q e" obtains h xs where "Q h = Some xs" "e \<in> set xs"
  using assms by (auto simp: queued_def ran_def)

lemma dom_qremove [simp]: "dom (qremove e Q) = dom Q"
  by (auto simp: qremove_def dom_def)

lemma dom_qpush [simp]: "h \<in> dom Q \<Longrightarrow> dom (qpush h e Q) = dom Q"
  by (auto simp: qpush_def qremove_def dom_def)

lemma dom_qtail [simp]: "dom (qtail h Q) = dom Q"
  by (auto simp: qtail_def dom_def)

lemma queued_qremove [simp]: "queued (qremove e Q) x \<longleftrightarrow> queued Q x \<and> x \<noteq> e"
  by (fastforce simp: queued_def qremove_def ran_def)

lemma qremove_id: "\<not> queued Q e \<Longrightarrow> qremove e Q = Q"
proof
  fix h assume "\<not> queued Q e"
  then have "e \<notin> set xs" if "Q h = Some xs" for xs
    using that by (auto dest: queuedI)
  then show "qremove e Q h = Q h"
    by (cases "Q h") (auto simp: qremove_def)
qed

lemma queued_iff: "queued Q e \<longleftrightarrow> (\<exists>h xs. Q h = Some xs \<and> e \<in> set xs)"
  by (auto simp: queued_def ran_def)

lemma queued_upd: "queued (Q(h \<mapsto> xs)) x \<longleftrightarrow> x \<in> set xs \<or> (\<exists>h' ys. h' \<noteq> h \<and> Q h' = Some ys \<and> x \<in> set ys)"
  by (auto simp: queued_iff)

lemma queued_split: "Q h = Some xs \<Longrightarrow> queued Q x \<longleftrightarrow> x \<in> set xs \<or> (\<exists>h' ys. h' \<noteq> h \<and> Q h' = Some ys \<and> x \<in> set ys)"
  using queued_upd [of Q h xs x] by (simp add: fun_upd_idem)

lemma queued_qpush [simp]: "h \<in> dom Q \<Longrightarrow> queued (qpush h e Q) x \<longleftrightarrow> queued Q x \<or> x = e"
proof -
  assume "h \<in> dom Q"
  then obtain xs where xs: "qremove e Q h = Some xs" by (auto simp: qremove_def)
  have "queued ((qremove e Q)(h \<mapsto> xs @ [e])) x \<longleftrightarrow> queued (qremove e Q) x \<or> x = e"
    using queued_split [of "qremove e Q" h xs x, OF xs] by (auto simp: queued_upd)
  with xs show ?thesis by (auto simp: qpush_def)
qed

lemma repr_chain: "repr m Q \<Longrightarrow> Q h = Some xs \<Longrightarrow> chain (links m) h (rev xs) h"
  by (auto simp: repr_def)

lemma repr_distinct: "repr m Q \<Longrightarrow> Q h = Some xs \<Longrightarrow> distinct xs"
  by (auto simp: repr_def)

lemma repr_heads: "repr m Q \<Longrightarrow> Q h = Some xs \<Longrightarrow> e \<in> set xs \<Longrightarrow> Q e = None"
  by (fastforce simp: repr_def)

lemma repr_disjoint:
  "repr m Q \<Longrightarrow> Q h = Some xs \<Longrightarrow> Q h' = Some xs' \<Longrightarrow> e \<in> set xs \<Longrightarrow> e \<in> set xs' \<Longrightarrow> h = h'"
  by (fastforce simp: repr_def)

lemma repr_flag:
  "repr m Q \<Longrightarrow> e \<in> dom (links m) \<Longrightarrow> e \<notin> dom Q \<Longrightarrow>
   map_option qe_prev (links m e) = Some None \<longleftrightarrow> \<not> queued Q e"
  by (auto simp: repr_def)

lemma repr_live: "repr m Q \<Longrightarrow> Q h = Some xs \<Longrightarrow> x \<in> set xs \<or> x = h \<Longrightarrow> x \<in> dom (links m)"
  using chain_dom [OF repr_chain, of m Q h xs x] by (auto simp: dom_def)

lemma repr_not_self: "repr m Q \<Longrightarrow> Q h = Some xs \<Longrightarrow> h \<notin> set xs"
  by (auto dest: repr_heads)


section \<open>The operations implement the lists\<close>

lemma deref_Some [simp]: "deref (Some a) m = (case links m a of None \<Rightarrow> Fault UB | Some e \<Rightarrow> Ok e)"
  by (simp add: deref_def)

lemma set_prev_live:
  "a \<in> dom (links m) \<Longrightarrow> set_prev (Some a) v m = Ok (m\<lparr>links := upd_prev a v (links m)\<rparr>)"
  by (auto simp: set_prev_def upd_prev_def)

lemma set_next_live:
  "a \<in> dom (links m) \<Longrightarrow> set_next (Some a) v m = Ok (m\<lparr>links := upd_next a v (links m)\<rparr>)"
  by (auto simp: set_next_def upd_next_def)

lemma queued_position:
  assumes "repr m Q" "Q h = Some zs" "e \<in> set zs"
  obtains xs ys where "zs = ys @ e # xs" "chain (links m) h (rev xs @ e # rev ys) h"
    "distinct (h # rev xs @ e # rev ys)"
proof -
  from assms(3) obtain ys xs where zs: "zs = ys @ e # xs" by (meson split_list)
  with repr_chain [OF assms(1,2)] repr_distinct [OF assms(1,2)] repr_not_self [OF assms(1,2)]
  show ?thesis by (intro that [of ys xs]) auto
qed

text \<open>The neighbours of an entry of a ring, read from its two pointers.\<close>

lemma ring_neighbours:
  assumes "chain L h (xs @ e # ys) h"
  shows "map_option qe_prev (L e) = Some (Some (last (h # xs)))"
    and "map_option qe_next (L e) = Some (Some (hd (ys @ [h])))"
  using assms chain_last [of L h xs e] chain_first [of L e ys h] by (auto simp: chain_append)

lemma unqueue_links:
  assumes ring: "chain (links m) h (xs @ e # ys) h" and dist: "distinct (h # xs @ e # ys)"
  shows "unqueue e m =
    Ok (m\<lparr>links := unlink (last (h # xs)) e (hd (ys @ [h])) (links m)\<rparr>)"
proof -
  define p s where "p = last (h # xs)" and "s = hd (ys @ [h])"
  obtain ent where ent: "links m e = Some ent" "qe_prev ent = Some p" "qe_next ent = Some s"
    using ring_neighbours [OF ring] by (auto simp: p_def s_def)
  have dom: "p \<in> dom (links m)" "s \<in> dom (links m)"
    using chain_dom [OF ring, of p] chain_dom [OF ring, of s]
    by (auto simp: p_def s_def dom_def hd_append)
  have "e \<noteq> p" using dist by (auto simp: p_def dest: last_in_set split: if_splits)
  then have "upd_next p (Some s) (links m) e = Some ent"
    using ent by (simp add: upd_next_def)
  moreover have "set_next (Some p) (Some s) m = Ok (m\<lparr>links := upd_next p (Some s) (links m)\<rparr>)"
    using dom by (intro set_next_live)
  moreover have "e \<in> dom (links m)" using ent by auto
  ultimately have "unqueue e m = Ok (m\<lparr>links := unlink p e s (links m)\<rparr>)"
    using ent dom by (simp add: unqueue_def entry_is_queued_def set_prev_live unlink_def del: domIff)
  then show ?thesis by (simp only: p_def s_def)
qed

lemma unlink_lookup:
  "map_option qe_prev (unlink p e s L z) =
     (if z = e then map_option (\<lambda>_. None) (L e)
      else if z = s then map_option (\<lambda>_. Some p) (L s) else map_option qe_prev (L z))"
  by (auto simp: unlink_def)

lemma unlink_dom [simp]: "dom (unlink p e s L) = dom L"
  by (simp add: unlink_def)

lemma qremove_lookup: "qremove e Q h = Some ys \<longleftrightarrow> (\<exists>xs. Q h = Some xs \<and> ys = filter (\<lambda>x. x \<noteq> e) xs)"
  by (auto simp: qremove_def)

lemma last_in_ring: "last (h # xs) \<in> insert h (set xs)"
  by auto

lemma hd_in_ring: "hd (ys @ [h]) \<in> insert h (set ys)"
  by (auto simp: hd_append)

lemma repr_unlink:
  assumes R: "repr m Q" and Qh: "Q h = Some (ys @ e # xs)"
  shows "repr (m\<lparr>links := unlink (last (h # rev xs)) e (hd (rev ys @ [h])) (links m)\<rparr>) (qremove e Q)"
    (is "repr ?m ?Q")
proof -
  let ?p = "last (h # rev xs)" and ?s = "hd (rev ys @ [h])"
  have ring: "chain (links m) h (rev xs @ e # rev ys) h"
    using repr_chain [OF R Qh] by simp
  have dist: "distinct (h # rev xs @ e # rev ys)"
    using repr_distinct [OF R Qh] repr_not_self [OF R Qh] by auto
  have near: "{?p, e, ?s} \<subseteq> insert h (set (ys @ e # xs))"
    using last_in_ring [of h "rev xs"] hd_in_ring [of "rev ys" h] by auto
  have ring': "chain (links ?m) k (rev zs) k" if zs: "?Q k = Some zs" for k zs
  proof (cases "k = h")
    case True
    with zs Qh dist have "zs = ys @ xs" by (auto simp: qremove_lookup)
    with True ring_unlink [OF ring dist] show ?thesis by simp
  next
    case False
    obtain zs' where zs': "Q k = Some zs'" "zs = filter (\<lambda>x. x \<noteq> e) zs'"
      using zs by (auto simp: qremove_lookup)
    with False repr_disjoint [OF R Qh zs'(1)] have "e \<notin> set zs'" by auto
    with zs' have "zs = zs'" by simp
    have "insert h (set (ys @ e # xs)) \<inter> insert k (set zs') = {}"
      using False repr_disjoint [OF R Qh zs'(1)] repr_heads [OF R Qh, of k]
        repr_heads [OF R zs'(1), of h] zs'(1) Qh by fastforce
    with near have far: "{?p, e, ?s} \<inter> insert k (set (rev zs')) = {}"
      unfolding set_rev by blast
    show ?thesis
      using chain_unlink_other [OF far far] repr_chain [OF R zs'(1)] \<open>zs = zs'\<close> by simp
  qed
  have flag: "map_option qe_prev (links ?m x) = Some None \<longleftrightarrow> \<not> queued ?Q x"
    if x: "x \<in> dom (links ?m)" "x \<notin> dom ?Q" for x
  proof -
    have "?s \<in> dom (links m)" using repr_live [OF R Qh, of ?s] near by auto
    moreover have "queued Q x" if "x = ?s"
      using that x Qh hd_in_ring [of "rev ys" h] by (auto intro: queuedI)
    moreover have "e \<in> dom (links m)" using repr_live [OF R Qh, of e] by simp
    ultimately show ?thesis using x repr_flag [OF R, of x]
      by (auto simp: unlink_lookup)
  qed
  show ?thesis unfolding repr_def
    using ring' flag repr_distinct [OF R] repr_heads [OF R] repr_disjoint [OF R]
    by (auto simp: qremove_lookup dom_def)
qed

lemma is_queued_repr:
  assumes "repr m Q" "e \<in> dom (links m)" "e \<notin> dom Q"
  shows "entry_is_queued e m = Ok (queued Q e)"
  using repr_flag [OF assms] assms(2) by (auto simp: entry_is_queued_def)

lemma unqueue_repr:
  assumes R: "repr m Q" and e: "e \<in> dom (links m)" "e \<notin> dom Q"
  obtains m' where "unqueue e m = Ok m'" "repr m' (qremove e Q)" "strong m' = strong m"
    "dom (links m') = dom (links m)"
proof (cases "queued Q e")
  case False
  with is_queued_repr [OF R e] have "unqueue e m = Ok m" by (simp add: unqueue_def)
  with R False show ?thesis by (intro that [of m]) (simp_all add: qremove_id)
next
  case True
  then obtain h zs where h: "Q h = Some zs" "e \<in> set zs" by (rule queuedE)
  from queued_position [OF R h] obtain xs ys where z: "zs = ys @ e # xs"
    and ring: "chain (links m) h (rev xs @ e # rev ys) h" "distinct (h # rev xs @ e # rev ys)"
    by blast
  have Qh: "Q h = Some (ys @ e # xs)" using h z by simp
  show ?thesis
    by (rule that [OF unqueue_links [OF ring] repr_unlink [OF R Qh]]) simp_all
qed

lemma chain_hd_next: "chain L h xs h \<Longrightarrow> \<exists>s. L h = Some s \<and> qe_next s = Some (hd (xs @ [h]))"
  using chain_first [of L h xs h] by auto

lemma insert_dom [simp]: "dom (insert_after h e n L) = dom L"
  by (simp add: insert_after_def)

lemma insert_lookup:
  "map_option qe_prev (insert_after h e n L z) =
     (if z = n then map_option (\<lambda>_. Some e) (L n)
      else if z = e then map_option (\<lambda>_. Some h) (L e) else map_option qe_prev (L z))"
  by (auto simp: insert_after_def)

lemma repr_insert:
  assumes R: "repr m Q" and Qh: "Q h = Some zs" and e: "\<not> queued Q e" "e \<in> dom (links m)" "e \<notin> dom Q"
  shows "repr (m\<lparr>links := insert_after h e (hd (rev zs @ [h])) (links m)\<rparr>) (Q(h \<mapsto> zs @ [e]))"
    (is "repr ?m ?Q")
proof -
  let ?n = "hd (rev zs @ [h])"
  have n: "?n \<in> insert h (set zs)" using hd_in_ring [of "rev zs" h] by simp
  have h: "h \<notin> set zs" "e \<noteq> h" "e \<notin> set zs" using repr_not_self [OF R Qh] e Qh by (auto dest: queuedI)
  have ring': "chain (links ?m) k (rev xs) k" if xs: "?Q k = Some xs" for k xs
  proof (cases "k = h")
    case True
    have "distinct (h # e # rev zs)" using repr_distinct [OF R Qh] h by auto
    with True xs ring_insert [OF repr_chain [OF R Qh]] e(2) show ?thesis by (auto simp: domIff)
  next
    case False
    with xs have k: "Q k = Some xs" by simp
    have "insert h (insert e (set zs)) \<inter> insert k (set xs) = {}"
      using False repr_disjoint [OF R Qh k] repr_heads [OF R Qh, of k] repr_heads [OF R k, of h]
        queuedI [of Q k xs e, OF k] e k Qh by fastforce
    with n have far: "{h, e, ?n} \<inter> insert k (set (rev xs)) = {}" unfolding set_rev by blast
    show ?thesis using chain_insert_other [OF far far] repr_chain [OF R k] by simp
  qed
  have flag: "map_option qe_prev (links ?m x) = Some None \<longleftrightarrow> \<not> queued ?Q x"
    if x: "x \<in> dom (links ?m)" "x \<notin> dom ?Q" for x
  proof -
    have "queued Q x" if "x = ?n"
      using that x n Qh by (auto intro: queuedI)
    moreover have "queued ?Q x \<longleftrightarrow> queued Q x \<or> x = e"
      using queued_split [of Q h zs x, OF Qh] by (auto simp: queued_upd)
    ultimately show ?thesis using x repr_flag [OF R, of x] e
      by (auto simp: insert_lookup)
  qed
  show ?thesis unfolding repr_def
    using ring' flag repr_distinct [OF R] repr_heads [OF R] repr_disjoint [OF R] h e Qh
    by (auto simp: dom_def queued_iff split: if_splits)
qed

lemma push_links:
  assumes R: "repr m Q" and Qh: "Q h = Some zs" and e: "\<not> queued Q e" "e \<in> dom (links m)" "e \<notin> dom Q"
    and un: "unqueue e m0 = Ok m" "entry_is_queued e m0 = Ok was"
  shows "push h e m0 = (let m' = m\<lparr>links := insert_after h e (hd (rev zs @ [h])) (links m)\<rparr>
    in if \<not> was then Ok m' else arc_dec e m')"
proof -
  let ?n = "hd (rev zs @ [h])"
  obtain s where s: "links m h = Some s" "qe_next s = Some ?n"
    using chain_hd_next [OF repr_chain [OF R Qh]] by auto
  have "?n \<in> insert h (set zs)" using hd_in_ring [of "rev zs" h] by simp
  then have n: "?n \<in> dom (links m)" using repr_live [OF R Qh, of ?n] by auto
  have "e \<noteq> h" using e Qh by auto
  then have "upd_prev e (Some h) (upd_next e (Some ?n) (links m)) h = Some s"
    using s by (simp add: upd_prev_def upd_next_def)
  with s n e un show ?thesis
    by (simp add: push_def set_next_live set_prev_live insert_after_def Let_def domI del: domIff)
qed

text \<open>
  The reference counts: \<open>push\<close> gives up the caller's reference only if a queue held
  one already.
\<close>

lemma repr_strong [simp]: "repr (m\<lparr>strong := c\<rparr>) Q \<longleftrightarrow> repr m Q"
  by (simp add: repr_def)

lemma push_repr:
  assumes R: "repr m Q" and h: "h \<in> dom Q" and e: "e \<in> dom (links m)" "e \<notin> dom Q"
    and owned: "0 < strong m e"
  obtains m' where "push h e m = Ok m'" "repr m' (qpush h e Q)" "dom (links m') = dom (links m)"
    "strong m' = (if queued Q e then (strong m)(e := strong m e - 1) else strong m)"
proof -
  obtain m1 where m1: "unqueue e m = Ok m1" "repr m1 (qremove e Q)" "strong m1 = strong m"
    "dom (links m1) = dom (links m)"
    using unqueue_repr [OF R e] .
  obtain zs where zs: "qremove e Q h = Some zs" using h by (auto simp: qremove_def)
  have e1: "\<not> queued (qremove e Q) e" "e \<in> dom (links m1)" "e \<notin> dom (qremove e Q)"
    using e m1 by auto
  define m2 where "m2 = m1\<lparr>links := insert_after h e (hd (rev zs @ [h])) (links m1)\<rparr>"
  have R2: "repr m2 (qpush h e Q)"
    using repr_insert [OF m1(2) zs e1] zs by (simp add: qpush_def m2_def)
  have "push h e m = (if queued Q e then arc_dec e m2 else Ok m2)"
    using push_links [OF m1(2) zs e1 m1(1) is_queued_repr [OF R e]] by (auto simp: Let_def m2_def)
  moreover have D: "dom (links m2) = dom (links m)" "strong m2 = strong m"
    using m1 by (simp_all add: m2_def)
  ultimately show ?thesis
    using that [of "if queued Q e then m2\<lparr>strong := (strong m)(e := strong m e - 1)\<rparr> else m2"]
      R2 owned by (simp add: arc_dec_def split: if_splits)
qed

lemma is_empty_repr:
  assumes R: "repr m Q" and h: "Q h = Some zs"
  shows "queue_is_empty h m = Ok (zs = [])"
proof -
  have "map_option qe_prev (links m h) = Some (Some (last (h # rev zs)))"
    using chain_last [OF repr_chain [OF R h]] .
  moreover have "last (h # rev zs) = h \<longleftrightarrow> zs = []"
    using repr_not_self [OF R h] by (cases zs) auto
  ultimately show ?thesis by (auto simp: queue_is_empty_def)
qed

lemma pop_empty: "repr m Q \<Longrightarrow> Q h = Some [] \<Longrightarrow> pop h m = Ok (None, m)"
  by (simp add: pop_def is_empty_repr)

lemma pop_repr:
  assumes R: "repr m Q" and h: "Q h = Some (e # es)"
  obtains m' where "pop h m = Ok (Some e, m')" "repr m' (qtail h Q)" "strong m' = strong m"
    "dom (links m') = dom (links m)"
proof -
  have e: "e \<in> dom (links m)" "e \<notin> dom Q"
    using repr_live [OF R h, of e] repr_heads [OF R h, of e] by auto
  obtain m' where m': "unqueue e m = Ok m'" "repr m' (qremove e Q)" "strong m' = strong m"
    "dom (links m') = dom (links m)"
    using unqueue_repr [OF R e] .
  have "qremove e Q = qtail h Q"
  proof
    fix k
    have "e \<notin> set zs" if "Q k = Some zs" "k \<noteq> h" for zs
      using repr_disjoint [OF R h that(1), of e] that(2) by auto
    then show "qremove e Q k = qtail h Q k"
      using h repr_distinct [OF R h] by (cases "Q k") (auto simp: qremove_def qtail_def)
  qed
  moreover have "pop h m = Ok (Some e, m')"
    using chain_last [OF repr_chain [OF R h]] is_empty_repr [OF R h] m'(1)
    by (auto simp: pop_def)
  ultimately show ?thesis using m' that [of m'] by simp
qed

lemma release_repr:
  assumes R: "repr m Q" and e: "e \<in> dom (links m)" "e \<notin> dom Q"
    and owned: "(if queued Q e then 2 else 1) \<le> strong m e"
  obtains m' where "release e m = Ok m'" "repr m' (qremove e Q)" "dom (links m') = dom (links m)"
    "strong m' = (strong m)(e := strong m e - (if queued Q e then 2 else 1))"
proof -
  define m1 where "m1 = (if queued Q e then m\<lparr>strong := (strong m)(e := strong m e - 1)\<rparr> else m)"
  have R1: "repr m1 Q" and e1: "e \<in> dom (links m1)" using R e by (auto simp: m1_def)
  obtain m2 where m2: "unqueue e m1 = Ok m2" "repr m2 (qremove e Q)" "strong m2 = strong m1"
    "dom (links m2) = dom (links m1)"
    using unqueue_repr [OF R1 e1 e(2)] .
  have "strong m1 e = strong m e - (if queued Q e then 1 else 0)" by (simp add: m1_def)
  with owned have "0 < strong m1 e" by (simp split: if_splits)
  then have "release e m = Ok (m2\<lparr>strong := (strong m2)(e := strong m2 e - 1)\<rparr>)"
    using is_queued_repr [OF R e] m2 owned
    by (auto simp: release_def arc_dec_def m1_def)
  moreover have "(strong m2)(e := strong m2 e - 1) =
      (strong m)(e := strong m e - (if queued Q e then 2 else 1))"
    using m2 by (auto simp: m1_def numeral_2_eq_2)
  ultimately show ?thesis using m2 that by (simp add: m1_def split: if_splits)
qed

text \<open>Allocation: new entries and heads, and freeing an entry that is in no queue.\<close>

definition entry_alloc :: "'p \<Rightarrow> 'p qmem \<Rightarrow> 'p qmem" where
  "entry_alloc e m = m\<lparr>links := (links m)(e \<mapsto> queue_entry_new), strong := (strong m)(e := 1)\<rparr>"

definition entry_free :: "'p \<Rightarrow> 'p qmem \<Rightarrow> 'p qmem" where
  "entry_free e m = m\<lparr>links := (links m)(e := None)\<rparr>"

lemma chain_cong:
  assumes "chain L a xs b" and "\<And>x. x \<in> insert a (insert b (set xs)) \<Longrightarrow> L' x = L x"
  shows "chain L' a xs b"
  using assms by (induction xs arbitrary: a) (auto simp: link_def)

lemma repr_fresh:
  assumes R: "repr m Q" and e: "links m e = None"
  shows "Q e = None" "\<not> queued Q e"
proof -
  show "Q e = None" using repr_live [OF R, of e _ e] e by (cases "Q e") auto
  show "\<not> queued Q e" using repr_live [OF R, of _ _ e] e by (auto simp: queued_iff)
qed

lemma repr_other_links:
  assumes R: "repr m Q" and e: "Q e = None" "\<not> queued Q e"
    and new: "v = None \<or> map_option qe_prev v = Some None"
  shows "repr (m\<lparr>links := (links m)(e := v)\<rparr>) Q"
proof -
  have "chain ((links m)(e := v)) h (rev xs) h" if h: "Q h = Some xs" for h xs
  proof (rule chain_cong [OF repr_chain [OF R h]])
    fix x assume "x \<in> insert h (insert h (set (rev xs)))"
    then have "x \<noteq> e" using e h by (auto simp: queued_iff)
    then show "((links m)(e := v)) x = links m x" by simp
  qed
  moreover have "map_option qe_prev (((links m)(e := v)) x) = Some None \<longleftrightarrow> \<not> queued Q x"
    if "x \<in> dom ((links m)(e := v))" "x \<notin> dom Q" for x
    using that repr_flag [OF R, of x] e new by (cases "x = e") auto
  ultimately show ?thesis
    using repr_distinct [OF R] repr_heads [OF R] repr_disjoint [OF R]
    unfolding repr_def by (simp add: disjoint_iff domIff) blast
qed

lemma alloc_repr: "repr m Q \<Longrightarrow> links m e = None \<Longrightarrow> repr (entry_alloc e m) Q"
  using repr_other_links [of m Q e "Some queue_entry_new"] repr_fresh [of m Q e]
  by (simp add: entry_alloc_def queue_entry_new_def repr_def)

lemma free_repr: "repr m Q \<Longrightarrow> Q e = None \<Longrightarrow> \<not> queued Q e \<Longrightarrow> repr (entry_free e m) Q"
  using repr_other_links [of m Q e None] by (simp add: entry_free_def)

lemma init_repr:
  assumes R: "repr m Q" and h: "links m h = None"
  obtains m' where "queue_init h (queue_new h m) = Ok m'" "repr m' (Q(h \<mapsto> []))"
    "strong m' = strong m" "dom (links m') = insert h (dom (links m))"
proof -
  define m' where "m' = m\<lparr>links := (links m)(h \<mapsto> \<lparr>qe_prev = Some h, qe_next = Some h\<rparr>)\<rparr>"
  have "chain (links m') k (rev xs) k" if k: "Q k = Some xs" for k xs
  proof (rule chain_cong [OF repr_chain [OF R k]])
    fix x assume "x \<in> insert k (insert k (set (rev xs)))"
    then have "x \<noteq> h" using repr_fresh [OF R h] k by (auto simp: queued_iff)
    then show "links m' x = links m x" by (simp add: m'_def)
  qed
  moreover have "link (links m') h h" by (simp add: m'_def link_def)
  moreover have "queued (Q(h \<mapsto> [])) x \<longleftrightarrow> queued Q x" for x
    using repr_fresh(1) [OF R h] unfolding queued_iff fun_upd_apply
    by (metis empty_iff list.set(1) option.distinct(1) option.inject)
  moreover have "h \<notin> set xs" if "Q k = Some xs" for k xs
    using that repr_fresh [OF R h] by (auto simp: queued_iff)
  ultimately have "repr m' (Q(h \<mapsto> []))"
    using repr_distinct [OF R] repr_heads [OF R] repr_disjoint [OF R] repr_flag [OF R]
    unfolding repr_def by (auto simp: m'_def disjoint_iff domIff)
  moreover have "queue_init h (queue_new h m) = Ok m'"
    by (simp add: queue_init_def queue_new_def set_prev_def set_next_def queue_entry_new_def m'_def)
  ultimately show ?thesis by (intro that [of m']) (simp_all add: m'_def)
qed

text \<open>Freeing the head of an empty queue.\<close>

lemma free_head_repr:
  assumes R: "repr m Q" and h: "Q h = Some []"
  shows "repr (entry_free h m) (Q(h := None))"
proof -
  have "chain (links (entry_free h m)) k (rev xs) k" if k: "Q k = Some xs" "k \<noteq> h" for k xs
  proof (rule chain_cong [OF repr_chain [OF R k(1)]])
    fix x assume "x \<in> insert k (insert k (set (rev xs)))"
    then have "x \<noteq> h" using repr_heads [OF R k(1)] k h by auto
    then show "links (entry_free h m) x = links m x" by (simp add: entry_free_def)
  qed
  moreover have "queued (Q(h := None)) x \<longleftrightarrow> queued Q x" for x
    using h unfolding queued_iff fun_upd_apply
    by (metis empty_iff list.set(1) option.distinct(1) option.inject)
  ultimately show ?thesis
    using repr_distinct [OF R] repr_heads [OF R] repr_disjoint [OF R] repr_flag [OF R]
    unfolding repr_def by (auto simp: entry_free_def disjoint_iff domIff)
qed

section \<open>The contract of the queues\<close>

text \<open>
  What the executor relies on: the operations on a memory that represents the lists \<open>Q\<close>
  do not fault, and change the lists and the reference counts as the abstract operations
  say. \<open>live\<close> is the set of allocated entries and heads.
\<close>

locale intrusive_queues =
  fixes push' :: "'p \<Rightarrow> 'p \<Rightarrow> 'm \<Rightarrow> 'm res"
    and pop' :: "'p \<Rightarrow> 'm \<Rightarrow> ('p option \<times> 'm) res"
    and release' :: "'p \<Rightarrow> 'm \<Rightarrow> 'm res"
    and is_queued' :: "'p \<Rightarrow> 'm \<Rightarrow> bool res"
    and is_empty' :: "'p \<Rightarrow> 'm \<Rightarrow> bool res"
    and repr' :: "'m \<Rightarrow> 'p queues \<Rightarrow> bool"
    and live' :: "'m \<Rightarrow> 'p set"
    and count' :: "'m \<Rightarrow> 'p \<Rightarrow> nat"
  assumes push_law: "repr' m Q \<Longrightarrow> h \<in> dom Q \<Longrightarrow> e \<in> live' m \<Longrightarrow> e \<notin> dom Q \<Longrightarrow> 0 < count' m e \<Longrightarrow>
      \<exists>m'. push' h e m = Ok m' \<and> repr' m' (qpush h e Q) \<and> live' m' = live' m \<and>
        count' m' = (if queued Q e then (count' m)(e := count' m e - 1) else count' m)"
    and pop_law: "repr' m Q \<Longrightarrow> Q h = Some (e # es) \<Longrightarrow>
      \<exists>m'. pop' h m = Ok (Some e, m') \<and> repr' m' (qtail h Q) \<and> live' m' = live' m \<and> count' m' = count' m"
    and pop_empty_law: "repr' m Q \<Longrightarrow> Q h = Some [] \<Longrightarrow> pop' h m = Ok (None, m)"
    and release_law: "repr' m Q \<Longrightarrow> e \<in> live' m \<Longrightarrow> e \<notin> dom Q \<Longrightarrow>
      (if queued Q e then 2 else 1) \<le> count' m e \<Longrightarrow>
      \<exists>m'. release' e m = Ok m' \<and> repr' m' (qremove e Q) \<and> live' m' = live' m \<and>
        count' m' = (count' m)(e := count' m e - (if queued Q e then 2 else 1))"
    and is_queued_law: "repr' m Q \<Longrightarrow> e \<in> live' m \<Longrightarrow> e \<notin> dom Q \<Longrightarrow> is_queued' e m = Ok (queued Q e)"
    and is_empty_law: "repr' m Q \<Longrightarrow> Q h = Some xs \<Longrightarrow> is_empty' h m = Ok (xs = [])"
begin

text \<open>Popping from the first non-empty of several queues.\<close>

lemma pop_or_else:
  assumes R: "repr' m Q" and h: "Q h = Some xs"
  shows "bind_res (pop' h m) (\<lambda>(r, m1). case r of Some e \<Rightarrow> Ok (Some e, m1) | None \<Rightarrow> k m1) =
    (case xs of [] \<Rightarrow> k m | e # _ \<Rightarrow> pop' h m)"
proof (cases xs)
  case Nil
  with R h show ?thesis by (simp add: pop_empty_law)
next
  case (Cons e es)
  with pop_law [OF R, of h e es] h show ?thesis by auto
qed

text \<open>A released entry is in no queue, whichever queue held it.\<close>

lemma release_unqueues:
  assumes "repr' m Q" "e \<in> live' m" "e \<notin> dom Q" "(if queued Q e then 2 else 1) \<le> count' m e"
  shows "\<exists>m'. release' e m = Ok m' \<and> is_queued' e m' = Ok False"
  using release_law [OF assms] is_queued_law [of _ "qremove e Q" e] assms(2,3) by fastforce

end

interpretation iq: intrusive_queues push pop release entry_is_queued queue_is_empty
  repr "\<lambda>m. dom (links m)" strong
proof unfold_locales
  fix m :: "'p qmem" and Q h e es
  show "repr m Q \<Longrightarrow> h \<in> dom Q \<Longrightarrow> e \<in> dom (links m) \<Longrightarrow> e \<notin> dom Q \<Longrightarrow> 0 < strong m e \<Longrightarrow>
      \<exists>m'. push h e m = Ok m' \<and> repr m' (qpush h e Q) \<and> dom (links m') = dom (links m) \<and>
        strong m' = (if queued Q e then (strong m)(e := strong m e - 1) else strong m)"
    by (metis push_repr)
  show "repr m Q \<Longrightarrow> Q h = Some (e # es) \<Longrightarrow>
      \<exists>m'. pop h m = Ok (Some e, m') \<and> repr m' (qtail h Q) \<and> dom (links m') = dom (links m) \<and>
        strong m' = strong m"
    by (metis pop_repr)
  show "repr m Q \<Longrightarrow> e \<in> dom (links m) \<Longrightarrow> e \<notin> dom Q \<Longrightarrow>
      (if queued Q e then 2 else 1) \<le> strong m e \<Longrightarrow>
      \<exists>m'. release e m = Ok m' \<and> repr m' (qremove e Q) \<and> dom (links m') = dom (links m) \<and>
        strong m' = (strong m)(e := strong m e - (if queued Q e then 2 else 1))"
    by (metis release_repr)
qed (simp_all add: pop_empty is_queued_repr is_empty_repr)

end
