(* ===== verification/Epox_Task.thy ===== *)
theory Epox_Task
  imports Epox_Queue
begin

text \<open>
  The data of a task: priorities and wakers (\<^verbatim>\<open>src/executor.rs\<close>), the task builder and
  the metadata it produces (\<^verbatim>\<open>src/task.rs\<close>), and the record of an \<open>ExecutorTask\<close>.

  A task is named by the address of its allocation, a positive number; its queue entry
  is at \<open>TEntry t\<close>. The strong count of its \<open>Arc\<close> and its queue pointers live in the
  queue memory. The future of a task is of a type \<open>'t\<close> and its output of a type \<open>'v\<close>.
\<close>

section \<open>Priorities\<close>

datatype priority = High | Normal | Low

text \<open>\<open>derive(Ord)\<close> orders the variants as they are declared.\<close>

fun priority_rank :: "priority \<Rightarrow> nat" where
  "priority_rank High = 0"
| "priority_rank Normal = 1"
| "priority_rank Low = 2"

lemma priority_rank_inj: "priority_rank p = priority_rank q \<Longrightarrow> p = q"
  by (cases p; cases q) auto

instantiation priority :: linorder
begin

definition less_eq_priority :: "priority \<Rightarrow> priority \<Rightarrow> bool" where
  "less_eq_priority p q \<longleftrightarrow> priority_rank p \<le> priority_rank q"

definition less_priority :: "priority \<Rightarrow> priority \<Rightarrow> bool" where
  "less_priority p q \<longleftrightarrow> priority_rank p < priority_rank q"

instance
  by standard (auto simp: less_eq_priority_def less_priority_def intro: priority_rank_inj)

end

section \<open>Addresses and wakers\<close>

text \<open>The four queues of an executor, and the addresses of queue heads and task entries.\<close>

datatype queue_name = RunqHigh | RunqNormal | RunqLow | Sleepq

datatype ptr = QHead nat queue_name | TEntry nat

fun runq_name :: "priority \<Rightarrow> queue_name" where
  "runq_name High = RunqHigh"
| "runq_name Normal = RunqNormal"
| "runq_name Low = RunqLow"

text \<open>
  A \<open>Waker\<close> is a data pointer and a vtable. The vtables the crate knows are those of
  \<open>Waker::noop\<close>, of \<open>task_waker\<close> (its data is a weak task reference) and of \<open>block_on\<close>
  (its data is the write end of a pipe); any other waker is \<open>ForeignWaker\<close>.
\<close>

datatype waker =
    NoopWaker
  | TaskWaker nat
  | BlockOnWaker raw_fd
  | ForeignWaker nat

definition is_task_waker :: "waker \<Rightarrow> bool" where
  "is_task_waker wk = (case wk of TaskWaker _ \<Rightarrow> True | _ \<Rightarrow> False)"

section \<open>The builder\<close>

record location =
  loc_file :: string
  loc_line :: nat
  loc_column :: nat

record 'f builder =
  b_future :: 'f
  b_priority :: priority
  b_spawn_location :: location
  b_name :: "string option"

record metadata =
  md_spawn_location :: location
  md_priority :: priority
  md_spawn_checked :: bool
  md_name :: string

definition builder_new :: "'f \<Rightarrow> location \<Rightarrow> 'f builder" where
  "builder_new f caller = \<lparr>b_future = f, b_priority = Normal, b_spawn_location = caller, b_name = None\<rparr>"

definition builder_priority :: "priority \<Rightarrow> 'f builder \<Rightarrow> 'f builder" where
  "builder_priority p b = b\<lparr>b_priority := p\<rparr>"

definition builder_name :: "string \<Rightarrow> 'f builder \<Rightarrow> 'f builder" where
  "builder_name n b = b\<lparr>b_name := Some n\<rparr>"

definition into_parts :: "'f builder \<Rightarrow> 'f \<times> metadata \<times> priority" where
  "into_parts b =
     (b_future b,
      \<lparr>md_spawn_location = b_spawn_location b, md_priority = b_priority b,
       md_spawn_checked = True,
       md_name = (case b_name b of None \<Rightarrow> [] | Some n \<Rightarrow> n)\<rparr>,
      b_priority b)"

section \<open>Tasks\<close>

text \<open>
  \<open>t_borrowed\<close> is the borrow flag of the task's \<open>RefCell\<close>: it is set while the task is
  being polled.
\<close>

record ('t, 'v) executor_task =
  t_pipe_wr :: raw_fd
  t_handle_waker :: waker
  t_priority :: priority
  t_future :: 't
  t_output :: "'v option"
  t_borrowed :: bool
  t_has_completed :: bool
  t_name :: string

text \<open>The fields of a new \<open>ExecutorTask\<close>, and of the \<open>Inner\<close> cell around its future.\<close>

definition executor_task_new :: "raw_fd \<Rightarrow> 't \<Rightarrow> priority \<Rightarrow> metadata \<Rightarrow> ('t, 'v) executor_task" where
  "executor_task_new pipe_wr f p md =
     \<lparr>t_pipe_wr = pipe_wr, t_handle_waker = NoopWaker, t_priority = p, t_future = f,
      t_output = None, t_borrowed = False, t_has_completed = False, t_name = md_name md\<rparr>"

end
