(* ===== verification/Epox_Executor.thy ===== *)
theory Epox_Executor
  imports Epox_Task
begin

unbundle bit_operations_syntax

text \<open>
  The thread-local executor of \<^verbatim>\<open>src/executor.rs\<close>: its state, the operations on its
  queues, the epoll instance and its event buffer, wake-ups through the pipe and task
  wakers.

  The operating system is a parameter: a record \<open>kernel\<close> of the system calls the code
  makes, over an abstract kernel state \<open>'k\<close>.
\<close>

section \<open>epoll events\<close>

type_synonym epoll_flags = "32 word"

definition EPOLLIN :: epoll_flags where "EPOLLIN = 1"

definition EPOLLOUT :: epoll_flags where "EPOLLOUT = 4"

definition EPOLLET :: epoll_flags where "EPOLLET = 2147483648"

text \<open>\<open>contains\<close> and \<open>is_empty\<close> of the generated \<open>bitflags\<close> type.\<close>

definition flags_contains :: "epoll_flags \<Rightarrow> epoll_flags \<Rightarrow> bool" where
  "flags_contains a b \<longleftrightarrow> a AND b = b"

record epoll_event =
  ev_events :: epoll_flags
  ev_data :: nat

definition epoll_event_empty :: epoll_event where
  "epoll_event_empty = \<lparr>ev_events = 0, ev_data = 0\<rparr>"

datatype epoll_timeout = TimeoutZero | TimeoutNone

text \<open>A wait that is not interrupted and has no event to report may never return.\<close>

datatype wait_result = WaitEvents "epoll_event list" | WaitError errno | WaitForever

section \<open>The operating system\<close>

record 'k kernel =
  sys_pipe2 :: "'k \<Rightarrow> (errno + raw_fd \<times> raw_fd) \<times> 'k"
  sys_epoll_create :: "'k \<Rightarrow> (errno + raw_fd) \<times> 'k"
  sys_epoll_add :: "raw_fd \<Rightarrow> raw_fd \<Rightarrow> epoll_event \<Rightarrow> 'k \<Rightarrow> (errno + unit) \<times> 'k"
  sys_epoll_del :: "raw_fd \<Rightarrow> raw_fd \<Rightarrow> 'k \<Rightarrow> (errno + unit) \<times> 'k"
  sys_epoll_wait :: "raw_fd \<Rightarrow> nat \<Rightarrow> epoll_timeout \<Rightarrow> 'k \<Rightarrow> wait_result \<times> 'k"
  sys_read_ptr :: "raw_fd \<Rightarrow> 'k \<Rightarrow> (errno + nat) \<times> 'k"
  sys_write_ptr :: "raw_fd \<Rightarrow> nat \<Rightarrow> 'k \<Rightarrow> (errno + unit) \<times> 'k"
  sys_close :: "raw_fd \<Rightarrow> 'k \<Rightarrow> 'k"
  sys_getfl :: "raw_fd \<Rightarrow> 'k \<Rightarrow> (errno + 32 word) \<times> 'k"
  sys_setfl :: "raw_fd \<Rightarrow> 32 word \<Rightarrow> 'k \<Rightarrow> (errno + unit) \<times> 'k"
  sys_other :: "nat \<Rightarrow> 'k \<Rightarrow> (io_error + nat) \<times> 'k"

section \<open>The state of a thread\<close>

text \<open>
  An \<open>EpollWaker\<close> is referred to by the data of the epoll registrations, so it has an
  address.
\<close>

record epoll_waker =
  ew_waker :: waker
  ew_events :: epoll_flags
  ew_burst :: "64 word"

record executor =
  x_id :: nat
  x_epoll :: raw_fd
  x_pipe_rd :: raw_fd
  x_pipe_wr :: raw_fd
  x_events :: "epoll_event list"
  x_shutdown :: bool

text \<open>An \<open>Fd\<close> owns a descriptor and the \<open>EpollWaker\<close> registered for it.\<close>

record fd_object =
  fd_inner :: raw_fd
  fd_ew :: nat

text \<open>
  The world of one thread: its executor, the tasks and their queue memory, the epoll
  wakers, and the \<open>Handle\<close> and \<open>Fd\<close> values that user code owns. \<open>w_foreign\<close> records the
  foreign wakers that were woken, oldest first. Addresses are taken from \<open>w_next\<close>.
\<close>

record ('k, 't, 'v) world =
  w_kernel :: 'k
  w_exec :: executor
  w_queue :: "ptr qmem"
  w_tasks :: "nat \<rightharpoonup> ('t, 'v) executor_task"
  w_ews :: "nat \<rightharpoonup> epoll_waker"
  w_handles :: "nat \<rightharpoonup> nat"
  w_fds :: "nat \<rightharpoonup> fd_object"
  w_foreign :: "nat list"
  w_next :: nat

definition get_task :: "nat \<Rightarrow> ('k, 't, 'v) world \<Rightarrow> ('t, 'v) executor_task res" where
  "get_task t w = (case w_tasks w t of None \<Rightarrow> Fault UB | Some k \<Rightarrow> Ok k)"

definition put_task :: "nat \<Rightarrow> ('t, 'v) executor_task \<Rightarrow> ('k, 't, 'v) world \<Rightarrow> ('k, 't, 'v) world" where
  "put_task t k w = w\<lparr>w_tasks := (w_tasks w)(t \<mapsto> k)\<rparr>"

definition with_queue :: "ptr qmem res \<Rightarrow> ('k, 't, 'v) world \<Rightarrow> ('k, 't, 'v) world res" where
  "with_queue r w = bind_res r (\<lambda>q. Ok (w\<lparr>w_queue := q\<rparr>))"

text \<open>\<open>Arc::clone\<close>, \<open>Weak::upgrade\<close>, and dropping a reference that is not the last.\<close>

definition arc_clone :: "nat \<Rightarrow> ('k, 't, 'v) world \<Rightarrow> ('k, 't, 'v) world" where
  "arc_clone t w = w\<lparr>w_queue := arc_inc (TEntry t) (w_queue w)\<rparr>"

definition weak_upgrade :: "nat \<Rightarrow> ('k, 't, 'v) world \<Rightarrow> ('k, 't, 'v) world option" where
  "weak_upgrade t w = (if strong (w_queue w) (TEntry t) = 0 then None else Some (arc_clone t w))"

definition arc_forget :: "nat \<Rightarrow> ('k, 't, 'v) world \<Rightarrow> ('k, 't, 'v) world res" where
  "arc_forget t w = with_queue (arc_dec (TEntry t) (w_queue w)) w"

section \<open>Queues of the executor\<close>

definition head_of :: "queue_name \<Rightarrow> ('k, 't, 'v) world \<Rightarrow> ptr" where
  "head_of n w = QHead (x_id (w_exec w)) n"

definition runq :: "priority \<Rightarrow> ('k, 't, 'v) world \<Rightarrow> ptr" where
  "runq p w = (case p of
     High \<Rightarrow> head_of RunqHigh w
   | Normal \<Rightarrow> head_of RunqNormal w
   | Low \<Rightarrow> head_of RunqLow w)"

text \<open>
  \<open>enqueue\<close> consumes a reference to the task. (When the task has completed the reference
  is dropped; it is never the last one, see \<open>enqueue_inv\<close>.)
\<close>

definition enqueue :: "nat \<Rightarrow> ('k, 't, 'v) world \<Rightarrow> ('k, 't, 'v) world res" where
  "enqueue t w = bind_res (get_task t w) (\<lambda>k.
     if \<not> t_has_completed k
     then with_queue (push (runq (t_priority k) w) (TEntry t) (w_queue w)) w
     else arc_forget t w)"

definition sleep_task :: "nat \<Rightarrow> ('k, 't, 'v) world \<Rightarrow> ('k, 't, 'v) world res" where
  "sleep_task t w = with_queue (push (head_of Sleepq w) (TEntry t) (w_queue w)) w"

definition highest_priority_runnable_task ::
  "('k, 't, 'v) world \<Rightarrow> (ptr option \<times> ('k, 't, 'v) world) res" where
  "highest_priority_runnable_task w =
     bind_res
       (bind_res (pop (head_of RunqHigh w) (w_queue w)) (\<lambda>(r, m1).
          case r of Some e \<Rightarrow> Ok (Some e, m1) | None \<Rightarrow>
        bind_res (pop (head_of RunqNormal w) m1) (\<lambda>(r, m2).
          case r of Some e \<Rightarrow> Ok (Some e, m2) | None \<Rightarrow>
        pop (head_of RunqLow w) m2)))
       (\<lambda>(r, q). Ok (r, w\<lparr>w_queue := q\<rparr>))"

definition sleepq_is_empty :: "('k, 't, 'v) world \<Rightarrow> bool res" where
  "sleepq_is_empty w = queue_is_empty (head_of Sleepq w) (w_queue w)"

definition task_is_queued :: "nat \<Rightarrow> ('k, 't, 'v) world \<Rightarrow> bool res" where
  "task_is_queued t w = entry_is_queued (TEntry t) (w_queue w)"

text \<open>\<open>abort\<close> consumes the reference that \<open>Handle::abort\<close> clones.\<close>

definition abort_task :: "nat \<Rightarrow> ('k, 't, 'v) world \<Rightarrow> ('k, 't, 'v) world res" where
  "abort_task t w = with_queue (release (TEntry t) (w_queue w)) w"

definition shutdown_exec :: "('k, 't, 'v) world \<Rightarrow> ('k, 't, 'v) world" where
  "shutdown_exec w = w\<lparr>w_exec := (w_exec w)\<lparr>x_shutdown := True\<rparr>\<rparr>"

text \<open>
  \<open>spawn\<close> builds the task with one reference, clones it for the run queue and returns
  the original in a new \<open>Handle\<close>.
\<close>

definition spawn_task :: "'t \<Rightarrow> priority \<Rightarrow> metadata \<Rightarrow> ('k, 't, 'v) world
    \<Rightarrow> (nat \<times> ('k, 't, 'v) world) res" where
  "spawn_task f p md w =
     (let t = w_next w; h = Suc t;
          w1 = w\<lparr>w_queue := entry_alloc (TEntry t) (w_queue w),
                 w_tasks := (w_tasks w)(t \<mapsto> executor_task_new (x_pipe_wr (w_exec w)) f p md),
                 w_next := Suc h\<rparr>
      in bind_res (enqueue t (arc_clone t w1)) (\<lambda>w2.
           Ok (h, w2\<lparr>w_handles := (w_handles w2)(h \<mapsto> t)\<rparr>)))"

section \<open>Building an executor\<close>

text \<open>
  \<open>Executor::new\<close>. If the epoll instance cannot be created the two pipe ends are closed
  again; a failure to register the pipe panics.
\<close>

definition init_queues :: "nat \<Rightarrow> ptr qmem \<Rightarrow> ptr qmem res" where
  "init_queues x m =
     (let m1 = queue_new (QHead x Sleepq) (queue_new (QHead x RunqLow)
                 (queue_new (QHead x RunqNormal) (queue_new (QHead x RunqHigh) m)))
      in bind_res (queue_init (QHead x RunqHigh) m1) (\<lambda>m2.
         bind_res (queue_init (QHead x RunqNormal) m2) (\<lambda>m3.
         bind_res (queue_init (QHead x RunqLow) m3) (\<lambda>m4.
         queue_init (QHead x Sleepq) m4))))"

definition executor_new :: "'k kernel \<Rightarrow> ('k, 't, 'v) world
    \<Rightarrow> ((io_error + executor) \<times> ('k, 't, 'v) world) res" where
  "executor_new S w = (case sys_pipe2 S (w_kernel w) of
     (Inl e, k1) \<Rightarrow> Ok (Inl (OsError e), w\<lparr>w_kernel := k1\<rparr>)
   | (Inr (rd, wr), k1) \<Rightarrow> (case sys_epoll_create S k1 of
       (Inl e, k2) \<Rightarrow>
         Ok (Inl (OsError e), w\<lparr>w_kernel := sys_close S rd (sys_close S wr k2)\<rparr>)
     | (Inr ep, k2) \<Rightarrow>
         let x = w_next w in
         bind_res (init_queues x (w_queue w)) (\<lambda>q.
         case sys_epoll_add S ep rd \<lparr>ev_events = EPOLLIN, ev_data = 0\<rparr> k2 of
           (Inl e, k3) \<Rightarrow> Fault (Panic UnwrapErr)
         | (Inr _, k3) \<Rightarrow>
             Ok (Inr \<lparr>x_id = x, x_epoll = ep, x_pipe_rd = rd, x_pipe_wr = wr,
                     x_events = [epoll_event_empty], x_shutdown = False\<rparr>,
                 w\<lparr>w_kernel := k3, w_queue := q, w_next := Suc x\<rparr>))))"

text \<open>
  The thread-local \<open>EXECUTOR\<close>: a thread starts with an empty world, and the first use of its
  executor builds it and unwraps the result. (The executor of \<open>empty_world\<close> is a placeholder.)
\<close>

definition empty_world :: "'k \<Rightarrow> ('k, 't, 'v) world" where
  "empty_world k =
     \<lparr>w_kernel = k,
      w_exec = \<lparr>x_id = 0, x_epoll = -1, x_pipe_rd = -1, x_pipe_wr = -1, x_events = [], x_shutdown = False\<rparr>,
      w_queue = \<lparr>links = Map.empty, strong = (\<lambda>_. 0)\<rparr>, w_tasks = Map.empty, w_ews = Map.empty,
      w_handles = Map.empty, w_fds = Map.empty, w_foreign = [], w_next = 1\<rparr>"

definition thread_start :: "'k kernel \<Rightarrow> 'k \<Rightarrow> ('k, 't, 'v) world res" where
  "thread_start S k = bind_res (executor_new S (empty_world k)) (\<lambda>(r, w). case r of
     Inl _ \<Rightarrow> Fault (Panic UnwrapErr)
   | Inr x \<Rightarrow> Ok (w\<lparr>w_exec := x\<rparr>))"

section \<open>Registering file descriptors\<close>

definition epoll_add :: "'k kernel \<Rightarrow> raw_fd \<Rightarrow> epoll_flags \<Rightarrow> nat \<Rightarrow> ('k, 't, 'v) world
    \<Rightarrow> (io_error + unit) \<times> ('k, 't, 'v) world" where
  "epoll_add S fd events ew w =
     (let x = w_exec w;
          w1 = w\<lparr>w_exec := x\<lparr>x_events := x_events x @ [epoll_event_empty]\<rparr>\<rparr>
      in case sys_epoll_add S (x_epoll x) fd \<lparr>ev_events = events, ev_data = ew\<rparr> (w_kernel w1) of
           (Inl e, k) \<Rightarrow> (Inl (OsError e), w1\<lparr>w_kernel := k\<rparr>)
         | (Inr _, k) \<Rightarrow> (Inr (), w1\<lparr>w_kernel := k\<rparr>))"

text \<open>\<open>Vec::pop\<close> on an empty vector does nothing, as \<open>butlast\<close>.\<close>

definition epoll_del :: "'k kernel \<Rightarrow> raw_fd \<Rightarrow> ('k, 't, 'v) world
    \<Rightarrow> (io_error + unit) \<times> ('k, 't, 'v) world" where
  "epoll_del S fd w =
     (let x = w_exec w;
          w1 = w\<lparr>w_exec := x\<lparr>x_events := butlast (x_events x)\<rparr>\<rparr>
      in case sys_epoll_del S (x_epoll x) fd (w_kernel w1) of
           (Inl e, k) \<Rightarrow> (Inl (OsError e), w1\<lparr>w_kernel := k\<rparr>)
         | (Inr _, k) \<Rightarrow> (Inr (), w1\<lparr>w_kernel := k\<rparr>))"

section \<open>Waiting for events\<close>

text \<open>A null pointer in the pipe only makes \<open>epoll_wait\<close> return.\<close>

definition wake_from_pipe :: "'k kernel \<Rightarrow> ('k, 't, 'v) world
    \<Rightarrow> ((io_error + unit) \<times> ('k, 't, 'v) world) res" where
  "wake_from_pipe S w = (case sys_read_ptr S (x_pipe_rd (w_exec w)) (w_kernel w) of
     (Inl e, k) \<Rightarrow> Ok (Inl (OsError e), w\<lparr>w_kernel := k\<rparr>)
   | (Inr p, k) \<Rightarrow>
       let w1 = w\<lparr>w_kernel := k\<rparr> in
       if p = 0 then Ok (Inr (), w1)
       else (case weak_upgrade p w1 of
           None \<Rightarrow> Ok (Inr (), w1)
         | Some w2 \<Rightarrow> bind_res (enqueue p w2) (\<lambda>w3. Ok (Inr (), w3))))"

text \<open>
  One event that is not from the pipe: its data is the address of an epoll waker. Only a
  task waker is woken, by putting its task in the run queue.
\<close>

definition wake_from_event :: "epoll_event \<Rightarrow> ('k, 't, 'v) world \<Rightarrow> ('k, 't, 'v) world res" where
  "wake_from_event e w = (case w_ews w (ev_data e) of
     None \<Rightarrow> Fault UB
   | Some ew \<Rightarrow>
       if flags_contains (ew_events ew) (ev_events e) then Ok w
       else
         let ew1 = ew\<lparr>ew_events := ew_events ew OR ev_events e\<rparr>;
             w1 = w\<lparr>w_ews := (w_ews w)(ev_data e \<mapsto> ew1)\<rparr>
         in (case ew_waker ew1 of
              TaskWaker t \<Rightarrow> (case weak_upgrade t w1 of
                  None \<Rightarrow> Ok w1
                | Some w2 \<Rightarrow> enqueue t w2)
            | _ \<Rightarrow> Ok w1))"

text \<open>The loop over the events; an error of \<open>wake_from_pipe\<close> returns at once.\<close>

fun handle_events :: "'k kernel \<Rightarrow> epoll_event list \<Rightarrow> ('k, 't, 'v) world
    \<Rightarrow> ((io_error + unit) \<times> ('k, 't, 'v) world) res" where
  "handle_events S [] w = Ok (Inr (), w)"
| "handle_events S (e # es) w =
     (if ev_data e = 0
      then bind_res (wake_from_pipe S w) (\<lambda>(r, w1). case r of
             Inl err \<Rightarrow> Ok (Inl err, w1)
           | Inr _ \<Rightarrow> handle_events S es w1)
      else bind_res (wake_from_event e w) (\<lambda>w1. handle_events S es w1))"

text \<open>
  \<open>epoll_wait\<close> returns at once when the event buffer is empty; the kernel writes at most
  as many events as the buffer has slots; \<open>EINTR\<close> counts as no event.
\<close>

definition epoll_wait :: "'k kernel \<Rightarrow> epoll_timeout \<Rightarrow> ('k, 't, 'v) world
    \<Rightarrow> ((io_error + unit) \<times> ('k, 't, 'v) world) res" where
  "epoll_wait S timeout w =
     (let x = w_exec w in
      if x_events x = [] then Ok (Inr (), w)
      else (case sys_epoll_wait S (x_epoll x) (length (x_events x)) timeout (w_kernel w) of
          (WaitForever, k) \<Rightarrow> Fault Blocked
        | (WaitError EINTR, k) \<Rightarrow> Ok (Inr (), w\<lparr>w_kernel := k\<rparr>)
        | (WaitError e, k) \<Rightarrow> Ok (Inl (OsError e), w\<lparr>w_kernel := k\<rparr>)
        | (WaitEvents es, k) \<Rightarrow>
            let es' = take (length (x_events x)) es;
                w1 = w\<lparr>w_kernel := k,
                       w_exec := x\<lparr>x_events := es' @ drop (length es') (x_events x)\<rparr>\<rparr>
            in handle_events S es' w1))"

section \<open>Wakers\<close>

text \<open>
  \<open>task_waker::wake\<close>. A task of this thread's executor is put in its run queue directly,
  after a look at new events if it is the task being polled; otherwise its address goes
  through the pipe of its executor.
\<close>

definition wake_task :: "'k kernel \<Rightarrow> nat \<Rightarrow> ('k, 't, 'v) world \<Rightarrow> ('k, 't, 'v) world res" where
  "wake_task S t w = (case weak_upgrade t w of
     None \<Rightarrow> Ok w
   | Some w1 \<Rightarrow> bind_res (get_task t w1) (\<lambda>k.
       if t_pipe_wr k = x_pipe_wr (w_exec w1)
       then bind_res (if t_borrowed k
                      then bind_res (epoll_wait S TimeoutZero w1) (\<lambda>(_, w2). Ok w2)
                      else Ok w1) (enqueue t)
       else (case sys_write_ptr S (t_pipe_wr k) t (w_kernel w1) of
           (Inr _, k1) \<Rightarrow> arc_forget t (w1\<lparr>w_kernel := k1\<rparr>)
         | (Inl EBADF, k1) \<Rightarrow> arc_forget t (w1\<lparr>w_kernel := k1\<rparr>)
         | (Inl _, k1) \<Rightarrow> Fault (Panic PipeWrite))))"

text \<open>The waker of \<open>block_on\<close>: a null pointer wakes the executor of another thread.\<close>

definition block_on_wake :: "'k kernel \<Rightarrow> raw_fd \<Rightarrow> ('k, 't, 'v) world \<Rightarrow> ('k, 't, 'v) world res" where
  "block_on_wake S waker_pipe_wr w =
     (if waker_pipe_wr = x_pipe_wr (w_exec w) then Ok w
      else (case sys_write_ptr S waker_pipe_wr 0 (w_kernel w) of
          (Inr _, k) \<Rightarrow> Ok (w\<lparr>w_kernel := k\<rparr>)
        | (Inl EBADF, k) \<Rightarrow> Ok (w\<lparr>w_kernel := k\<rparr>)
        | (Inl _, k) \<Rightarrow> Fault (Panic PipeWrite)))"

text \<open>\<open>Waker::wake_by_ref\<close> (and \<open>wake\<close>), by the waker's vtable.\<close>

definition wake_by_ref :: "'k kernel \<Rightarrow> waker \<Rightarrow> ('k, 't, 'v) world \<Rightarrow> ('k, 't, 'v) world res" where
  "wake_by_ref S wk w = (case wk of
     NoopWaker \<Rightarrow> Ok w
   | TaskWaker t \<Rightarrow> wake_task S t w
   | BlockOnWaker p \<Rightarrow> block_on_wake S p w
   | ForeignWaker i \<Rightarrow> Ok (w\<lparr>w_foreign := w_foreign w @ [i]\<rparr>))"

text \<open>\<open>task_waker::clone\<close>: the clone of a waker whose task is gone is a no-op waker.\<close>

definition waker_clone :: "waker \<Rightarrow> ('k, 't, 'v) world \<Rightarrow> waker" where
  "waker_clone wk w = (case wk of
     TaskWaker t \<Rightarrow> if strong (w_queue w) (TEntry t) = 0 then NoopWaker else TaskWaker t
   | _ \<Rightarrow> wk)"

text \<open>\<open>Waker::clone_from\<close> clones only a waker that would wake something else.\<close>

definition waker_clone_from :: "waker \<Rightarrow> ('k, 't, 'v) world \<Rightarrow> waker \<Rightarrow> waker" where
  "waker_clone_from source w self = (if self = source then self else waker_clone source w)"

end
