(* ===== verification/Epox_Invariant.thy ===== *)
theory Epox_Invariant
  imports Epox_Executor
begin

text \<open>
  The well-formedness of a thread's world, and the proof that every operation of the
  executor keeps it and never runs into undefined behaviour.

  \<open>wfq E Q w\<close>: the queue memory represents the lists \<open>Q\<close>; exactly the heads and the live
  tasks have entries; the strong count of every task is the number of handles to it, plus
  one if a queue holds it, plus the number \<open>E t\<close> of references held by local variables;
  a task is live as long as that count is positive; a run queue holds only tasks of its
  priority. \<open>ewf\<close>: the data of every epoll registration is the address of a live epoll
  waker. The second needs the documented behaviour of epoll, stated by \<open>kernel_ok\<close>.
\<close>

section \<open>Results that are not undefined behaviour\<close>

definition safe :: "('a \<Rightarrow> bool) \<Rightarrow> 'a res \<Rightarrow> bool" where
  "safe P r = (case r of Ok x \<Rightarrow> P x | Fault f \<Rightarrow> f \<noteq> UB)"

lemma safe_simps [simp]:
  "safe P (Ok x) = P x" "safe P (Fault f) = (f \<noteq> UB)"
  by (simp_all add: safe_def)

lemma safe_bind: "safe P m \<Longrightarrow> (\<And>x. m = Ok x \<Longrightarrow> P x \<Longrightarrow> safe R (f x)) \<Longrightarrow> safe R (bind_res m f)"
  by (cases m) auto

lemma safe_mono: "safe P m \<Longrightarrow> (\<And>x. m = Ok x \<Longrightarrow> P x \<Longrightarrow> R x) \<Longrightarrow> safe R m"
  by (cases m) auto

lemma safe_OkD: "safe P m \<Longrightarrow> m = Ok x \<Longrightarrow> P x"
  by simp

section \<open>Well-formed queues, tasks and counts\<close>

definition own :: "nat \<Rightarrow> (nat \<Rightarrow> nat) \<Rightarrow> nat \<Rightarrow> nat" where
  "own t E = E(t := Suc (E t))"

lemma own_apply [simp]: "own t E s = E s + of_bool (s = t)"
  by (simp add: own_def)

definition refs :: "(nat \<Rightarrow> nat) \<Rightarrow> ptr queues \<Rightarrow> (nat \<rightharpoonup> nat) \<Rightarrow> nat \<Rightarrow> nat" where
  "refs E Q H t = card {h. H h = Some t} + of_bool (queued Q (TEntry t)) + E t"

definition core :: "(nat \<Rightarrow> nat) \<Rightarrow> ptr queues \<Rightarrow> ptr qmem \<Rightarrow> (nat \<rightharpoonup> ('t, 'v) executor_task)
    \<Rightarrow> (nat \<rightharpoonup> nat) \<Rightarrow> nat \<Rightarrow> nat \<Rightarrow> bool" where
  "core E Q q T H nx x \<longleftrightarrow>
     repr q Q \<and>
     (\<forall>p \<in> dom Q. \<exists>y n. p = QHead y n \<and> y < nx) \<and>
     (\<forall>n. QHead x n \<in> dom Q) \<and>
     dom (links q) = dom Q \<union> TEntry ` dom T \<and>
     (\<forall>t. strong q (TEntry t) = refs E Q H t) \<and>
     (\<forall>t. t \<in> dom T \<longleftrightarrow> 0 < strong q (TEntry t)) \<and>
     finite (dom H) \<and>
     (\<forall>y p ts t k. Q (QHead y (runq_name p)) = Some ts \<longrightarrow> TEntry t \<in> set ts \<longrightarrow>
        T t = Some k \<longrightarrow> t_priority k = p) \<and>
     (\<forall>t k. T t = Some k \<longrightarrow> t_borrowed k \<longrightarrow> 0 < E t) \<and>
     (\<forall>i. i \<in> dom T \<union> dom H \<longrightarrow> 0 < i \<and> i < nx) \<and>
     0 < nx"

definition wfq :: "(nat \<Rightarrow> nat) \<Rightarrow> ptr queues \<Rightarrow> ('k, 't, 'v) world \<Rightarrow> bool" where
  "wfq E Q w \<longleftrightarrow> core E Q (w_queue w) (w_tasks w) (w_handles w) (w_next w) (x_id (w_exec w))"

text \<open>
  Executors that are being dropped are no longer the thread's: \<open>olds G Q x\<close> says that the
  heads in the first component of \<open>G\<close> are still in use, that those in the second have been
  drained, and that none of them belongs to the current executor \<open>x\<close>.
\<close>

definition olds :: "ptr set \<times> ptr set \<Rightarrow> ptr queues \<Rightarrow> nat \<Rightarrow> bool" where
  "olds G Q x \<longleftrightarrow> (\<forall>h \<in> fst G \<union> snd G. h \<in> dom Q \<and> (\<forall>n. h \<noteq> QHead x n)) \<and>
     (\<forall>h \<in> snd G. Q h = Some [])"

definition wfw :: "(nat \<Rightarrow> nat) \<Rightarrow> ptr set \<times> ptr set \<Rightarrow> ('k, 't, 'v) world \<Rightarrow> bool" where
  "wfw E G w \<longleftrightarrow> (\<exists>Q. wfq E Q w \<and> olds G Q (x_id (w_exec w)))"

lemma core_repr: "core E Q q T H nx x \<Longrightarrow> repr q Q"
  and core_head: "core E Q q T H nx x \<Longrightarrow> QHead x n \<in> dom Q"
  and core_heads: "core E Q q T H nx x \<Longrightarrow> a \<in> dom Q \<Longrightarrow> \<exists>y n. a = QHead y n \<and> y < nx"
  and core_links: "core E Q q T H nx x \<Longrightarrow> dom (links q) = dom Q \<union> TEntry ` dom T"
  and core_count: "core E Q q T H nx x \<Longrightarrow> strong q (TEntry t) = refs E Q H t"
  and core_live: "core E Q q T H nx x \<Longrightarrow> t \<in> dom T \<longleftrightarrow> 0 < strong q (TEntry t)"
  and core_finite: "core E Q q T H nx x \<Longrightarrow> finite (dom H)"
  and core_priority: "core E Q q T H nx x \<Longrightarrow> Q (QHead y (runq_name p)) = Some ts \<Longrightarrow>
        TEntry t \<in> set ts \<Longrightarrow> T t = Some k \<Longrightarrow> t_priority k = p"
  and core_borrowed: "core E Q q T H nx x \<Longrightarrow> T t = Some k \<Longrightarrow> t_borrowed k \<Longrightarrow> 0 < E t"
  and core_fresh: "core E Q q T H nx x \<Longrightarrow> i \<in> dom T \<union> dom H \<Longrightarrow> 0 < i \<and> i < nx"
  unfolding core_def by blast+

lemma core_pos: "core E Q q T H nx x \<Longrightarrow> 0 < nx"
  by (simp add: core_def)

lemma coreI:
  assumes "repr q Q"
    and "\<And>a. a \<in> dom Q \<Longrightarrow> \<exists>y n. a = QHead y n \<and> y < nx"
    and "\<And>n. QHead x n \<in> dom Q"
    and "dom (links q) = dom Q \<union> TEntry ` dom T"
    and "\<And>t. strong q (TEntry t) = refs E Q H t"
    and "\<And>t. t \<in> dom T \<longleftrightarrow> 0 < strong q (TEntry t)"
    and "finite (dom H)"
    and "\<And>y p ts t k. Q (QHead y (runq_name p)) = Some ts \<Longrightarrow> TEntry t \<in> set ts \<Longrightarrow>
        T t = Some k \<Longrightarrow> t_priority k = p"
    and "\<And>t k. T t = Some k \<Longrightarrow> t_borrowed k \<Longrightarrow> 0 < E t"
    and "\<And>i. i \<in> dom T \<union> dom H \<Longrightarrow> 0 < i \<and> i < nx"
    and "0 < nx"
  shows "core E Q q T H nx x"
  unfolding core_def using assms by blast

lemma core_entry: "core E Q q T H nx x \<Longrightarrow> TEntry t \<notin> dom Q"
  by (auto dest: core_heads)

lemma core_entry_live: "core E Q q T H nx x \<Longrightarrow> t \<in> dom T \<Longrightarrow> TEntry t \<in> dom (links q)"
  by (auto simp: core_links)

lemma core_queued_live:
  assumes "core E Q q T H nx x" "queued Q e"
  shows "\<exists>t. e = TEntry t \<and> t \<in> dom T"
proof -
  obtain h xs where "Q h = Some xs" "e \<in> set xs" using assms(2) by (rule queuedE)
  with repr_live [OF core_repr [OF assms(1)], of h xs e] repr_heads [OF core_repr [OF assms(1)], of h xs e]
  have "e \<in> dom (links q)" "e \<notin> dom Q" by auto
  with core_links [OF assms(1)] show ?thesis by auto
qed

text \<open>References in local variables.\<close>

lemma core_clone:
  assumes C: "core E Q q T H nx x" and t: "strong q (TEntry t) \<noteq> 0"
  shows "core (own t E) Q (arc_inc (TEntry t) q) T H nx x"
proof -
  let ?q = "arc_inc (TEntry t) q"
  have R: "repr ?q Q" and L: "links ?q = links q"
    using core_repr [OF C] by (simp_all add: arc_inc_def)
  have "strong ?q (TEntry s) = refs (own t E) Q H s" for s
    using core_count [OF C, of s] by (auto simp: refs_def arc_inc_def)
  moreover have "s \<in> dom T \<longleftrightarrow> 0 < strong ?q (TEntry s)" for s
    using core_live [OF C, of s] t by (auto simp: arc_inc_def)
  moreover have "0 < own t E s" if "T s = Some k" "t_borrowed k" for s k
    using core_borrowed [OF C that] by simp
  ultimately show ?thesis using R C unfolding core_def L by auto
qed

lemma core_forget:
  assumes C: "core (own t E) Q q T H nx x" and t: "1 < strong q (TEntry t)"
    and b: "\<And>k. T t = Some k \<Longrightarrow> t_borrowed k \<Longrightarrow> 0 < E t"
  shows "\<exists>q'. arc_dec (TEntry t) q = Ok q' \<and> core E Q q' T H nx x \<and> links q' = links q \<and>
    strong q' = (strong q)(TEntry t := strong q (TEntry t) - 1)"
proof -
  let ?q = "q\<lparr>strong := (strong q)(TEntry t := strong q (TEntry t) - 1)\<rparr>"
  have R: "repr ?q Q" using core_repr [OF C] by simp
  have "strong ?q (TEntry s) = refs E Q H s" for s
    using core_count [OF C, of s] t by (auto simp: refs_def)
  moreover have "s \<in> dom T \<longleftrightarrow> 0 < strong ?q (TEntry s)" for s
    using core_live [OF C, of s] t by auto
  moreover have "0 < E s" if "T s = Some k" "t_borrowed k" for s k
    using core_borrowed [OF C that] b [of k] that by (cases "s = t") auto
  moreover have "arc_dec (TEntry t) q = Ok ?q" using t by (simp add: arc_dec_def)
  ultimately show ?thesis using R C unfolding core_def by auto
qed

lemma in_set_tlD: "x \<in> set (tl xs) \<Longrightarrow> x \<in> set xs"
  by (cases xs) auto

lemma qpush_in:
  assumes "qpush h e Q h' = Some ys" "y \<in> set ys"
  shows "(y = e \<and> h' = h) \<or> (\<exists>xs. Q h' = Some xs \<and> y \<in> set xs)"
  using assms by (auto simp: qpush_def qremove_def split: if_splits)

lemma qremove_in: "qremove e Q h = Some ys \<Longrightarrow> y \<in> set ys \<Longrightarrow> \<exists>xs. Q h = Some xs \<and> y \<in> set xs"
  by (auto simp: qremove_def)

lemma qtail_in: "qtail h Q h' = Some ys \<Longrightarrow> y \<in> set ys \<Longrightarrow> \<exists>xs. Q h' = Some xs \<and> y \<in> set xs"
  by (auto simp: qtail_def split: if_splits dest: in_set_tlD)

text \<open>
  A change of the queues keeps \<open>core\<close> when the heads and the live entries stay the same,
  the counts match, no task dies, and every member of a queue was in it before or has
  the queue's priority.
\<close>

lemma core_requeue:
  assumes C: "core E Q q T H nx x"
    and R: "repr q' Q'" "dom Q' = dom Q" "dom (links q') = dom (links q)"
    and cnt: "\<And>s. strong q' (TEntry s) = refs E' Q' H s"
    and live: "\<And>s. 0 < strong q' (TEntry s) \<longleftrightarrow> 0 < strong q (TEntry s)"
    and mem: "\<And>h ys s. Q' h = Some ys \<Longrightarrow> TEntry s \<in> set ys \<Longrightarrow>
        (\<exists>xs. Q h = Some xs \<and> TEntry s \<in> set xs) \<or> (\<forall>k y p. T s = Some k \<longrightarrow> h = QHead y (runq_name p) \<longrightarrow> t_priority k = p)"
    and bor: "\<And>s k. T s = Some k \<Longrightarrow> t_borrowed k \<Longrightarrow> 0 < E' s"
  shows "core E' Q' q' T H nx x"
proof -
  have "t_priority k = p"
    if "Q' (QHead y (runq_name p)) = Some ts" "TEntry s \<in> set ts" "T s = Some k" for y p ts s k
    using mem [OF that(1,2)] core_priority [OF C _ _ that(3)] that(3) by blast
  moreover have "s \<in> dom T \<longleftrightarrow> 0 < strong q' (TEntry s)" for s
    using core_live [OF C, of s] live [of s] by simp
  ultimately show ?thesis using C R cnt bor unfolding core_def by simp
qed

lemma core_push:
  assumes C: "core (own t E) Q q T H nx x" and h: "h \<in> dom Q" and t: "T t = Some k"
    and prio: "\<And>y p. h = QHead y (runq_name p) \<Longrightarrow> t_priority k = p"
    and bor: "t_borrowed k \<Longrightarrow> 0 < E t"
  obtains q' where "push h (TEntry t) q = Ok q'" "core E (qpush h (TEntry t) Q) q' T H nx x"
    "dom (links q') = dom (links q)"
proof -
  have cnt: "strong q (TEntry t) = Suc (refs E Q H t)"
    using core_count [OF C, of t] by (simp add: refs_def)
  obtain q' where q': "push h (TEntry t) q = Ok q'" "repr q' (qpush h (TEntry t) Q)"
    "dom (links q') = dom (links q)"
    "strong q' = (if queued Q (TEntry t) then (strong q)(TEntry t := strong q (TEntry t) - 1) else strong q)"
    using push_repr [OF core_repr [OF C] h core_entry_live [OF C] core_entry [OF C]] t cnt
    by (metis domI zero_less_Suc)
  have "strong q' (TEntry s) = refs E (qpush h (TEntry t) Q) H s" for s
    using core_count [OF C, of s] h by (auto simp: q'(4) refs_def)
  moreover have "0 < strong q' (TEntry s) \<longleftrightarrow> 0 < strong q (TEntry s)" for s
    using cnt by (auto simp: q'(4) refs_def)
  moreover have "0 < E s" if "T s = Some k'" "t_borrowed k'" for s k'
    using core_borrowed [OF C that] bor that t by (cases "s = t") auto
  moreover have "(\<exists>xs. Q a = Some xs \<and> TEntry s \<in> set xs) \<or>
      (\<forall>k y p. T s = Some k \<longrightarrow> a = QHead y (runq_name p) \<longrightarrow> t_priority k = p)"
    if "qpush h (TEntry t) Q a = Some ys" "TEntry s \<in> set ys" for a ys s
    using qpush_in [OF that] prio t by auto
  ultimately have "core E (qpush h (TEntry t) Q) q' T H nx x"
    using q' h by (intro core_requeue [OF C]) simp_all
  with q' show ?thesis by (intro that [of q']) simp_all
qed

lemma core_pop:
  assumes C: "core E Q q T H nx x" and h: "Q h = Some (e # es)"
  obtains t q' where "e = TEntry t" "t \<in> dom T" "pop h q = Ok (Some (TEntry t), q')"
    "core (own t E) (qtail h Q) q' T H nx x" "\<not> queued (qtail h Q) (TEntry t)"
proof -
  have "queued Q e" using h by (auto intro: queuedI)
  then obtain t where t: "e = TEntry t" "t \<in> dom T"
    using core_queued_live [OF C] by blast
  obtain q' where q': "pop h q = Ok (Some e, q')" "repr q' (qtail h Q)" "strong q' = strong q"
    "dom (links q') = dom (links q)"
    using pop_repr [OF core_repr [OF C] h] .
  have out: "queued (qtail h Q) s \<longleftrightarrow> queued Q s \<and> s \<noteq> e" for s
  proof -
    have "e \<notin> set es" using repr_distinct [OF core_repr [OF C] h] by simp
    moreover have "h' = h" if "Q h' = Some xs" "e \<in> set xs" for h' xs
      using repr_disjoint [OF core_repr [OF C] h that(1)] that(2) by auto
    moreover have "queued (qtail h Q) s \<longleftrightarrow> queued (Q(h \<mapsto> es)) s" using h by (simp add: qtail_def)
    ultimately show ?thesis
      using queued_split [of Q h "e # es" s, OF h] by (auto simp: queued_upd)
  qed
  have "strong q' (TEntry s) = refs (own t E) (qtail h Q) H s" for s
    using core_count [OF C, of s] \<open>queued Q e\<close> t by (auto simp: q'(3) refs_def out)
  moreover have "0 < own t E s" if "T s = Some k" "t_borrowed k" for s k
    using core_borrowed [OF C that] by simp
  ultimately have "core (own t E) (qtail h Q) q' T H nx x"
    using q' by (intro core_requeue [OF C]) (auto dest: qtail_in)
  with q' t out show ?thesis by (intro that [of t q']) auto
qed

lemma core_release:
  assumes C: "core (own t E) Q q T H nx x" and t: "t \<in> dom T"
    and other: "0 < card {h. H h = Some t} + E t"
    and bor: "\<And>k. T t = Some k \<Longrightarrow> t_borrowed k \<Longrightarrow> 0 < E t"
  obtains q' where "release (TEntry t) q = Ok q'" "core E (qremove (TEntry t) Q) q' T H nx x"
proof -
  have cnt: "strong q (TEntry t) = Suc (refs E Q H t)"
    using core_count [OF C, of t] by (simp add: refs_def)
  then have "(if queued Q (TEntry t) then 2 else 1) \<le> strong q (TEntry t)"
    by (simp add: refs_def)
  then obtain q' where q': "release (TEntry t) q = Ok q'" "repr q' (qremove (TEntry t) Q)"
    "dom (links q') = dom (links q)"
    "strong q' = (strong q)(TEntry t := strong q (TEntry t) - (if queued Q (TEntry t) then 2 else 1))"
    using release_repr [OF core_repr [OF C] core_entry_live [OF C t] core_entry [OF C]] by metis
  have "strong q' (TEntry s) = refs E (qremove (TEntry t) Q) H s" for s
    using core_count [OF C, of s] by (auto simp: q'(4) refs_def)
  moreover have "0 < strong q' (TEntry s) \<longleftrightarrow> 0 < strong q (TEntry s)" for s
    using cnt other by (auto simp: q'(4) refs_def)
  moreover have "0 < E s" if "T s = Some k" "t_borrowed k" for s k
    using core_borrowed [OF C that] bor [of k] that by (cases "s = t") auto
  ultimately have "core E (qremove (TEntry t) Q) q' T H nx x"
    using q' by (intro core_requeue [OF C]) (auto dest: qremove_in)
  with q' show ?thesis by (intro that [of q']) simp_all
qed

text \<open>Handles turn into references of local variables and back.\<close>

lemma core_handle_add:
  assumes C: "core (own t E) Q q T H nx x" and h: "H h = None" "0 < h" "h < nx"
    and bor: "\<And>k. T t = Some k \<Longrightarrow> t_borrowed k \<Longrightarrow> 0 < E t"
  shows "core E Q q T (H(h \<mapsto> t)) nx x"
proof -
  have fin: "finite {a. H a = Some s}" for s
    by (rule finite_subset [OF _ core_finite [OF C]]) auto
  have "{a. (H(h \<mapsto> t)) a = Some s} = (if s = t then insert h {a. H a = Some s} else {a. H a = Some s})" for s
    using h by auto
  then have "card {a. (H(h \<mapsto> t)) a = Some s} = card {a. H a = Some s} + of_bool (s = t)" for s
    using h fin by simp
  then have "strong q (TEntry s) = refs E Q (H(h \<mapsto> t)) s" for s
    using core_count [OF C, of s] by (auto simp: refs_def)
  moreover have "0 < E s" if "T s = Some k" "t_borrowed k" for s k
    using core_borrowed [OF C that] bor that by (cases "s = t") auto
  ultimately show ?thesis using C h unfolding core_def by auto
qed

lemma core_handle_remove:
  assumes C: "core E Q q T H nx x" and h: "H h = Some t"
  shows "core (own t E) Q q T (H(h := None)) nx x"
proof -
  have fin: "finite {a. H a = Some s}" for s
    by (rule finite_subset [OF _ core_finite [OF C]]) auto
  have "{a. (H(h := None)) a = Some s} = (if s = t then {a. H a = Some s} - {h} else {a. H a = Some s})" for s
    using h by auto
  moreover have "0 < card {a. H a = Some t}"
    using h fin [of t] card_gt_0_iff by fastforce
  ultimately have "card {a. (H(h := None)) a = Some s} + of_bool (s = t) = card {a. H a = Some s}" for s
    using h fin by (auto simp: card_Diff_singleton_if)
  then have "strong q (TEntry s) = refs (own t E) Q (H(h := None)) s" for s
    using core_count [OF C, of s] by (simp add: refs_def)
  moreover have "0 < own t E s" if "T s = Some k" "t_borrowed k" for s k
    using core_borrowed [OF C that] by simp
  ultimately show ?thesis using C unfolding core_def by auto
qed

lemma core_handle_live:
  assumes C: "core E Q q T H nx x" and h: "H h = Some t"
  shows "t \<in> dom T" "0 < strong q (TEntry t)" "0 < card {a. H a = Some t}"
proof -
  have "finite {a. H a = Some t}"
    by (rule finite_subset [OF _ core_finite [OF C]]) auto
  with h show c: "0 < card {a. H a = Some t}" using card_gt_0_iff by fastforce
  then show "0 < strong q (TEntry t)" using core_count [OF C, of t] by (simp add: refs_def)
  then show "t \<in> dom T" using core_live [OF C, of t] by simp
qed

text \<open>Changes of the task table.\<close>

lemma core_put_task:
  assumes C: "core E Q q T H nx x" and t: "T t = Some k" "t_priority k' = t_priority k"
    and bor: "t_borrowed k' \<Longrightarrow> 0 < E t"
  shows "core E Q q (T(t \<mapsto> k')) H nx x"
proof -
  have D: "dom (T(t \<mapsto> k')) = dom T" using t by auto
  have prio: "t_priority k'' = p"
    if "Q (QHead y (runq_name p)) = Some ts" "TEntry s \<in> set ts" "(T(t \<mapsto> k')) s = Some k''" for y p ts s k''
    using core_priority [OF C that(1,2)] that(3) t by (auto split: if_splits)
  have bor: "0 < E s" if "(T(t \<mapsto> k')) s = Some k''" "t_borrowed k''" for s k''
    using that bor core_borrowed [OF C] by (auto split: if_splits)
  show ?thesis
    by (rule coreI, unfold D) (fact core_repr [OF C] core_heads [OF C] core_head [OF C] core_links [OF C]
      core_count [OF C] core_live [OF C] core_finite [OF C] prio bor core_fresh [OF C] core_pos [OF C])+
qed

lemma core_next: "core E Q q T H nx x \<Longrightarrow> nx \<le> nx' \<Longrightarrow> core E Q q T H nx' x"
  unfolding core_def by (intro conjI) (blast intro: less_le_trans | simp)+

lemma core_alloc_task:
  assumes C: "core E Q q T H nx x" and t: "nx \<le> t" "t < nx'" and k: "\<not> t_borrowed k"
  shows "core (own t E) Q (entry_alloc (TEntry t) q) (T(t \<mapsto> k)) H nx' x"
proof -
  have T: "T t = None" "0 < t" using core_fresh [OF C, of t] t C by (auto simp: core_def)
  then have L: "links q (TEntry t) = None"
    using core_links [OF C] core_entry [OF C, of t] by (auto simp: domIff)
  have R: "repr (entry_alloc (TEntry t) q) Q" using alloc_repr [OF core_repr [OF C] L] .
  have z: "strong q (TEntry t) = 0" using core_live [OF C, of t] T by auto
  have cnt: "strong (entry_alloc (TEntry t) q) (TEntry s) = refs (own t E) Q H s" for s
    using core_count [OF C, of s] z by (auto simp: entry_alloc_def refs_def)
  have live: "s \<in> dom (T(t \<mapsto> k)) \<longleftrightarrow> 0 < strong (entry_alloc (TEntry t) q) (TEntry s)" for s
    using core_live [OF C, of s] by (auto simp: entry_alloc_def)
  have lnk: "dom (links (entry_alloc (TEntry t) q)) = dom Q \<union> TEntry ` dom (T(t \<mapsto> k))"
    using core_links [OF C] by (auto simp: entry_alloc_def)
  have prio: "t_priority k'' = p"
    if "Q (QHead y (runq_name p)) = Some ts" "TEntry s \<in> set ts" "(T(t \<mapsto> k)) s = Some k''" for y p ts s k''
  proof -
    have "s \<in> dom T" using core_queued_live [OF C queuedI [of Q, OF that(1) that(2)]] by auto
    with that T(1) have "T s = Some k''" by (auto split: if_splits)
    with core_priority [OF C that(1,2)] show ?thesis by simp
  qed
  have bor: "0 < own t E s" if "(T(t \<mapsto> k)) s = Some k''" "t_borrowed k''" for s k''
    using that k core_borrowed [OF C] by (auto split: if_splits)
  have C': "core E Q q T H nx' x" by (rule core_next [OF C]) (use t in simp)
  have fresh: "0 < i \<and> i < nx'" if "i \<in> dom (T(t \<mapsto> k)) \<union> dom H" for i
    using that core_fresh [OF C', of i] T t by (auto split: if_splits)
  show ?thesis
    by (rule coreI) (fact R core_heads [OF C'] core_head [OF C'] lnk cnt live core_finite [OF C']
      prio bor fresh core_pos [OF C'])+
qed

text \<open>The last reference: the task's allocation is freed.\<close>

lemma core_free_task:
  assumes C: "core (own t E) Q q T H nx x" and last: "strong q (TEntry t) = 1" and Et: "E t = 0"
  shows "\<exists>q'. arc_dec (TEntry t) q = Ok q' \<and> strong q' (TEntry t) = 0 \<and>
    core E Q (entry_free (TEntry t) q') (T(t := None)) H nx x"
proof -
  let ?q = "q\<lparr>strong := (strong q)(TEntry t := 0)\<rparr>"
  have r: "card {a. H a = Some t} = 0" "\<not> queued Q (TEntry t)"
    using core_count [OF C, of t] last by (auto simp: refs_def split: if_splits)
  have R: "repr (entry_free (TEntry t) ?q) Q"
    by (rule free_repr) (use core_repr [OF C] r core_entry [OF C, of t] in auto)
  have cnt: "strong (entry_free (TEntry t) ?q) (TEntry s) = refs E Q H s" for s
    using core_count [OF C, of s] r Et by (auto simp: refs_def entry_free_def)
  have live: "s \<in> dom (T(t := None)) \<longleftrightarrow> 0 < strong (entry_free (TEntry t) ?q) (TEntry s)" for s
    using core_live [OF C, of s] by (auto simp: entry_free_def)
  have lnk: "dom (links (entry_free (TEntry t) ?q)) = dom Q \<union> TEntry ` dom (T(t := None))"
    using core_links [OF C] core_entry [OF C, of t] by (auto simp: entry_free_def)
  have bor: "0 < E s" if "(T(t := None)) s = Some k''" "t_borrowed k''" for s k''
    using that core_borrowed [OF C, of s k''] by (auto split: if_splits)
  have prio: "t_priority k'' = p"
    if "Q (QHead y (runq_name p)) = Some ts" "TEntry s \<in> set ts" "(T(t := None)) s = Some k''" for y p ts s k''
    using core_priority [OF C that(1,2)] that(3) by (auto split: if_splits)
  have fresh: "0 < i \<and> i < nx" if "i \<in> dom (T(t := None)) \<union> dom H" for i
    using that core_fresh [OF C, of i] by (auto split: if_splits)
  have "core E Q (entry_free (TEntry t) ?q) (T(t := None)) H nx x"
    by (rule coreI) (fact R core_heads [OF C] core_head [OF C] lnk cnt live core_finite [OF C]
      prio bor fresh core_pos [OF C])+
  with last show ?thesis by (intro exI [of _ ?q]) (simp add: arc_dec_def)
qed

section \<open>Operations on the world\<close>

lemma runq_head: "runq p w = QHead (x_id (w_exec w)) (runq_name p)"
  by (cases p) (simp_all add: runq_def head_of_def)

lemma runq_name_inj: "runq_name p = runq_name p' \<Longrightarrow> p = p'"
  by (cases p; cases p') simp_all

lemma wfqD: "wfq E Q w \<Longrightarrow> core E Q (w_queue w) (w_tasks w) (w_handles w) (w_next w) (x_id (w_exec w))"
  by (simp add: wfq_def)

lemma wfq_head: "wfq E Q w \<Longrightarrow> head_of n w \<in> dom Q" "wfq E Q w \<Longrightarrow> runq p w \<in> dom Q"
  unfolding head_of_def runq_head by (rule core_head [OF wfqD], assumption)+

lemma wfq_live: "wfq E Q w \<Longrightarrow> 0 < strong (w_queue w) (TEntry t) \<longleftrightarrow> (\<exists>k. w_tasks w t = Some k)"
  using core_live [OF wfqD, of E Q w t] by (simp add: domIff)

lemma wfq_count: "wfq E Q w \<Longrightarrow> strong (w_queue w) (TEntry t) = refs E Q (w_handles w) t"
  by (rule core_count [OF wfqD])

lemma wfq_borrowed: "wfq E Q w \<Longrightarrow> w_tasks w t = Some k \<Longrightarrow> t_borrowed k \<Longrightarrow> 0 < E t"
  by (rule core_borrowed [OF wfqD])

text \<open>Fields that \<open>wfq\<close> does not read.\<close>

lemma wfq_frame [simp]:
  "wfq E Q (w\<lparr>w_kernel := k\<rparr>) = wfq E Q w"
  "wfq E Q (w\<lparr>w_ews := e\<rparr>) = wfq E Q w"
  "wfq E Q (w\<lparr>w_fds := f\<rparr>) = wfq E Q w"
  "wfq E Q (w\<lparr>w_foreign := i\<rparr>) = wfq E Q w"
  "wfq E Q (w\<lparr>w_kernel := k, w_exec := w_exec w\<lparr>x_events := v\<rparr>\<rparr>) = wfq E Q w"
  "wfq E Q (w\<lparr>w_exec := w_exec w\<lparr>x_events := v\<rparr>\<rparr>) = wfq E Q w"
  "wfq E Q (w\<lparr>w_exec := w_exec w\<lparr>x_shutdown := b\<rparr>\<rparr>) = wfq E Q w"
  by (simp_all add: wfq_def)

lemma wf_frame [simp]:
  "wfw E G (w\<lparr>w_kernel := k\<rparr>) = wfw E G w"
  "wfw E G (w\<lparr>w_ews := e\<rparr>) = wfw E G w"
  "wfw E G (w\<lparr>w_fds := f\<rparr>) = wfw E G w"
  "wfw E G (w\<lparr>w_foreign := i\<rparr>) = wfw E G w"
  "wfw E G (w\<lparr>w_kernel := k, w_exec := w_exec w\<lparr>x_events := v\<rparr>\<rparr>) = wfw E G w"
  "wfw E G (w\<lparr>w_exec := w_exec w\<lparr>x_events := v\<rparr>\<rparr>) = wfw E G w"
  "wfw E G (w\<lparr>w_exec := w_exec w\<lparr>x_shutdown := b\<rparr>\<rparr>) = wfw E G w"
  by (simp_all add: wfw_def)

lemma get_task_Ok: "w_tasks w t = Some k \<Longrightarrow> get_task t w = Ok k"
  by (simp add: get_task_def)

lemma clone_wfq:
  "wfq E Q w \<Longrightarrow> 0 < strong (w_queue w) (TEntry t) \<Longrightarrow> wfq (own t E) Q (arc_clone t w)"
  using core_clone [OF wfqD, of E Q w t] by (simp add: wfq_def arc_clone_def)

lemma enqueue_wfq:
  assumes W: "wfq (own t E) Q w" and k: "w_tasks w t = Some k"
    and last: "t_has_completed k \<Longrightarrow> 1 < strong (w_queue w) (TEntry t)"
    and bor: "t_borrowed k \<Longrightarrow> 0 < E t"
  obtains q' where "enqueue t w = Ok (w\<lparr>w_queue := q'\<rparr>)"
    "wfq E (if t_has_completed k then Q else qpush (runq (t_priority k) w) (TEntry t) Q) (w\<lparr>w_queue := q'\<rparr>)"
proof (cases "t_has_completed k")
  case True
  obtain q' where "arc_dec (TEntry t) (w_queue w) = Ok q'"
      "core E Q q' (w_tasks w) (w_handles w) (w_next w) (x_id (w_exec w))"
    using core_forget [OF wfqD [OF W] last [OF True]] bor k by auto
  with True k show ?thesis
    by (intro that [of q']) (simp_all add: enqueue_def get_task_Ok arc_forget_def with_queue_def wfq_def)
next
  case False
  have prio: "t_priority k = p" if "runq (t_priority k) w = QHead y (runq_name p)" for y p
    using that by (auto simp: runq_head dest: runq_name_inj)
  obtain q' where "push (runq (t_priority k) w) (TEntry t) (w_queue w) = Ok q'"
      "core E (qpush (runq (t_priority k) w) (TEntry t) Q) q' (w_tasks w) (w_handles w) (w_next w) (x_id (w_exec w))"
    by (rule core_push [OF wfqD [OF W] wfq_head(2) [OF W, of "t_priority k"] k])
       (erule prio, erule bor, assumption)
  with False k show ?thesis
    by (intro that [of q']) (simp_all add: enqueue_def get_task_Ok with_queue_def wfq_def)
qed

lemma sleep_wfq:
  assumes W: "wfq (own t E) Q w" and k: "w_tasks w t = Some k" and bor: "t_borrowed k \<Longrightarrow> 0 < E t"
  obtains q' where "sleep_task t w = Ok (w\<lparr>w_queue := q'\<rparr>)"
    "wfq E (qpush (head_of Sleepq w) (TEntry t) Q) (w\<lparr>w_queue := q'\<rparr>)"
proof -
  have prio: "t_priority k = p" if "head_of Sleepq w = QHead y (runq_name p)" for y p
    using that by (cases p) (auto simp: head_of_def)
  obtain q' where "push (head_of Sleepq w) (TEntry t) (w_queue w) = Ok q'"
      "core E (qpush (head_of Sleepq w) (TEntry t) Q) q' (w_tasks w) (w_handles w) (w_next w) (x_id (w_exec w))"
    by (rule core_push [OF wfqD [OF W] wfq_head(1) [OF W, of Sleepq] k])
       (erule prio, erule bor, assumption)
  then show ?thesis by (intro that [of q']) (simp_all add: sleep_task_def with_queue_def wfq_def)
qed

lemma abort_wfq:
  assumes W: "wfq E Q w" and h: "w_handles w h = Some t"
  obtains q' where "abort_task t (arc_clone t w) = Ok (w\<lparr>w_queue := q'\<rparr>)"
    "wfq E (qremove (TEntry t) Q) (w\<lparr>w_queue := q'\<rparr>)"
proof -
  note live = core_handle_live [OF wfqD [OF W] h]
  have W1: "wfq (own t E) Q (arc_clone t w)" using clone_wfq [OF W live(2)] .
  obtain q' where "release (TEntry t) (w_queue (arc_clone t w)) = Ok q'"
      "core E (qremove (TEntry t) Q) q' (w_tasks w) (w_handles w) (w_next w) (x_id (w_exec w))"
    using core_release [OF wfqD [OF W1]] live wfq_borrowed [OF W] by (auto simp: arc_clone_def)
  then show ?thesis
    by (intro that [of q']) (simp_all add: abort_task_def with_queue_def wfq_def arc_clone_def)
qed

text \<open>
  The abstract order in which the run queues are served: \<open>runnable Q w\<close> lists all
  runnable entries, high before normal before low priority and oldest first.
\<close>

definition members :: "ptr queues \<Rightarrow> ptr \<Rightarrow> ptr list" where
  "members Q h = (case Q h of None \<Rightarrow> [] | Some xs \<Rightarrow> xs)"

definition runnable :: "ptr queues \<Rightarrow> ('k, 't, 'v) world \<Rightarrow> ptr list" where
  "runnable Q w = members Q (runq High w) @ members Q (runq Normal w) @ members Q (runq Low w)"

lemma members_Some: "Q h = Some xs \<Longrightarrow> members Q h = xs"
  by (simp add: members_def)

lemma wfq_lists:
  assumes "wfq E Q w"
  obtains hs ns ls where "Q (head_of RunqHigh w) = Some hs" "Q (head_of RunqNormal w) = Some ns"
    "Q (head_of RunqLow w) = Some ls" "runnable Q w = hs @ ns @ ls"
proof -
  obtain hs ns ls where "Q (head_of RunqHigh w) = Some hs" "Q (head_of RunqNormal w) = Some ns"
    "Q (head_of RunqLow w) = Some ls"
    using wfq_head(1) [OF assms] by (metis domD)
  then show ?thesis
    by (intro that) (simp_all add: runnable_def runq_def members_def)
qed

lemma pop_wfq:
  assumes W: "wfq E Q w" and h: "Q h = Some (e # es)"
  obtains t q' where "e = TEntry t" "pop h (w_queue w) = Ok (Some (TEntry t), q')"
    "wfq (own t E) (qtail h Q) (w\<lparr>w_queue := q'\<rparr>)" "\<not> queued (qtail h Q) (TEntry t)"
    "w_tasks w t \<noteq> None"
proof -
  obtain t q' where "e = TEntry t" "t \<in> dom (w_tasks w)" "pop h (w_queue w) = Ok (Some (TEntry t), q')"
    "core (own t E) (qtail h Q) q' (w_tasks w) (w_handles w) (w_next w) (x_id (w_exec w))"
    "\<not> queued (qtail h Q) (TEntry t)"
    using core_pop [OF wfqD [OF W] h] .
  then show ?thesis by (intro that [of t q']) (auto simp: wfq_def)
qed

lemma highest_priority_none:
  assumes W: "wfq E Q w" and none: "runnable Q w = []"
  shows "highest_priority_runnable_task w = Ok (None, w)"
proof -
  note R = core_repr [OF wfqD [OF W]]
  obtain hs ns ls where l: "Q (head_of RunqHigh w) = Some hs" "Q (head_of RunqNormal w) = Some ns"
    "Q (head_of RunqLow w) = Some ls" "runnable Q w = hs @ ns @ ls" using wfq_lists [OF W] .
  with none show ?thesis
    using iq.pop_empty_law [OF R] by (simp add: highest_priority_runnable_task_def)
qed

lemma highest_priority_some:
  assumes W: "wfq E Q w" and some: "runnable Q w = e # es"
  obtains t q' n where "e = TEntry t" "highest_priority_runnable_task w = Ok (Some (TEntry t), w\<lparr>w_queue := q'\<rparr>)"
    "wfq (own t E) (qtail (head_of n w) Q) (w\<lparr>w_queue := q'\<rparr>)"
    "runnable (qtail (head_of n w) Q) w = es" "n \<noteq> Sleepq"
    "\<not> queued (qtail (head_of n w) Q) (TEntry t)" "w_tasks w t \<noteq> None"
    "Q (head_of n w) = Some (e # tl (members Q (head_of n w)))"
proof -
  note R = core_repr [OF wfqD [OF W]]
  obtain hs ns ls where l: "Q (head_of RunqHigh w) = Some hs" "Q (head_of RunqNormal w) = Some ns"
    "Q (head_of RunqLow w) = Some ls" "runnable Q w = hs @ ns @ ls" using wfq_lists [OF W] .
  define n where "n = (if hs \<noteq> [] then RunqHigh else if ns \<noteq> [] then RunqNormal else RunqLow)"
  have pop: "highest_priority_runnable_task w = bind_res (pop (head_of n w) (w_queue w)) (\<lambda>(r, q). Ok (r, w\<lparr>w_queue := q\<rparr>))"
    by (simp add: highest_priority_runnable_task_def n_def iq.pop_or_else [OF R l(1)]
        iq.pop_or_else [OF R l(2)] split: list.splits)
  define zs where "zs = members Q (head_of n w)"
  have "zs = e # tl zs" "Q (head_of n w) = Some zs" "n \<noteq> Sleepq"
    using l some by (auto simp: zs_def n_def members_def neq_Nil_conv Cons_eq_append_conv split: if_splits)
  then have n: "Q (head_of n w) = Some (e # tl zs)" "n \<noteq> Sleepq" by auto
  obtain t q' where t: "e = TEntry t" "pop (head_of n w) (w_queue w) = Ok (Some (TEntry t), q')"
    "wfq (own t E) (qtail (head_of n w) Q) (w\<lparr>w_queue := q'\<rparr>)" "\<not> queued (qtail (head_of n w) Q) (TEntry t)"
    "w_tasks w t \<noteq> None"
    using pop_wfq [OF W n(1)] .
  have "runnable (qtail (head_of n w) Q) w = es"
    using l some by (auto simp: runnable_def runq_def members_def qtail_def n_def head_of_def
        append_eq_Cons_conv split: if_splits)
  with t n pop show ?thesis by (intro that [of t q' n]) (simp_all add: zs_def)
qed

section \<open>The kernel's promises about epoll\<close>

text \<open>
  \<open>reg k ep fd\<close> is the data registered for \<open>fd\<close> in the epoll instance \<open>ep\<close>. The documented
  behaviour the crate relies on (epoll_ctl(2), epoll_wait(2)): a successful add registers
  its data and a failed one changes nothing; after a delete nothing is registered for the
  descriptor; a wait reports data that is registered, and at most as many events as it is
  given room for; a new epoll instance is empty, and its descriptor is not in use;
  closing a descriptor registers nothing, and no other call does (one that closes a
  descriptor may remove a registration).
\<close>

type_synonym 'k registrations = "'k \<Rightarrow> raw_fd \<Rightarrow> raw_fd \<rightharpoonup> nat"

definition kernel_ok :: "'k registrations \<Rightarrow> 'k kernel \<Rightarrow> bool" where
  "kernel_ok reg S \<longleftrightarrow>
     (\<forall>k. reg (snd (sys_pipe2 S k)) = reg k) \<and>
     (\<forall>k ep k'. sys_epoll_create S k = (Inr ep, k') \<longrightarrow>
        reg k' = (reg k)(ep := Map.empty)) \<and>
     (\<forall>k e k'. sys_epoll_create S k = (Inl e, k') \<longrightarrow> reg k' = reg k) \<and>
     (\<forall>ep fd ev k u k'. sys_epoll_add S ep fd ev k = (Inr u, k') \<longrightarrow>
        reg k' = (reg k)(ep := (reg k ep)(fd \<mapsto> ev_data ev))) \<and>
     (\<forall>ep fd ev k e k'. sys_epoll_add S ep fd ev k = (Inl e, k') \<longrightarrow> reg k' = reg k) \<and>
     (\<forall>ep fd k. reg (snd (sys_epoll_del S ep fd k)) = (reg k)(ep := (reg k ep)(fd := None))) \<and>
     (\<forall>ep n to k. reg (snd (sys_epoll_wait S ep n to k)) = reg k) \<and>
     (\<forall>ep n to k es k'. sys_epoll_wait S ep n to k = (WaitEvents es, k') \<longrightarrow>
        length es \<le> n \<and> (\<forall>e \<in> set es. ev_data e \<in> ran (reg k ep))) \<and>
     (\<forall>fd k. reg (snd (sys_read_ptr S fd k)) = reg k) \<and>
     (\<forall>fd p k. reg (snd (sys_write_ptr S fd p k)) = reg k) \<and>
     (\<forall>fd k ep. reg (sys_close S fd k) ep \<subseteq>\<^sub>m reg k ep) \<and>
     (\<forall>fd k. reg (snd (sys_getfl S fd k)) = reg k) \<and>
     (\<forall>fd f k. reg (snd (sys_setfl S fd f k)) = reg k) \<and>
     (\<forall>n k ep. reg (snd (sys_other S n k)) ep \<subseteq>\<^sub>m reg k ep)"

lemmas kernel_ok_conj = kernel_ok_def [THEN iffD1]

lemmas kernel_ok_pipe2 = kernel_ok_conj [THEN conjunct1, rule_format]
  and kernel_ok_create = kernel_ok_conj [THEN conjunct2, THEN conjunct1, rule_format]
  and kernel_ok_create_err = kernel_ok_conj [THEN conjunct2, THEN conjunct2, THEN conjunct1, rule_format]
  and kernel_ok_add = kernel_ok_conj [THEN conjunct2, THEN conjunct2, THEN conjunct2, THEN conjunct1, rule_format]
  and kernel_ok_add_err = kernel_ok_conj [THEN conjunct2, THEN conjunct2, THEN conjunct2, THEN conjunct2, THEN conjunct1, rule_format]
  and kernel_ok_del = kernel_ok_conj [THEN conjunct2, THEN conjunct2, THEN conjunct2, THEN conjunct2, THEN conjunct2, THEN conjunct1, rule_format]
  and kernel_ok_wait = kernel_ok_conj [THEN conjunct2, THEN conjunct2, THEN conjunct2, THEN conjunct2, THEN conjunct2, THEN conjunct2, THEN conjunct1, rule_format]
  and kernel_ok_events = kernel_ok_conj [THEN conjunct2, THEN conjunct2, THEN conjunct2, THEN conjunct2, THEN conjunct2, THEN conjunct2, THEN conjunct2, THEN conjunct1, rule_format]
  and kernel_ok_read = kernel_ok_conj [THEN conjunct2, THEN conjunct2, THEN conjunct2, THEN conjunct2, THEN conjunct2, THEN conjunct2, THEN conjunct2, THEN conjunct2, THEN conjunct1, rule_format]
  and kernel_ok_write = kernel_ok_conj [THEN conjunct2, THEN conjunct2, THEN conjunct2, THEN conjunct2, THEN conjunct2, THEN conjunct2, THEN conjunct2, THEN conjunct2, THEN conjunct2, THEN conjunct1, rule_format]
  and kernel_ok_close = kernel_ok_conj [THEN conjunct2, THEN conjunct2, THEN conjunct2, THEN conjunct2, THEN conjunct2, THEN conjunct2, THEN conjunct2, THEN conjunct2, THEN conjunct2, THEN conjunct2, THEN conjunct1, rule_format]
  and kernel_ok_getfl = kernel_ok_conj [THEN conjunct2, THEN conjunct2, THEN conjunct2, THEN conjunct2, THEN conjunct2, THEN conjunct2, THEN conjunct2, THEN conjunct2, THEN conjunct2, THEN conjunct2, THEN conjunct2, THEN conjunct1, rule_format]
  and kernel_ok_setfl = kernel_ok_conj [THEN conjunct2, THEN conjunct2, THEN conjunct2, THEN conjunct2, THEN conjunct2, THEN conjunct2, THEN conjunct2, THEN conjunct2, THEN conjunct2, THEN conjunct2, THEN conjunct2, THEN conjunct2, THEN conjunct1, rule_format]
  and kernel_ok_other = kernel_ok_conj [THEN conjunct2, THEN conjunct2, THEN conjunct2, THEN conjunct2, THEN conjunct2, THEN conjunct2, THEN conjunct2, THEN conjunct2, THEN conjunct2, THEN conjunct2, THEN conjunct2, THEN conjunct2, THEN conjunct2, rule_format]

text \<open>
  \<open>epoll_ok R A F nx\<close>: every registration in \<open>R\<close> that is not the pipe's belongs to an \<open>Fd\<close> in
  \<open>F\<close>; every \<open>Fd\<close> has its own live epoll waker in \<open>A\<close>; addresses are below \<open>nx\<close>.
\<close>

definition epoll_ok :: "(raw_fd \<rightharpoonup> nat) \<Rightarrow> (nat \<rightharpoonup> epoll_waker) \<Rightarrow> (nat \<rightharpoonup> fd_object) \<Rightarrow> nat \<Rightarrow> bool" where
  "epoll_ok R A F nx \<longleftrightarrow>
     (\<forall>fd d. R fd = Some d \<longrightarrow> d \<noteq> 0 \<longrightarrow> (\<exists>i. F i = Some \<lparr>fd_inner = fd, fd_ew = d\<rparr>)) \<and>
     (\<forall>i f. F i = Some f \<longrightarrow> A (fd_ew f) \<noteq> None) \<and>
     (\<forall>i j f g. F i = Some f \<longrightarrow> F j = Some g \<longrightarrow> fd_ew f = fd_ew g \<longrightarrow> i = j) \<and>
     (\<forall>i. i \<in> dom A \<union> dom F \<longrightarrow> 0 < i \<and> i < nx)"

lemma epoll_okI:
  assumes "\<And>fd d. R fd = Some d \<Longrightarrow> d \<noteq> 0 \<Longrightarrow> \<exists>i. F i = Some \<lparr>fd_inner = fd, fd_ew = d\<rparr>"
    and "\<And>i f. F i = Some f \<Longrightarrow> A (fd_ew f) \<noteq> None"
    and "\<And>i j f g. F i = Some f \<Longrightarrow> F j = Some g \<Longrightarrow> fd_ew f = fd_ew g \<Longrightarrow> i = j"
    and "\<And>i. i \<in> dom A \<Longrightarrow> 0 < i \<and> i < nx" and "\<And>i. i \<in> dom F \<Longrightarrow> 0 < i \<and> i < nx"
  shows "epoll_ok R A F nx"
  unfolding epoll_ok_def using assms by blast

lemma epoll_ok_reg: "epoll_ok R A F nx \<Longrightarrow> R fd = Some d \<Longrightarrow> d \<noteq> 0 \<Longrightarrow> \<exists>i. F i = Some \<lparr>fd_inner = fd, fd_ew = d\<rparr>"
  and epoll_ok_ew: "epoll_ok R A F nx \<Longrightarrow> F i = Some f \<Longrightarrow> \<exists>e. A (fd_ew f) = Some e"
  and epoll_ok_inj: "epoll_ok R A F nx \<Longrightarrow> F i = Some f \<Longrightarrow> F j = Some g \<Longrightarrow> fd_ew f = fd_ew g \<Longrightarrow> i = j"
  and epoll_ok_fresh: "epoll_ok R A F nx \<Longrightarrow> i \<in> dom A \<union> dom F \<Longrightarrow> 0 < i \<and> i < nx"
  unfolding epoll_ok_def by blast+

lemma epoll_ok_data:
  assumes "epoll_ok R A F nx" "d \<in> ran R" shows "d = 0 \<or> d \<in> dom A"
proof -
  obtain fd where "R fd = Some d" using assms(2) by (auto simp: ran_def)
  then have "d = 0 \<or> (\<exists>i. F i = Some \<lparr>fd_inner = fd, fd_ew = d\<rparr>)" using epoll_ok_reg [OF assms(1)] by blast
  then show ?thesis using epoll_ok_ew [OF assms(1)] by fastforce
qed

lemma epoll_ok_mono:
  assumes O: "epoll_ok R A F nx" and R: "R' \<subseteq>\<^sub>m R" and A: "dom A' = dom A" and n: "nx \<le> nx'"
  shows "epoll_ok R' A' F nx'"
proof (rule epoll_okI)
  show "\<exists>i. F i = Some \<lparr>fd_inner = fd, fd_ew = d\<rparr>" if "R' fd = Some d" "d \<noteq> 0" for fd d
    using that R epoll_ok_reg [OF O, of fd d] by (metis domI map_le_def)
  show "A' (fd_ew f) \<noteq> None" if "F i = Some f" for i f
    using epoll_ok_ew [OF O that] A by blast
  show "i = j" if "F i = Some f" "F j = Some g" "fd_ew f = fd_ew g" for i j f g
    using epoll_ok_inj [OF O that] .
  show "0 < i \<and> i < nx'" if "i \<in> dom A'" for i
    using epoll_ok_fresh [OF O, of i] that A n by auto
  show "0 < i \<and> i < nx'" if "i \<in> dom F" for i
    using epoll_ok_fresh [OF O, of i] that n by auto
qed

lemma epoll_ok_add:
  assumes O: "epoll_ok R A F nx" and n: "0 < nx"
  shows "epoll_ok (R(fd \<mapsto> nx)) (A(nx \<mapsto> e)) (F(Suc nx \<mapsto> \<lparr>fd_inner = fd, fd_ew = nx\<rparr>)) (Suc (Suc nx))"
proof (rule epoll_okI)
  have F: "F (Suc nx) = None" using epoll_ok_fresh [OF O, of "Suc nx"] by (cases "F (Suc nx)") auto
  have old: "fd_ew g \<noteq> nx" if "F j = Some g" for j g
    using epoll_ok_ew [OF O that] epoll_ok_fresh [OF O, of "fd_ew g"] by auto
  show "\<exists>i. (F(Suc nx \<mapsto> \<lparr>fd_inner = fd, fd_ew = nx\<rparr>)) i = Some \<lparr>fd_inner = a, fd_ew = d\<rparr>"
    if r: "(R(fd \<mapsto> nx)) a = Some d" "d \<noteq> 0" for a d
  proof (cases "a = fd")
    case True
    with r show ?thesis by (intro exI [of _ "Suc nx"]) simp
  next
    case False
    with r epoll_ok_reg [OF O, of a d] F show ?thesis by (metis fun_upd_other option.distinct(1))
  qed
  show "(A(nx \<mapsto> e)) (fd_ew f) \<noteq> None" if "(F(Suc nx \<mapsto> \<lparr>fd_inner = fd, fd_ew = nx\<rparr>)) i = Some f" for i f
    using that epoll_ok_ew [OF O, of i f] by (auto split: if_splits)
  show "i = j" if "(F(Suc nx \<mapsto> \<lparr>fd_inner = fd, fd_ew = nx\<rparr>)) i = Some f"
    "(F(Suc nx \<mapsto> \<lparr>fd_inner = fd, fd_ew = nx\<rparr>)) j = Some g" "fd_ew f = fd_ew g" for i j f g
    using that old epoll_ok_inj [OF O]
    by (metis fd_object.select_convs(2) fun_upd_apply option.inject)
  show "0 < i \<and> i < Suc (Suc nx)" if "i \<in> dom (A(nx \<mapsto> e))" for i
    using that epoll_ok_fresh [OF O, of i] n by (cases "i = nx") auto
  show "0 < i \<and> i < Suc (Suc nx)" if "i \<in> dom (F(Suc nx \<mapsto> \<lparr>fd_inner = fd, fd_ew = nx\<rparr>))" for i
    using that epoll_ok_fresh [OF O, of i] by (cases "i = Suc nx") auto
qed

lemma epoll_ok_drop:
  assumes O: "epoll_ok R A F nx" and f: "F i = Some f"
  shows "epoll_ok (R(fd_inner f := None)) (A(fd_ew f := None)) (F(i := None)) nx"
proof (rule epoll_okI)
  show "\<exists>j. (F(i := None)) j = Some \<lparr>fd_inner = a, fd_ew = d\<rparr>"
    if r: "(R(fd_inner f := None)) a = Some d" "d \<noteq> 0" for a d
  proof -
    have a: "a \<noteq> fd_inner f" "R a = Some d" using r by (auto split: if_splits)
    then obtain j where "F j = Some \<lparr>fd_inner = a, fd_ew = d\<rparr>" using epoll_ok_reg [OF O] r(2) by blast
    with a f show ?thesis by (intro exI [of _ j]) auto
  qed
  show "(A(fd_ew f := None)) (fd_ew g) \<noteq> None" if "(F(i := None)) j = Some g" for j g
    using that f epoll_ok_ew [OF O] epoll_ok_inj [OF O f, of j g] by (auto split: if_splits)
  show "j = l" if "(F(i := None)) j = Some g" "(F(i := None)) l = Some h" "fd_ew g = fd_ew h" for j l g h
    using that epoll_ok_inj [OF O] by (auto split: if_splits)
  show "0 < j \<and> j < nx" if "j \<in> dom (A(fd_ew f := None))" for j
    using that epoll_ok_fresh [OF O, of j] by (auto split: if_splits)
  show "0 < j \<and> j < nx" if "j \<in> dom (F(i := None))" for j
    using that epoll_ok_fresh [OF O, of j] by (auto split: if_splits)
qed

definition ewf :: "'k registrations \<Rightarrow> ('k, 't, 'v) world \<Rightarrow> bool" where
  "ewf reg w \<longleftrightarrow> epoll_ok (reg (w_kernel w) (x_epoll (w_exec w))) (w_ews w) (w_fds w) (w_next w)"

definition winv :: "'k registrations \<Rightarrow> (nat \<Rightarrow> nat) \<Rightarrow> ptr set \<times> ptr set \<Rightarrow> ('k, 't, 'v) world \<Rightarrow> bool" where
  "winv reg E G w \<longleftrightarrow> wfw E G w \<and> ewf reg w"

end
