(* ===== verification/Epox_Fd.thy ===== *)
theory Epox_Fd
  imports Epox_Executor
begin

text \<open>
  \<open>EpollWaker\<close> of \<^verbatim>\<open>src/executor.rs\<close> and \<open>Fd\<close> of \<^verbatim>\<open>src/fd.rs\<close>: a descriptor registered
  with epoll in edge-triggered mode, and the loop that runs an I/O operation on it.

  The operation passed to \<open>poll_with\<close> is a function of the readiness flags and of a state
  \<open>'s\<close>, which is the kernel state for an \<open>Fd\<close>.
\<close>

section \<open>\<open>EpollWaker\<close>\<close>

definition epoll_waker_new :: "epoll_flags \<Rightarrow> epoll_waker" where
  "epoll_waker_new events = \<lparr>ew_waker = NoopWaker, ew_events = events, ew_burst = 0\<rparr>"

datatype 'a control_flow = ControlNormal "'a poll" | ControlYield

definition BURST_LIMIT :: "64 word" where "BURST_LIMIT = 20"

text \<open>
  The loop of \<open>poll_with\<close> repeats an operation that was interrupted; it may do so for
  ever, and then its value is \<open>None\<close>.
\<close>

partial_function (option) retry_interrupted ::
  "('s \<Rightarrow> (io_error + 'a) \<times> 's) \<Rightarrow> 's \<Rightarrow> ((io_error + 'a) \<times> 's) option" where
  "retry_interrupted f s = (case f s of
     (Inl e, s') \<Rightarrow> if kind e = Interrupted then retry_interrupted f s' else Some (Inl e, s')
   | (Inr v, s') \<Rightarrow> Some (Inr v, s'))"

declare retry_interrupted.simps [code]

definition poll_with :: "(waker \<Rightarrow> waker) \<Rightarrow> (epoll_flags \<Rightarrow> 's \<Rightarrow> (io_error + 'a) \<times> 's)
    \<Rightarrow> epoll_waker \<Rightarrow> 's \<Rightarrow> ((io_error + 'a) control_flow \<times> epoll_waker \<times> 's) option" where
  "poll_with clone_from func ew s =
     (if ew_events ew = 0 then
        Some (ControlNormal Pending,
              ew\<lparr>ew_burst := 0, ew_waker := clone_from (ew_waker ew)\<rparr>, s)
      else if BURST_LIMIT \<le> ew_burst ew then
        Some (ControlYield, ew\<lparr>ew_burst := 0\<rparr>, s)
      else (case retry_interrupted (func (ew_events ew)) s of
          None \<Rightarrow> None
        | Some (Inl e, s') \<Rightarrow>
            if kind e = WouldBlock
            then Some (ControlNormal Pending,
                   ew\<lparr>ew_burst := 0, ew_waker := clone_from (ew_waker ew), ew_events := 0\<rparr>, s')
            else Some (ControlNormal (Ready (Inl e)), ew\<lparr>ew_burst := ew_burst ew + 1\<rparr>, s')
        | Some (Inr v, s') \<Rightarrow>
            Some (ControlNormal (Ready (Inr v)), ew\<lparr>ew_burst := ew_burst ew + 1\<rparr>, s')))"

section \<open>\<open>Fd\<close>\<close>

definition O_NONBLOCK :: "32 word" where "O_NONBLOCK = 2048"

text \<open>
  Dropping an \<open>Fd\<close> deregisters its descriptor, ignoring errors, and frees its
  \<open>EpollWaker\<close>. \<open>fd_release\<close> is the part shared by the error path of \<open>Fd::new\<close>, where the
  \<open>Fd\<close> is not yet owned by anyone.
\<close>

definition fd_release :: "'k kernel \<Rightarrow> raw_fd \<Rightarrow> nat \<Rightarrow> ('k, 't, 'v) world \<Rightarrow> ('k, 't, 'v) world" where
  "fd_release S fd d w =
     (let w1 = snd (epoll_del S fd w) in w1\<lparr>w_ews := (w_ews w1)(d := None)\<rparr>)"

definition fd_drop :: "'k kernel \<Rightarrow> nat \<Rightarrow> ('k, 't, 'v) world \<Rightarrow> ('k, 't, 'v) world" where
  "fd_drop S i w = (case w_fds w i of
     None \<Rightarrow> w
   | Some f \<Rightarrow>
       let w1 = fd_release S (fd_inner f) (fd_ew f) w
       in w1\<lparr>w_fds := (w_fds w1)(i := None)\<rparr>)"

definition fd_new :: "'k kernel \<Rightarrow> raw_fd \<Rightarrow> epoll_flags \<Rightarrow> ('k, 't, 'v) world
    \<Rightarrow> (io_error + nat) \<times> ('k, 't, 'v) world" where
  "fd_new S fd events w = (case sys_getfl S fd (w_kernel w) of
     (Inl e, k1) \<Rightarrow> (Inl (OsError e), w\<lparr>w_kernel := k1\<rparr>)
   | (Inr flags, k1) \<Rightarrow> (case sys_setfl S fd (flags OR O_NONBLOCK) k1 of
       (Inl e, k2) \<Rightarrow> (Inl (OsError e), w\<lparr>w_kernel := k2\<rparr>)
     | (Inr _, k2) \<Rightarrow>
         let waker_events = events AND (EPOLLIN OR EPOLLOUT);
             d = w_next w;
             w1 = w\<lparr>w_kernel := k2, w_ews := (w_ews w)(d \<mapsto> epoll_waker_new waker_events),
                    w_next := Suc (Suc d)\<rparr>
         in (case epoll_add S fd (events OR EPOLLET) d w1 of
               (Inl e, w2) \<Rightarrow> (Inl e, fd_release S fd d w2)
             | (Inr _, w2) \<Rightarrow>
                 (Inr (Suc d),
                  w2\<lparr>w_fds := (w_fds w2)(Suc d \<mapsto> \<lparr>fd_inner = fd, fd_ew = d\<rparr>)\<rparr>))))"

text \<open>
  \<open>Fd::poll_with\<close> and \<open>Fd::poll_with_mut\<close>: a yield wakes the task that polls, which puts
  it at the back of its run queue.
\<close>

definition fd_poll_with :: "'k kernel \<Rightarrow> (epoll_flags \<Rightarrow> 'k \<Rightarrow> (io_error + 'a) \<times> 'k) \<Rightarrow> fd_object
    \<Rightarrow> waker \<Rightarrow> ('k, 't, 'v) world \<Rightarrow> ((io_error + 'a) poll \<times> ('k, 't, 'v) world) res" where
  "fd_poll_with S func f wk w = (case w_ews w (fd_ew f) of
     None \<Rightarrow> Fault UB
   | Some ew \<Rightarrow> (case poll_with (waker_clone_from wk w) func ew (w_kernel w) of
       None \<Rightarrow> Fault Blocked
     | Some (ret, ew1, k1) \<Rightarrow>
         let w1 = w\<lparr>w_ews := (w_ews w)(fd_ew f \<mapsto> ew1), w_kernel := k1\<rparr>
         in (case ret of
               ControlNormal p \<Rightarrow> Ok (p, w1)
             | ControlYield \<Rightarrow> bind_res (wake_by_ref S wk w1) (\<lambda>w2. Ok (Pending, w2)))))"

end
