(* ===== verification/Epox_Scheduler.thy ===== *)
theory Epox_Scheduler
  imports Epox_Fd
begin

text \<open>
  Running tasks: user code, \<open>Handle\<close> of \<^verbatim>\<open>src/task.rs\<close>, and \<open>spawn\<close>, \<open>run_task\<close>, \<open>run\<close> and
  \<open>block_on\<close> of \<^verbatim>\<open>src/executor.rs\<close>.

  User code is a tree of calls to the crate and to the operating system (\<open>prog\<close>), which
  the interpreter runs with a semantics \<open>cs\<close> of the calls. The parameters of the model
  are the user's futures \<open>u_poll\<close>, their destructors \<open>u_drop\<close>, and which outputs are an
  \<open>Err\<close>. The calls that run other user code in turn (\<open>block_on\<close>, \<open>run\<close>, dropping a handle)
  take the semantics of the nested calls as an argument; \<open>do_call\<close> ties the knot with fuel
  that bounds the nesting and the iterations of the two scheduler loops.
\<close>

section \<open>User code\<close>

datatype 'f call =
    CSpawn "'f builder"
  | CSpawnChecked "'f builder"
  | CWake waker
  | CWakerClone waker
  | CHandleResult nat
  | CHandlePoll nat waker
  | CHandleAbort nat
  | CHandleName nat
  | CHandleDrop nat
  | CShutdown
  | CFdNew raw_fd epoll_flags
  | CFdPollWith nat waker "epoll_flags \<Rightarrow> nat"
  | CFdDrop nat
  | CSys nat
  | CBlockOn 'f
  | CRun

datatype 'v reply =
    RUnit
  | RHandle nat
  | RWaker waker
  | RResult "'v option"
  | RPoll "'v poll"
  | RName string
  | RFd "io_error + nat"
  | RFdPoll "(io_error + nat) poll"
  | RSys "io_error + nat"
  | RValue 'v
  | RRun "io_error + unit"

datatype ('r, 'f, 'v) prog =
    Ret 'r
  | Call "'f call" "'v reply \<Rightarrow> ('r, 'f, 'v) prog"
  | UserPanics

primrec bind_prog :: "('r, 'f, 'v) prog \<Rightarrow> ('r \<Rightarrow> ('s, 'f, 'v) prog) \<Rightarrow> ('s, 'f, 'v) prog" where
  "bind_prog (Ret r) g = g r"
| "bind_prog (Call c k) g = Call c (\<lambda>x. bind_prog (k x) g)"
| "bind_prog UserPanics g = UserPanics"

record ('f, 'v) user =
  u_poll :: "'f \<Rightarrow> waker \<Rightarrow> ('f \<times> 'v poll, 'f, 'v) prog"
  u_drop :: "'f \<Rightarrow> (unit, 'f, 'v) prog"
  u_is_err :: "'v \<Rightarrow> bool"

text \<open>
  The future of a task: the user's own, or the \<open>async\<close> block in which \<open>spawn_checked\<close>
  wraps it.
\<close>

datatype 'f task_future = User 'f | Checked 'f | CheckedDone

type_synonym ('k, 'f, 'v) sched = "('k, 'f task_future, 'v) world"

type_synonym ('k, 'f, 'v) calls = "'f call \<Rightarrow> ('k, 'f, 'v) sched \<Rightarrow> ('v reply \<times> ('k, 'f, 'v) sched) res"

primrec interp :: "('k, 'f, 'v) calls \<Rightarrow> ('r, 'f, 'v) prog \<Rightarrow> ('k, 'f, 'v) sched
    \<Rightarrow> ('r \<times> ('k, 'f, 'v) sched) res" where
  "interp cs (Ret r) w = Ok (r, w)"
| "interp cs (Call c k) w = bind_res (cs c w) (\<lambda>(x, w1). interp cs (k x) w1)"
| "interp cs UserPanics w = Fault (Panic UserPanic)"

section \<open>The futures of tasks\<close>

definition poll_future :: "('k, 'f, 'v) calls \<Rightarrow> ('f, 'v) user \<Rightarrow> 'f task_future \<Rightarrow> waker
    \<Rightarrow> ('k, 'f, 'v) sched \<Rightarrow> (('f task_future \<times> 'v poll) \<times> ('k, 'f, 'v) sched) res" where
  "poll_future cs u fut wk w = (case fut of
     User f \<Rightarrow> bind_res (interp cs (u_poll u f wk) w) (\<lambda>((f1, r), w1). Ok ((User f1, r), w1))
   | Checked f \<Rightarrow> bind_res (interp cs (u_poll u f wk) w) (\<lambda>((f1, r), w1). case r of
         Pending \<Rightarrow> Ok ((Checked f1, Pending), w1)
       | Ready v \<Rightarrow> bind_res (interp cs (u_drop u f1) w1) (\<lambda>(_, w2).
           Ok ((CheckedDone, Ready v), if u_is_err u v then shutdown_exec w2 else w2)))
   | CheckedDone \<Rightarrow> Fault (Panic AsyncResumed))"

definition drop_future :: "('f, 'v) user \<Rightarrow> 'f task_future \<Rightarrow> (unit, 'f, 'v) prog" where
  "drop_future u fut = (case fut of User f \<Rightarrow> u_drop u f | Checked f \<Rightarrow> u_drop u f | CheckedDone \<Rightarrow> Ret ())"

text \<open>
  Dropping a strong reference to a task. The last one destroys the task: its queue entry
  is gone, no weak reference can be upgraded any more, and its future is dropped.
\<close>

definition drop_task :: "('k, 'f, 'v) calls \<Rightarrow> ('f, 'v) user \<Rightarrow> nat \<Rightarrow> ('k, 'f, 'v) sched
    \<Rightarrow> ('k, 'f, 'v) sched res" where
  "drop_task cs u t w = bind_res (arc_forget t w) (\<lambda>w1.
     if strong (w_queue w1) (TEntry t) \<noteq> 0 then Ok w1
     else bind_res (get_task t w1) (\<lambda>k.
       let w2 = w1\<lparr>w_queue := entry_free (TEntry t) (w_queue w1), w_tasks := (w_tasks w1)(t := None)\<rparr>
       in bind_res (interp cs (drop_future u (t_future k)) w2) (\<lambda>(_, w3). Ok w3)))"

section \<open>Handles\<close>

text \<open>
  \<open>result\<close> borrows the task, which panics while the task is being polled, and takes the
  output.
\<close>

definition handle_result :: "nat \<Rightarrow> ('k, 't, 'v) world \<Rightarrow> ('v option \<times> ('k, 't, 'v) world) res" where
  "handle_result t w = bind_res (get_task t w) (\<lambda>k.
     if t_borrowed k then Fault (Panic BorrowMutError)
     else Ok (t_output k, put_task t (k\<lparr>t_output := None\<rparr>) w))"

definition handle_poll :: "nat \<Rightarrow> waker \<Rightarrow> ('k, 't, 'v) world \<Rightarrow> ('v poll \<times> ('k, 't, 'v) world) res" where
  "handle_poll t wk w = bind_res (handle_result t w) (\<lambda>(r, w1). case r of
     Some v \<Rightarrow> Ok (Ready v, w1)
   | None \<Rightarrow> bind_res (get_task t w1) (\<lambda>k.
       Ok (Pending, put_task t (k\<lparr>t_handle_waker := waker_clone wk w1\<rparr>) w1)))"

definition handle_abort :: "nat \<Rightarrow> ('k, 't, 'v) world \<Rightarrow> ('k, 't, 'v) world res" where
  "handle_abort t w = abort_task t (arc_clone t w)"

definition handle_name :: "nat \<Rightarrow> ('k, 't, 'v) world \<Rightarrow> string res" where
  "handle_name t w = bind_res (get_task t w) (\<lambda>k. Ok (t_name k))"

definition handle_drop :: "('k, 'f, 'v) calls \<Rightarrow> ('f, 'v) user \<Rightarrow> nat \<Rightarrow> nat \<Rightarrow> ('k, 'f, 'v) sched
    \<Rightarrow> ('k, 'f, 'v) sched res" where
  "handle_drop cs u h t w = drop_task cs u t (w\<lparr>w_handles := (w_handles w)(h := None)\<rparr>)"

section \<open>Spawning\<close>

definition spawn :: "'f builder \<Rightarrow> ('k, 'f, 'v) sched \<Rightarrow> (nat \<times> ('k, 'f, 'v) sched) res" where
  "spawn b w = (let (future, meta, p) = into_parts b in spawn_task (User future) p meta w)"

definition spawn_checked :: "'f builder \<Rightarrow> ('k, 'f, 'v) sched \<Rightarrow> (nat \<times> ('k, 'f, 'v) sched) res" where
  "spawn_checked b w = (let (future, meta, p) = into_parts b in spawn_task (Checked future) p meta w)"

text \<open>The free functions; \<open>caller\<close> is the location that \<open>track_caller\<close> supplies.\<close>

definition spawn_fn :: "'f \<Rightarrow> location \<Rightarrow> ('k, 'f, 'v) sched \<Rightarrow> (nat \<times> ('k, 'f, 'v) sched) res" where
  "spawn_fn f caller = spawn (builder_new f caller)"

definition spawn_with_priority :: "'f \<Rightarrow> priority \<Rightarrow> location \<Rightarrow> ('k, 'f, 'v) sched
    \<Rightarrow> (nat \<times> ('k, 'f, 'v) sched) res" where
  "spawn_with_priority f p caller = spawn (builder_priority p (builder_new f caller))"

definition spawn_checked_fn :: "'f \<Rightarrow> location \<Rightarrow> ('k, 'f, 'v) sched \<Rightarrow> (nat \<times> ('k, 'f, 'v) sched) res" where
  "spawn_checked_fn f caller = spawn_checked (builder_new f caller)"

definition spawn_checked_with_priority :: "'f \<Rightarrow> priority \<Rightarrow> location \<Rightarrow> ('k, 'f, 'v) sched
    \<Rightarrow> (nat \<times> ('k, 'f, 'v) sched) res" where
  "spawn_checked_with_priority f p caller = spawn_checked (builder_priority p (builder_new f caller))"

section \<open>Running one task\<close>

text \<open>
  \<open>run_task\<close> owns a reference to its task. The task stays borrowed while its future is
  polled and while the waker of its handle is woken; it counts as completed only after
  that.
\<close>

definition run_task :: "('k, 'f, 'v) calls \<Rightarrow> 'k kernel \<Rightarrow> ('f, 'v) user \<Rightarrow> nat \<Rightarrow> ('k, 'f, 'v) sched
    \<Rightarrow> ('k, 'f, 'v) sched res" where
  "run_task cs S u t w = bind_res (get_task t w) (\<lambda>k.
     if t_borrowed k then Fault (Panic BorrowMutError)
     else bind_res (poll_future cs u (t_future k) (TaskWaker t) (put_task t (k\<lparr>t_borrowed := True\<rparr>) w))
       (\<lambda>((f1, r), w1). bind_res (get_task t w1) (\<lambda>k1. case r of
          Pending \<Rightarrow>
            let w2 = put_task t (k1\<lparr>t_future := f1, t_borrowed := False\<rparr>) w1
            in bind_res (task_is_queued t w2) (\<lambda>q.
                 if \<not> q then sleep_task t w2 else drop_task cs u t w2)
        | Ready v \<Rightarrow>
            let w2 = put_task t (k1\<lparr>t_future := f1, t_output := Some v, t_handle_waker := NoopWaker\<rparr>) w1
            in bind_res (wake_by_ref S (t_handle_waker k1) w2) (\<lambda>w3.
               bind_res (get_task t w3) (\<lambda>k3.
                 drop_task cs u t (put_task t (k3\<lparr>t_has_completed := True, t_borrowed := False\<rparr>) w3))))))"

text \<open>A run queue holds task entries only; any other address could not be a task.\<close>

definition run_entry :: "('k, 'f, 'v) calls \<Rightarrow> 'k kernel \<Rightarrow> ('f, 'v) user \<Rightarrow> ptr \<Rightarrow> ('k, 'f, 'v) sched
    \<Rightarrow> ('k, 'f, 'v) sched res" where
  "run_entry cs S u e w = (case e of TEntry t \<Rightarrow> run_task cs S u t w | QHead _ _ \<Rightarrow> Fault UB)"

section \<open>Dropping an executor\<close>

text \<open>\<open>Queue::drop\<close> pops and drops every entry.\<close>

fun drain_queue :: "('k, 'f, 'v) calls \<Rightarrow> ('f, 'v) user \<Rightarrow> nat \<Rightarrow> ptr \<Rightarrow> ('k, 'f, 'v) sched
    \<Rightarrow> ('k, 'f, 'v) sched res" where
  "drain_queue cs u 0 h w = Fault NoFuel"
| "drain_queue cs u (Suc n) h w = bind_res (pop h (w_queue w)) (\<lambda>(r, q). case r of
     None \<Rightarrow> Ok (w\<lparr>w_queue := q\<rparr>)
   | Some (TEntry t) \<Rightarrow> bind_res (drop_task cs u t (w\<lparr>w_queue := q\<rparr>)) (drain_queue cs u n h)
   | Some (QHead _ _) \<Rightarrow> Fault UB)"

text \<open>
  The fields of an executor are dropped in their order, when the thread's executor is a
  new one already; the allocation with the queue heads is freed last.
\<close>

definition free_queues :: "nat \<Rightarrow> ptr qmem \<Rightarrow> ptr qmem" where
  "free_queues x q = entry_free (QHead x Sleepq) (entry_free (QHead x RunqLow)
     (entry_free (QHead x RunqNormal) (entry_free (QHead x RunqHigh) q)))"

definition drop_executor :: "('k, 'f, 'v) calls \<Rightarrow> 'k kernel \<Rightarrow> ('f, 'v) user \<Rightarrow> nat \<Rightarrow> executor
    \<Rightarrow> ('k, 'f, 'v) sched \<Rightarrow> ('k, 'f, 'v) sched res" where
  "drop_executor cs S u n old w =
     bind_res (drain_queue cs u n (QHead (x_id old) RunqHigh)
                 (w\<lparr>w_kernel := sys_close S (x_epoll old) (w_kernel w)\<rparr>)) (\<lambda>w1.
     bind_res (drain_queue cs u n (QHead (x_id old) RunqNormal) w1) (\<lambda>w2.
     bind_res (drain_queue cs u n (QHead (x_id old) RunqLow) w2) (\<lambda>w3.
     bind_res (drain_queue cs u n (QHead (x_id old) Sleepq) w3) (\<lambda>w4.
       Ok (w4\<lparr>w_kernel := sys_close S (x_pipe_wr old) (sys_close S (x_pipe_rd old) (w_kernel w4)),
              w_queue := free_queues (x_id old) (w_queue w4)\<rparr>)))))"

section \<open>The scheduler loops\<close>

text \<open>The loop of \<open>run\<close>: \<open>Inr\<close> when it breaks, \<open>Inl\<close> when \<open>?\<close> returns an error.\<close>

fun run_loop :: "('k, 'f, 'v) calls \<Rightarrow> 'k kernel \<Rightarrow> ('f, 'v) user \<Rightarrow> nat \<Rightarrow> ('k, 'f, 'v) sched
    \<Rightarrow> ((io_error + unit) \<times> ('k, 'f, 'v) sched) res" where
  "run_loop cs S u 0 w = Fault NoFuel"
| "run_loop cs S u (Suc n) w =
     bind_res (highest_priority_runnable_task w) (\<lambda>(r, w1). case r of
       Some e \<Rightarrow>
         bind_res (run_entry cs S u e w1) (\<lambda>w2.
           if x_shutdown (w_exec w2) then Ok (Inr (), w2)
           else bind_res (epoll_wait S TimeoutZero w2) (\<lambda>(z, w3). case z of
               Inl err \<Rightarrow> Ok (Inl err, w3)
             | Inr _ \<Rightarrow> run_loop cs S u n w3))
     | None \<Rightarrow>
         bind_res (sleepq_is_empty w1) (\<lambda>empty.
           if empty then Ok (Inr (), w1)
           else bind_res (epoll_wait S TimeoutNone w1) (\<lambda>(z, w2). case z of
               Inl err \<Rightarrow> Ok (Inl err, w2)
             | Inr _ \<Rightarrow> run_loop cs S u n w2)))"

definition run :: "('k, 'f, 'v) calls \<Rightarrow> 'k kernel \<Rightarrow> ('f, 'v) user \<Rightarrow> nat \<Rightarrow> ('k, 'f, 'v) sched
    \<Rightarrow> ((io_error + unit) \<times> ('k, 'f, 'v) sched) res" where
  "run cs S u n w = bind_res (run_loop cs S u n w) (\<lambda>(r, w1). case r of
     Inl err \<Rightarrow> Ok (Inl err, w1)
   | Inr _ \<Rightarrow> bind_res (executor_new S w1) (\<lambda>(x, w2). case x of
       Inl err \<Rightarrow> Ok (Inl err, w2)
     | Inr new \<Rightarrow>
         bind_res (drop_executor cs S u n (w_exec w2) (w2\<lparr>w_exec := new\<rparr>)) (\<lambda>w3.
           Ok (Inr (), w3))))"

definition unwrap :: "((io_error + unit) \<times> 'w) \<Rightarrow> 'w res" where
  "unwrap z = (case z of (Inl _, w) \<Rightarrow> Fault (Panic UnwrapErr) | (Inr _, w) \<Rightarrow> Ok w)"

fun block_on_loop :: "('k, 'f, 'v) calls \<Rightarrow> 'k kernel \<Rightarrow> ('f, 'v) user \<Rightarrow> nat \<Rightarrow> waker \<Rightarrow> 'f
    \<Rightarrow> ('k, 'f, 'v) sched \<Rightarrow> ('v \<times> ('k, 'f, 'v) sched) res" where
  "block_on_loop cs S u 0 wk f w = Fault NoFuel"
| "block_on_loop cs S u (Suc n) wk f w =
     bind_res (interp cs (u_poll u f wk) w) (\<lambda>((f1, r), w1). case r of
       Ready v \<Rightarrow> bind_res (interp cs (u_drop u f1) w1) (\<lambda>(_, w2). Ok (v, w2))
     | Pending \<Rightarrow>
         bind_res (highest_priority_runnable_task w1) (\<lambda>(t, w2). case t of
           Some e \<Rightarrow>
             bind_res (run_entry cs S u e w2) (\<lambda>w3.
             bind_res (bind_res (epoll_wait S TimeoutZero w3) unwrap) (block_on_loop cs S u n wk f1))
         | None \<Rightarrow>
             bind_res (bind_res (epoll_wait S TimeoutNone w2) unwrap) (block_on_loop cs S u n wk f1)))"

definition block_on :: "('k, 'f, 'v) calls \<Rightarrow> 'k kernel \<Rightarrow> ('f, 'v) user \<Rightarrow> nat \<Rightarrow> 'f
    \<Rightarrow> ('k, 'f, 'v) sched \<Rightarrow> ('v \<times> ('k, 'f, 'v) sched) res" where
  "block_on cs S u n f w = block_on_loop cs S u n (BlockOnWaker (x_pipe_wr (w_exec w))) f w"

section \<open>The semantics of calls\<close>

text \<open>
  Rust's ownership rules let a program use only the handles and \<open>Fd\<close>s it owns: a call with
  another number has no effect here.
\<close>

definition with_handle :: "nat \<Rightarrow> ('k, 't, 'v) world \<Rightarrow> (nat \<Rightarrow> ('v reply \<times> ('k, 't, 'v) world) res)
    \<Rightarrow> ('v reply \<times> ('k, 't, 'v) world) res" where
  "with_handle h w f = (case w_handles w h of None \<Rightarrow> Ok (RUnit, w) | Some t \<Rightarrow> f t)"

fun call_body :: "('k, 'f, 'v) calls \<Rightarrow> 'k kernel \<Rightarrow> ('f, 'v) user \<Rightarrow> nat \<Rightarrow> ('k, 'f, 'v) calls" where
  "call_body cs S u n (CSpawn b) w = bind_res (spawn b w) (\<lambda>(h, w1). Ok (RHandle h, w1))"
| "call_body cs S u n (CSpawnChecked b) w = bind_res (spawn_checked b w) (\<lambda>(h, w1). Ok (RHandle h, w1))"
| "call_body cs S u n (CWake wk) w = bind_res (wake_by_ref S wk w) (\<lambda>w1. Ok (RUnit, w1))"
| "call_body cs S u n (CWakerClone wk) w = Ok (RWaker (waker_clone wk w), w)"
| "call_body cs S u n (CHandleResult h) w = with_handle h w (\<lambda>t.
     bind_res (handle_result t w) (\<lambda>(r, w1). Ok (RResult r, w1)))"
| "call_body cs S u n (CHandlePoll h wk) w = with_handle h w (\<lambda>t.
     bind_res (handle_poll t wk w) (\<lambda>(r, w1). Ok (RPoll r, w1)))"
| "call_body cs S u n (CHandleAbort h) w = with_handle h w (\<lambda>t.
     bind_res (handle_abort t w) (\<lambda>w1. Ok (RUnit, w1)))"
| "call_body cs S u n (CHandleName h) w = with_handle h w (\<lambda>t.
     bind_res (handle_name t w) (\<lambda>s. Ok (RName s, w)))"
| "call_body cs S u n (CHandleDrop h) w = with_handle h w (\<lambda>t.
     bind_res (handle_drop cs u h t w) (\<lambda>w1. Ok (RUnit, w1)))"
| "call_body cs S u n CShutdown w = Ok (RUnit, shutdown_exec w)"
| "call_body cs S u n (CFdNew fd events) w = (let (r, w1) = fd_new S fd events w in Ok (RFd r, w1))"
| "call_body cs S u n (CFdPollWith i wk oper) w = (case w_fds w i of
     None \<Rightarrow> Ok (RUnit, w)
   | Some f \<Rightarrow> bind_res (fd_poll_with S (\<lambda>events. sys_other S (oper events)) f wk w) (\<lambda>(r, w1).
       Ok (RFdPoll r, w1)))"
| "call_body cs S u n (CFdDrop i) w = Ok (RUnit, fd_drop S i w)"
| "call_body cs S u n (CSys m) w =
     (let (r, k) = sys_other S m (w_kernel w) in Ok (RSys r, w\<lparr>w_kernel := k\<rparr>))"
| "call_body cs S u n (CBlockOn f) w = bind_res (block_on cs S u n f w) (\<lambda>(v, w1). Ok (RValue v, w1))"
| "call_body cs S u n CRun w = bind_res (run cs S u n w) (\<lambda>(r, w1). Ok (RRun r, w1))"

fun do_call :: "'k kernel \<Rightarrow> ('f, 'v) user \<Rightarrow> nat \<Rightarrow> ('k, 'f, 'v) calls" where
  "do_call S u 0 c w = Fault NoFuel"
| "do_call S u (Suc n) c w = call_body (do_call S u n) S u n c w"

text \<open>A thread that runs the program \<open>p\<close>.\<close>

definition run_thread :: "'k kernel \<Rightarrow> ('f, 'v) user \<Rightarrow> nat \<Rightarrow> ('r, 'f, 'v) prog \<Rightarrow> 'k
    \<Rightarrow> ('r \<times> ('k, 'f, 'v) sched) res" where
  "run_thread S u n p k = bind_res (thread_start S k) (interp (do_call S u n) p)"

section \<open>Futures of the crate\<close>

text \<open>
  The futures of the crate that are not the user's are programs over the same calls.
  \<open>YieldFuture\<close> is its flag, \<open>Shutdown\<close> has no state.
\<close>

definition yield_poll :: "bool \<Rightarrow> waker \<Rightarrow> (bool \<times> unit poll, 'f, 'v) prog" where
  "yield_poll yielded wk =
     (if yielded then Ret (yielded, Ready ()) else Call (CWake wk) (\<lambda>_. Ret (True, Pending)))"

definition shutdown_poll :: "waker \<Rightarrow> ('x poll, 'f, 'v) prog" where
  "shutdown_poll wk = Call CShutdown (\<lambda>_. Ret Pending)"

end
