(* ===== verification/Epox_Safety.thy ===== *)
theory Epox_Safety
  imports Epox_Invariant Epox_Scheduler
begin

text \<open>
  Every operation of the executor, of \<open>Fd\<close> and of \<open>Handle\<close> keeps the invariant \<open>winv\<close> and is
  free of undefined behaviour; then the same for the interpreter of user code and the
  scheduler loops, for any user code. The locale \<open>call_semantics\<close> is the contract of
  the nested calls that the loops rely on; \<open>do_call\<close> satisfies it with any fuel.
\<close>

section \<open>Framing\<close>

lemma olds_mono:
  assumes "olds G Q x" "dom Q \<subseteq> dom Q'"
    and "\<And>h. (\<And>n. h \<noteq> QHead x n) \<Longrightarrow> Q h = Some [] \<Longrightarrow> Q' h = Some []"
  shows "olds G Q' x"
  using assms unfolding olds_def by blast

lemma olds_qremove: "olds G Q x \<Longrightarrow> olds G (qremove e Q) x"
  by (erule olds_mono) (auto simp: qremove_def)

lemma olds_qpush: "olds G Q x \<Longrightarrow> olds G (qpush (QHead x n) e Q) x"
  by (erule olds_mono) (auto simp: qpush_def qremove_def dom_def)

lemma olds_qtail: "olds G Q x \<Longrightarrow> olds G (qtail h Q) x"
  by (erule olds_mono) (auto simp: qtail_def)

lemma ewf_mono:
  assumes "ewf reg w"
    and "reg (w_kernel w') (x_epoll (w_exec w')) \<subseteq>\<^sub>m reg (w_kernel w) (x_epoll (w_exec w))"
    and "dom (w_ews w') = dom (w_ews w)" "w_fds w' = w_fds w" "w_next w \<le> w_next w'"
  shows "ewf reg w'"
  using assms epoll_ok_mono unfolding ewf_def by metis

lemma winv_wfw: "winv reg E G w \<Longrightarrow> wfw E G w"
  by (simp add: winv_def)

lemma wfwE:
  assumes "wfw E G w" obtains Q where "wfq E Q w" "olds G Q (x_id (w_exec w))"
  using assms by (auto simp: wfw_def)

lemma winvE:
  assumes "winv reg E G w" obtains Q where "wfq E Q w" "olds G Q (x_id (w_exec w))" "ewf reg w"
  using assms by (auto simp: winv_def wfw_def)

lemma wfwI: "wfq E Q w \<Longrightarrow> olds G Q (x_id (w_exec w)) \<Longrightarrow> wfw E G w"
  by (auto simp: wfw_def)

lemma ewf_queue [simp]:
  "ewf reg (w\<lparr>w_queue := q\<rparr>) = ewf reg w"
  "ewf reg (w\<lparr>w_tasks := T\<rparr>) = ewf reg w"
  "ewf reg (w\<lparr>w_handles := H\<rparr>) = ewf reg w"
  "ewf reg (w\<lparr>w_foreign := i\<rparr>) = ewf reg w"
  "ewf reg (w\<lparr>w_exec := w_exec w\<lparr>x_events := v\<rparr>\<rparr>) = ewf reg w"
  "ewf reg (w\<lparr>w_exec := w_exec w\<lparr>x_shutdown := b\<rparr>\<rparr>) = ewf reg w"
  by (simp_all add: ewf_def)

lemma winv_frame [simp]:
  "winv reg E G (w\<lparr>w_foreign := i\<rparr>) = winv reg E G w"
  "winv reg E G (w\<lparr>w_exec := w_exec w\<lparr>x_events := v\<rparr>\<rparr>) = winv reg E G w"
  "winv reg E G (w\<lparr>w_exec := w_exec w\<lparr>x_shutdown := b\<rparr>\<rparr>) = winv reg E G w"
  by (simp_all add: winv_def)

lemma winv_kernel:
  "winv reg E G w \<Longrightarrow> (\<And>ep. reg k ep \<subseteq>\<^sub>m reg (w_kernel w) ep) \<Longrightarrow> winv reg E G (w\<lparr>w_kernel := k\<rparr>)"
  unfolding winv_def by (auto elim: ewf_mono)

lemma winv_kernel_eq:
  "winv reg E G w \<Longrightarrow> reg k = reg (w_kernel w) \<Longrightarrow> winv reg E G (w\<lparr>w_kernel := k\<rparr>)"
  by (erule winv_kernel) simp

lemma inv_shutdown: "winv reg E G w \<Longrightarrow> winv reg E G (shutdown_exec w)"
  by (simp add: shutdown_exec_def)

section \<open>Tasks\<close>

lemma get_task_live: "wfw E G w \<Longrightarrow> 0 < strong (w_queue w) (TEntry t) \<Longrightarrow> \<exists>k. w_tasks w t = Some k"
  by (auto elim!: wfwE simp: wfq_live)

lemma wf_count: "wfw (own t E) G w \<Longrightarrow> 0 < strong (w_queue w) (TEntry t)"
  by (auto elim!: wfwE simp: wfq_count refs_def)

lemma wf_count2: "wfw (own t E) G w \<Longrightarrow> 0 < E t \<Longrightarrow> 1 < strong (w_queue w) (TEntry t)"
  by (auto elim!: wfwE simp: wfq_count refs_def)

lemma own_task:
  assumes "winv reg (own t E) G w" obtains k where "w_tasks w t = Some k"
  using get_task_live [OF winv_wfw wf_count [OF winv_wfw], OF assms assms] by auto

lemma inv_borrowed: "winv reg E G w \<Longrightarrow> w_tasks w t = Some k \<Longrightarrow> t_borrowed k \<Longrightarrow> 0 < E t"
  by (auto elim!: winvE dest: wfq_borrowed)

lemma clone_inv:
  assumes "winv reg E G w" "0 < strong (w_queue w) (TEntry t)"
  shows "winv reg (own t E) G (arc_clone t w)"
proof (rule winvE [OF assms(1)])
  fix Q assume Q: "wfq E Q w" "olds G Q (x_id (w_exec w))" "ewf reg w"
  have "wfw (own t E) G (arc_clone t w)"
    by (rule wfwI, rule clone_wfq [OF Q(1) assms(2)]) (use Q in \<open>simp add: arc_clone_def\<close>)
  with Q(3) show ?thesis by (simp add: winv_def arc_clone_def)
qed

lemma upgrade_inv:
  assumes "winv reg E G w" "weak_upgrade t w = Some w1"
  shows "winv reg (own t E) G w1" "w1 = arc_clone t w" "1 < strong (w_queue w1) (TEntry t)"
    "w_tasks w1 = w_tasks w" "w_exec w1 = w_exec w"
  using assms clone_inv [OF assms(1), of t]
  by (auto simp: weak_upgrade_def arc_clone_def arc_inc_def split: if_splits)

lemma enqueue_queue_inv:
  assumes I: "winv reg (own t E) G w" and k: "w_tasks w t = Some k"
    and last: "t_has_completed k \<Longrightarrow> 1 < strong (w_queue w) (TEntry t)"
    and bor: "t_borrowed k \<Longrightarrow> 0 < E t"
  shows "safe (\<lambda>w'. winv reg E G w' \<and> (\<exists>q'. w' = w\<lparr>w_queue := q'\<rparr>)) (enqueue t w)"
proof (rule winvE [OF I])
  fix Q assume Q: "wfq (own t E) Q w" "olds G Q (x_id (w_exec w))" "ewf reg w"
  obtain q' where q': "enqueue t w = Ok (w\<lparr>w_queue := q'\<rparr>)"
    "wfq E (if t_has_completed k then Q else qpush (runq (t_priority k) w) (TEntry t) Q) (w\<lparr>w_queue := q'\<rparr>)"
    by (rule enqueue_wfq [OF Q(1) k]) (erule last, erule bor, assumption)
  have "wfw E G (w\<lparr>w_queue := q'\<rparr>)"
    by (rule wfwI [OF q'(2)]) (use Q in \<open>simp add: runq_head olds_qpush\<close>)
  moreover have "ewf reg (w\<lparr>w_queue := q'\<rparr>)" using Q(3) by simp
  ultimately show ?thesis using q'(1) unfolding winv_def safe_def by auto
qed

lemma enqueue_inv:
  assumes I: "winv reg (own t E) G w" and k: "w_tasks w t = Some k"
    and last: "t_has_completed k \<Longrightarrow> 1 < strong (w_queue w) (TEntry t)"
    and bor: "t_borrowed k \<Longrightarrow> 0 < E t"
  shows "safe (\<lambda>w'. winv reg E G w' \<and> w_ews w' = w_ews w \<and> w_exec w' = w_exec w) (enqueue t w)"
  by (rule safe_mono [OF enqueue_queue_inv [OF I k last bor]]) auto

lemma sleep_inv:
  assumes I: "winv reg (own t E) G w" and k: "w_tasks w t = Some k" and bor: "t_borrowed k \<Longrightarrow> 0 < E t"
  shows "safe (winv reg E G) (sleep_task t w)"
proof (rule winvE [OF I])
  fix Q assume Q: "wfq (own t E) Q w" "olds G Q (x_id (w_exec w))" "ewf reg w"
  obtain q' where q': "sleep_task t w = Ok (w\<lparr>w_queue := q'\<rparr>)"
    "wfq E (qpush (head_of Sleepq w) (TEntry t) Q) (w\<lparr>w_queue := q'\<rparr>)"
    by (rule sleep_wfq [OF Q(1) k]) (erule bor, assumption)
  have "wfw E G (w\<lparr>w_queue := q'\<rparr>)"
    by (rule wfwI [OF q'(2)]) (use Q in \<open>simp add: head_of_def olds_qpush\<close>)
  with Q(3) q'(1) show ?thesis by (simp add: winv_def)
qed

lemma forget_inv:
  assumes I: "winv reg (own t E) G w" and s: "1 < strong (w_queue w) (TEntry t)"
    and bor: "\<And>k. w_tasks w t = Some k \<Longrightarrow> t_borrowed k \<Longrightarrow> 0 < E t"
  shows "safe (winv reg E G) (arc_forget t w)"
proof (rule winvE [OF I])
  fix Q assume Q: "wfq (own t E) Q w" "olds G Q (x_id (w_exec w))" "ewf reg w"
  obtain q' where q': "arc_dec (TEntry t) (w_queue w) = Ok q'"
      "core E Q q' (w_tasks w) (w_handles w) (w_next w) (x_id (w_exec w))"
    using core_forget [OF wfqD [OF Q(1)] s] bor by auto
  then have "wfw E G (w\<lparr>w_queue := q'\<rparr>)"
    by (intro wfwI [of E Q]) (use Q in \<open>simp_all add: wfq_def\<close>)
  with Q(3) q'(1) show ?thesis by (simp add: winv_def arc_forget_def with_queue_def)
qed

lemma upgraded_enqueue:
  assumes I: "winv reg E G w" and u: "weak_upgrade t w = Some w1"
  shows "safe (\<lambda>w'. winv reg E G w' \<and> w_ews w' = w_ews w \<and> w_exec w' = w_exec w) (enqueue t w1)"
proof -
  note U = upgrade_inv [OF I u]
  obtain k where k: "w_tasks w1 t = Some k" using own_task [OF U(1)] .
  have "t_borrowed k \<Longrightarrow> 0 < E t" using inv_borrowed [OF I] k U(4) by simp
  from enqueue_inv [OF U(1) k U(3) this] show ?thesis
    using U(2) by (simp add: arc_clone_def)
qed

section \<open>Events\<close>

lemma wake_from_pipe_inv:
  assumes K: "kernel_ok reg S" and I: "winv reg E G w"
  shows "safe (\<lambda>(r, w'). winv reg E G w' \<and> w_ews w' = w_ews w \<and> w_exec w' = w_exec w) (wake_from_pipe S w)"
proof -
  obtain r k where r: "sys_read_ptr S (x_pipe_rd (w_exec w)) (w_kernel w) = (r, k)" by force
  have I1: "winv reg E G (w\<lparr>w_kernel := k\<rparr>)"
    using kernel_ok_read [OF K, of "x_pipe_rd (w_exec w)" "w_kernel w"] r by (auto intro: winv_kernel_eq [OF I])
  show ?thesis
  proof (cases r)
    case (Inl e)
    with r I1 show ?thesis by (simp add: wake_from_pipe_def)
  next
    case (Inr p)
    show ?thesis
    proof (cases "p = 0 \<or> weak_upgrade p (w\<lparr>w_kernel := k\<rparr>) = None")
      case True
      with r I1 Inr show ?thesis by (auto simp: wake_from_pipe_def Let_def)
    next
      case False
      then obtain w2 where u: "weak_upgrade p (w\<lparr>w_kernel := k\<rparr>) = Some w2" by auto
      have "safe (\<lambda>(r, w'). winv reg E G w' \<and> w_ews w' = w_ews w \<and> w_exec w' = w_exec w)
          (bind_res (enqueue p w2) (\<lambda>w3. Ok (Inr (), w3)))"
        by (rule safe_bind [OF upgraded_enqueue [OF I1 u]]) simp
      with r Inr False u show ?thesis by (simp add: wake_from_pipe_def Let_def)
    qed
  qed
qed

lemma inv_ews:
  "winv reg E G w \<Longrightarrow> w_ews w d = Some ew \<Longrightarrow> winv reg E G (w\<lparr>w_ews := (w_ews w)(d \<mapsto> ew')\<rparr>)"
  unfolding winv_def
  by (elim conjE, intro conjI, simp, erule ewf_mono) (auto split: if_splits)

lemma wake_from_event_inv:
  assumes I: "winv reg E G w" and d: "ev_data e \<in> dom (w_ews w)"
  shows "safe (\<lambda>w'. winv reg E G w' \<and> dom (w_ews w') = dom (w_ews w) \<and> w_exec w' = w_exec w) (wake_from_event e w)"
proof -
  from d obtain ew where ew: "w_ews w (ev_data e) = Some ew" by auto
  show ?thesis
  proof (cases "flags_contains (ew_events ew) (ev_events e)")
    case True
    with ew I show ?thesis by (simp add: wake_from_event_def)
  next
    case False
    let ?ew = "ew\<lparr>ew_events := ew_events ew OR ev_events e\<rparr>"
    let ?w = "w\<lparr>w_ews := (w_ews w)(ev_data e \<mapsto> ?ew)\<rparr>"
    have I1: "winv reg E G ?w" by (rule inv_ews [OF I ew])
    show ?thesis
    proof (cases "\<exists>t w2. ew_waker ew = TaskWaker t \<and> weak_upgrade t ?w = Some w2")
      case True
      then obtain t w2 where t: "ew_waker ew = TaskWaker t" "weak_upgrade t ?w = Some w2" by blast
      have "safe (\<lambda>w'. winv reg E G w' \<and> dom (w_ews w') = dom (w_ews w) \<and> w_exec w' = w_exec w) (enqueue t w2)"
        by (rule safe_mono [OF upgraded_enqueue [OF I1 t(2)]]) (use d in auto)
      with t ew False show ?thesis by (simp add: wake_from_event_def Let_def)
    next
      case none: False
      then have "wake_from_event e w = Ok ?w"
        using ew False by (auto simp: wake_from_event_def Let_def split: waker.splits option.splits)
      then show ?thesis using I1 d by auto
    qed
  qed
qed

lemma handle_events_inv:
  fixes w :: "('k, 't, 'v) world"
  assumes K: "kernel_ok reg S" and I: "winv reg E G w"
    and "\<forall>e \<in> set es. ev_data e = 0 \<or> ev_data e \<in> dom (w_ews w)"
  shows "safe (\<lambda>(r, w'). winv reg E G w' \<and> dom (w_ews w') = dom (w_ews w) \<and> w_exec w' = w_exec w) (handle_events S es w)"
  using I assms(3)
proof (induction es arbitrary: w)
  case Nil
  then show ?case by simp
next
  case (Cons e es)
  show ?case
  proof (cases "ev_data e = 0")
    case True
    have "safe (\<lambda>(r, w'). winv reg E G w' \<and> dom (w_ews w') = dom (w_ews w) \<and> w_exec w' = w_exec w)
      (bind_res (wake_from_pipe S w) (\<lambda>(r, w1). case r of
             Inl err \<Rightarrow> Ok (Inl err, w1) | Inr _ \<Rightarrow> handle_events S es w1))"
    proof (rule safe_bind [OF wake_from_pipe_inv [OF K Cons.prems(1)]], clarify)
      fix r and w1 :: "('k, 't, 'v) world" assume w1: "winv reg E G w1" "w_ews w1 = w_ews w" "w_exec w1 = w_exec w"
      show "safe (\<lambda>(r, w'). winv reg E G w' \<and> dom (w_ews w') = dom (w_ews w) \<and> w_exec w' = w_exec w)
        (case r of Inl err \<Rightarrow> Ok (Inl err, w1) | Inr _ \<Rightarrow> handle_events S es w1)"
        using Cons.IH [of w1] Cons.prems(2) w1 by (cases r) simp_all
    qed
    with True show ?thesis by simp
  next
    case False
    then have "ev_data e \<in> dom (w_ews w)" using Cons.prems by auto
    have "safe (\<lambda>(r, w'). winv reg E G w' \<and> dom (w_ews w') = dom (w_ews w) \<and> w_exec w' = w_exec w)
      (bind_res (wake_from_event e w) (handle_events S es))"
    proof (rule safe_bind [OF wake_from_event_inv [OF Cons.prems(1) \<open>ev_data e \<in> dom (w_ews w)\<close>]])
      fix w1 :: "('k, 't, 'v) world" assume w1: "winv reg E G w1 \<and> dom (w_ews w1) = dom (w_ews w) \<and> w_exec w1 = w_exec w"
      show "safe (\<lambda>(r, w'). winv reg E G w' \<and> dom (w_ews w') = dom (w_ews w) \<and> w_exec w' = w_exec w) (handle_events S es w1)"
        using Cons.IH [of w1] Cons.prems(2) w1 by simp
    qed
    with False show ?thesis by simp
  qed
qed

lemma epoll_wait_events:
  assumes "sys_epoll_wait S (x_epoll (w_exec w)) (length (x_events (w_exec w))) tmo (w_kernel w) = (WaitEvents es, k)"
    and "x_events (w_exec w) \<noteq> []" "es' = take (length (x_events (w_exec w))) es"
  shows "epoll_wait S tmo w = handle_events S es' (w\<lparr>w_kernel := k,
    w_exec := w_exec w\<lparr>x_events := es' @ drop (length es') (x_events (w_exec w))\<rparr>\<rparr>)"
  using assms by (simp add: epoll_wait_def Let_def)

lemma ewf_data:
  "ewf reg w \<Longrightarrow> d \<in> ran (reg (w_kernel w) (x_epoll (w_exec w))) \<Longrightarrow> d = 0 \<or> d \<in> dom (w_ews w)"
  unfolding ewf_def by (rule epoll_ok_data)

lemma epoll_wait_inv:
  assumes K: "kernel_ok reg S" and I: "winv reg E G w"
  shows "safe (\<lambda>(r, w'). winv reg E G w') (epoll_wait S tmo w)"
proof (cases "x_events (w_exec w) = []")
  case True
  with I show ?thesis by (simp add: epoll_wait_def)
next
  case False
  let ?n = "length (x_events (w_exec w))"
  obtain z k where z: "sys_epoll_wait S (x_epoll (w_exec w)) ?n tmo (w_kernel w) = (z, k)" by force
  have R: "reg k = reg (w_kernel w)"
    using kernel_ok_wait [OF K, of "x_epoll (w_exec w)" ?n tmo "w_kernel w"] z by simp
  have I1: "winv reg E G (w\<lparr>w_kernel := k\<rparr>)" by (rule winv_kernel_eq [OF I R])
  show ?thesis
  proof (cases z)
    case (WaitEvents es)
    have es: "\<forall>e \<in> set es. ev_data e \<in> ran (reg (w_kernel w) (x_epoll (w_exec w)))"
      using kernel_ok_events [OF K] z WaitEvents by blast
    let ?es = "take ?n es"
    let ?w1 = "w\<lparr>w_kernel := k, w_exec := w_exec w\<lparr>x_events := ?es @ drop (length ?es) (x_events (w_exec w))\<rparr>\<rparr>"
    have I2: "winv reg E G ?w1"
      using I1 by (simp add: winv_def ewf_def)
    have ok: "\<forall>e \<in> set ?es. ev_data e = 0 \<or> ev_data e \<in> dom (w_ews ?w1)"
    proof
      fix e assume "e \<in> set ?es"
      with es have "ev_data e \<in> ran (reg (w_kernel w) (x_epoll (w_exec w)))" by (auto dest: in_set_takeD)
      with ewf_data [of reg w] I show "ev_data e = 0 \<or> ev_data e \<in> dom (w_ews ?w1)"
        by (auto simp: winv_def)
    qed
    show ?thesis
      unfolding epoll_wait_events [OF z [unfolded WaitEvents] False refl]
      by (rule safe_mono [OF handle_events_inv [OF K I2 ok]]) auto
  next
    case (WaitError e)
    with z False I1 show ?thesis by (cases e) (simp_all add: epoll_wait_def)
  next
    case WaitForever
    with z False show ?thesis by (simp add: epoll_wait_def)
  qed
qed

section \<open>Wakers\<close>

lemma wake_task_inv:
  assumes K: "kernel_ok reg S" and I: "winv reg E G w"
  shows "safe (winv reg E G) (wake_task S t w)"
proof (cases "weak_upgrade t w")
  case None
  with I show ?thesis by (simp add: wake_task_def)
next
  case (Some w1)
  note U = upgrade_inv [OF I Some]
  obtain k where k: "w_tasks w1 t = Some k" using own_task [OF U(1)] .
  have bor: "t_borrowed k \<Longrightarrow> 0 < E t" using inv_borrowed [OF I] k U(4) by simp
  obtain z kw where z: "sys_write_ptr S (t_pipe_wr k) t (w_kernel w1) = (z, kw)" by force
  have "reg kw = reg (w_kernel w1)"
    using kernel_ok_write [OF K, of "t_pipe_wr k" t "w_kernel w1"] z by simp
  then have I2: "winv reg (own t E) G (w1\<lparr>w_kernel := kw\<rparr>)" by (rule winv_kernel_eq [OF U(1)])
  have forget: "safe (winv reg E G) (arc_forget t (w1\<lparr>w_kernel := kw\<rparr>))"
    by (rule forget_inv [OF I2]) (use U(3) k bor in auto)
  have same: "safe (winv reg E G) (enqueue t w1)"
    by (rule safe_mono [OF enqueue_inv [OF U(1) k U(3) bor]]) auto
  have self: "safe (winv reg E G) (bind_res (bind_res (epoll_wait S TimeoutZero w1) (\<lambda>(_, w2). Ok w2)) (enqueue t))"
    if b: "t_borrowed k"
  proof (rule safe_bind)
    show "safe (winv reg (own t E) G) (bind_res (epoll_wait S TimeoutZero w1) (\<lambda>(_, w2). Ok w2))"
      by (rule safe_bind [OF epoll_wait_inv [OF K U(1)]]) auto
  next
    fix w2 assume I3: "winv reg (own t E) G w2"
    obtain k2 where k2: "w_tasks w2 t = Some k2" using own_task [OF I3] .
    show "safe (winv reg E G) (enqueue t w2)"
      by (rule safe_mono [OF enqueue_inv [OF I3 k2]])
         (use wf_count2 [OF winv_wfw [OF I3] bor [OF b]] bor [OF b] in simp_all)
  qed
  show ?thesis
  proof (cases "t_pipe_wr k = x_pipe_wr (w_exec w1)")
    case True
    then show ?thesis using Some k same self by (simp add: wake_task_def get_task_def)
  next
    case False
    then show ?thesis using Some k z forget
      by (simp add: wake_task_def get_task_def split: sum.splits errno.splits)
  qed
qed

lemma block_on_wake_inv:
  assumes K: "kernel_ok reg S" and I: "winv reg E G w"
  shows "safe (winv reg E G) (block_on_wake S p w)"
proof -
  obtain z k where z: "sys_write_ptr S p 0 (w_kernel w) = (z, k)" by force
  have "reg k = reg (w_kernel w)" using kernel_ok_write [OF K, of p 0 "w_kernel w"] z by simp
  then have "winv reg E G (w\<lparr>w_kernel := k\<rparr>)" by (rule winv_kernel_eq [OF I])
  with I z show ?thesis by (simp add: block_on_wake_def split: sum.splits errno.splits)
qed

lemma wake_by_ref_inv:
  assumes K: "kernel_ok reg S" and I: "winv reg E G w"
  shows "safe (winv reg E G) (wake_by_ref S wk w)"
  using I wake_task_inv [OF K I] block_on_wake_inv [OF K I]
  by (simp add: wake_by_ref_def split: waker.splits)


section \<open>A new executor\<close>

definition empty_heads :: "nat \<Rightarrow> ptr queues" where
  "empty_heads x = (\<lambda>h. if \<exists>n. h = QHead x n then Some [] else None)"

lemma queue_new_commute: "a \<noteq> b \<Longrightarrow> queue_new a (queue_new b m) = queue_new b (queue_new a m)"
  by (simp add: queue_new_def fun_upd_twist)

lemma queue_init_new:
  "a \<noteq> b \<Longrightarrow> queue_init a (queue_new b m) = bind_res (queue_init a m) (\<lambda>m'. Ok (queue_new b m'))"
  by (cases "links m a")
     (simp_all add: queue_init_def set_prev_def set_next_def deref_def queue_new_def fun_upd_twist)

lemma empty_heads_upd:
  "Q ++ empty_heads x = Q(QHead x RunqHigh \<mapsto> [], QHead x RunqNormal \<mapsto> [], QHead x RunqLow \<mapsto> [], QHead x Sleepq \<mapsto> [])"
proof
  fix h
  show "(Q ++ empty_heads x) h =
      (Q(QHead x RunqHigh \<mapsto> [], QHead x RunqNormal \<mapsto> [], QHead x RunqLow \<mapsto> [], QHead x Sleepq \<mapsto> [])) h"
  proof (cases h)
    case (QHead y n)
    then show ?thesis by (cases n) (auto simp: empty_heads_def map_add_def)
  next
    case (TEntry t)
    then show ?thesis by (simp add: empty_heads_def map_add_def)
  qed
qed

lemma range_QHead: "range (QHead x) = {QHead x RunqHigh, QHead x RunqNormal, QHead x RunqLow, QHead x Sleepq}"
proof -
  have "n = RunqHigh \<or> n = RunqNormal \<or> n = RunqLow \<or> n = Sleepq" for n by (cases n) simp_all
  then show ?thesis by blast
qed

lemma init_queues_repr:
  assumes R: "repr m Q" and fresh: "\<And>n. links m (QHead x n) = None"
  obtains m' where "init_queues x m = Ok m'" "repr m' (Q ++ empty_heads x)" "strong m' = strong m"
    "dom (links m') = range (QHead x) \<union> dom (links m)"
proof -
  let ?H = "QHead x"
  obtain m1 where m1: "queue_init (?H RunqHigh) (queue_new (?H RunqHigh) m) = Ok m1"
    "repr m1 (Q(?H RunqHigh \<mapsto> []))" "strong m1 = strong m" "dom (links m1) = insert (?H RunqHigh) (dom (links m))"
    using init_repr [OF R fresh] .
  have "?H RunqNormal \<notin> dom (links m1)" unfolding m1(4) using fresh [of RunqNormal] by auto
  then obtain m2 where m2: "queue_init (?H RunqNormal) (queue_new (?H RunqNormal) m1) = Ok m2"
    "repr m2 (Q(?H RunqHigh \<mapsto> [], ?H RunqNormal \<mapsto> []))" "strong m2 = strong m1"
    "dom (links m2) = insert (?H RunqNormal) (dom (links m1))"
    using init_repr [OF m1(2)] by (metis domIff)
  have "?H RunqLow \<notin> dom (links m2)" unfolding m2(4) m1(4) using fresh [of RunqLow] by auto
  then obtain m3 where m3: "queue_init (?H RunqLow) (queue_new (?H RunqLow) m2) = Ok m3"
    "repr m3 (Q(?H RunqHigh \<mapsto> [], ?H RunqNormal \<mapsto> [], ?H RunqLow \<mapsto> []))" "strong m3 = strong m2"
    "dom (links m3) = insert (?H RunqLow) (dom (links m2))"
    using init_repr [OF m2(2)] by (metis domIff)
  have "?H Sleepq \<notin> dom (links m3)" unfolding m3(4) m2(4) m1(4) using fresh [of Sleepq] by auto
  then obtain m4 where m4: "queue_init (?H Sleepq) (queue_new (?H Sleepq) m3) = Ok m4"
    "repr m4 (Q(?H RunqHigh \<mapsto> [], ?H RunqNormal \<mapsto> [], ?H RunqLow \<mapsto> [], ?H Sleepq \<mapsto> []))" "strong m4 = strong m3"
    "dom (links m4) = insert (?H Sleepq) (dom (links m3))"
    using init_repr [OF m3(2)] by (metis domIff)
  have "init_queues x m = Ok m4"
    using m1(1) m2(1) m3(1) m4(1) by (simp add: init_queues_def Let_def queue_init_new)
  moreover have "dom (links m4) = range (QHead x) \<union> dom (links m)"
    unfolding m4(4) m3(4) m2(4) m1(4) range_QHead by blast
  ultimately show ?thesis
    using m4 m3 m2 m1 by (intro that [of m4]) (simp_all add: empty_heads_upd)
qed

lemma core_new_executor:
  assumes C: "core E Q q T H nx x"
  obtains q' where "init_queues nx q = Ok q'" "core E (Q ++ empty_heads nx) q' T H (Suc nx) x"
    "core E (Q ++ empty_heads nx) q' T H (Suc nx) nx"
proof -
  have noQ: "QHead nx n \<notin> dom Q" for n using core_heads [OF C, of "QHead nx n"] by auto
  have "links q (QHead nx n) = None" for n
    using core_links [OF C] noQ by (auto simp: domIff)
  then obtain q' where q': "init_queues nx q = Ok q'" "repr q' (Q ++ empty_heads nx)" "strong q' = strong q"
    "dom (links q') = range (QHead nx) \<union> dom (links q)"
    using init_queues_repr [OF core_repr [OF C], of nx] by blast
  have dh: "dom (empty_heads nx) = range (QHead nx)"
    by (auto simp: empty_heads_def split: if_splits)
  have qd: "queued (Q ++ empty_heads nx) e \<longleftrightarrow> queued Q e" for e
  proof -
    have "(Q ++ empty_heads nx) h = (if h \<in> range (QHead nx) then Some [] else Q h)" for h
      by (auto simp: empty_heads_def map_add_def split: option.splits)
    moreover have "Q h = None" if "h \<in> range (QHead nx)" for h using that noQ by auto
    ultimately show ?thesis unfolding queued_iff by (metis empty_iff list.set(1) option.inject option.distinct(1))
  qed
  have heads: "\<exists>y n. a = QHead y n \<and> y < Suc nx" if "a \<in> dom (Q ++ empty_heads nx)" for a
    using that core_heads [OF C, of a] by (auto simp: dh less_Suc_eq)
  have head: "QHead x n \<in> dom (Q ++ empty_heads nx)" "QHead nx n \<in> dom (Q ++ empty_heads nx)" for n
    using core_head [OF C] by (auto simp: dh simp del: domIff)
  have lnk: "dom (links q') = dom (Q ++ empty_heads nx) \<union> TEntry ` dom T"
    using q'(4) core_links [OF C] by (auto simp: dh)
  have cnt: "strong q' (TEntry s) = refs E (Q ++ empty_heads nx) H s" for s
    using core_count [OF C, of s] by (simp add: q'(3) refs_def qd)
  have live: "s \<in> dom T \<longleftrightarrow> 0 < strong q' (TEntry s)" for s
    using core_live [OF C, of s] by (simp add: q'(3))
  have prio: "t_priority k = p"
    if "(Q ++ empty_heads nx) (QHead y (runq_name p)) = Some ts" "TEntry s \<in> set ts" "T s = Some k" for y p ts s k
  proof -
    have "Q (QHead y (runq_name p)) = Some ts"
      using that(1,2) by (auto simp: empty_heads_def map_add_def split: option.splits if_splits)
    with core_priority [OF C _ that(2,3)] show ?thesis by simp
  qed
  have fresh: "0 < i \<and> i < Suc nx" if "i \<in> dom T \<union> dom H" for i
    using core_fresh [OF C that] by simp
  have bor: "0 < E t" if "T t = Some k" "t_borrowed k" for t k using core_borrowed [OF C that] .
  have C1: "core E (Q ++ empty_heads nx) q' T H (Suc nx) y" if "\<And>n. QHead y n \<in> dom (Q ++ empty_heads nx)" for y
    by (rule coreI) (fact q'(2) heads that lnk cnt live core_finite [OF C] prio bor fresh zero_less_Suc)+
  show ?thesis by (rule that [OF q'(1) C1 [OF head(1)] C1 [OF head(2)]])
qed

definition with_old :: "nat \<Rightarrow> ptr set \<times> ptr set \<Rightarrow> ptr set \<times> ptr set" where
  "with_old x G = (range (QHead x) \<union> fst G, snd G)"

lemma olds_with_old:
  assumes C: "core E Q q T H nx x" and O: "olds G Q x"
  shows "olds (with_old x G) (Q ++ empty_heads nx) nx"
proof -
  have dom: "h \<in> dom Q" if "h \<in> fst (with_old x G) \<union> snd (with_old x G)" for h
    using that O core_head [OF C] unfolding olds_def with_old_def by auto
  moreover have ne: "h \<noteq> QHead nx n" if "h \<in> dom Q" for h n
    using core_heads [OF C that] by auto
  moreover have eq: "(Q ++ empty_heads nx) h = Q h" if "h \<in> dom Q" for h
    using ne [OF that] by (simp add: empty_heads_def map_add_def)
  moreover have "Q h = Some []" if "h \<in> snd (with_old x G)" for h
    using that O unfolding olds_def with_old_def by simp
  ultimately show ?thesis unfolding olds_def by (metis UnCI domIff)
qed

lemma executor_new_inv:
  assumes K: "kernel_ok reg S" and I: "winv reg E G w"
  shows "safe (\<lambda>(r, w'). case r of
      Inl _ \<Rightarrow> winv reg E G w'
    | Inr new \<Rightarrow> w_exec w' = w_exec w \<and> winv reg E (with_old (x_id (w_exec w)) G) (w'\<lparr>w_exec := new\<rparr>))
    (executor_new S w)"
proof (rule winvE [OF I])
  fix Q assume Q: "wfq E Q w" "olds G Q (x_id (w_exec w))" "ewf reg w"
  obtain z k1 where z: "sys_pipe2 S (w_kernel w) = (z, k1)" by force
  have R1: "reg k1 = reg (w_kernel w)" using kernel_ok_pipe2 [OF K, of "w_kernel w"] z by simp
  show ?thesis
  proof (cases z)
    case (Inl e)
    with z winv_kernel_eq [OF I R1] show ?thesis by (simp add: executor_new_def)
  next
    case (Inr rw)
    obtain rd wr where rw: "rw = (rd, wr)" by force
    obtain y k2 where y: "sys_epoll_create S k1 = (y, k2)" by force
    show ?thesis
    proof (cases y)
      case (Inl e)
      have "reg k2 = reg (w_kernel w)" using kernel_ok_create_err [OF K] y Inl R1 by metis
      moreover have "reg (sys_close S rd (sys_close S wr k2)) ep \<subseteq>\<^sub>m reg k2 ep" for ep
        using kernel_ok_close [OF K] map_le_trans by blast
      ultimately have "winv reg E G (w\<lparr>w_kernel := sys_close S rd (sys_close S wr k2)\<rparr>)"
        by (intro winv_kernel [OF I]) simp
      with z y Inr rw Inl show ?thesis by (simp add: executor_new_def)
    next
      case (Inr ep)
      have R2: "reg k2 = (reg k1)(ep := Map.empty)" using kernel_ok_create [OF K] y Inr by metis
      obtain q' where q': "init_queues (w_next w) (w_queue w) = Ok q'"
        "core E (Q ++ empty_heads (w_next w)) q' (w_tasks w) (w_handles w) (Suc (w_next w)) (w_next w)"
        using core_new_executor [OF wfqD [OF Q(1)]] by metis
      obtain v k3 where v: "sys_epoll_add S ep rd \<lparr>ev_events = EPOLLIN, ev_data = 0\<rparr> k2 = (v, k3)" by force
      show ?thesis
      proof (cases v)
        case (Inl e)
        with z y v rw Inr \<open>z = Inr rw\<close> q' show ?thesis by (simp add: executor_new_def Let_def)
      next
        case (Inr u)
        have R3: "reg k3 ep = [rd \<mapsto> 0]"
          using kernel_ok_add [OF K] v Inr R2 by (metis epoll_event.select_convs(2) fun_upd_same)
        let ?new = "\<lparr>x_id = w_next w, x_epoll = ep, x_pipe_rd = rd, x_pipe_wr = wr,
             x_events = [epoll_event_empty], x_shutdown = False\<rparr>"
        let ?w = "w\<lparr>w_kernel := k3, w_queue := q', w_next := Suc (w_next w)\<rparr>"
        have ewf: "ewf reg (?w\<lparr>w_exec := ?new\<rparr>)"
        proof -
          have "epoll_ok Map.empty (w_ews w) (w_fds w) (Suc (w_next w))"
            by (rule epoll_ok_mono [OF Q(3) [unfolded ewf_def]]) simp_all
          then show ?thesis unfolding ewf_def epoll_ok_def by (simp add: R3)
        qed
        note old = olds_with_old [OF wfqD [OF Q(1)] Q(2)]
        have "wfw E (with_old (x_id (w_exec w)) G) (?w\<lparr>w_exec := ?new\<rparr>)"
          by (rule wfwI [of E "Q ++ empty_heads (w_next w)"]) (use q' old in \<open>simp_all add: wfq_def\<close>)
        with ewf have "winv reg E (with_old (x_id (w_exec w)) G) (?w\<lparr>w_exec := ?new\<rparr>)"
          by (simp add: winv_def)
        with z y v rw Inr \<open>y = Inr ep\<close> \<open>z = Inr rw\<close> q'(1) show ?thesis
          by (simp add: executor_new_def Let_def)
      qed
    qed
  qed
qed


lemma thread_start_inv:
  assumes K: "kernel_ok reg S"
  shows "safe (winv reg (\<lambda>_. 0) ({}, {})) (thread_start S k :: ('k, 't, 'v) world res)"
proof -
  let ?m = "\<lparr>links = Map.empty, strong = (\<lambda>_. 0)\<rparr> :: ptr qmem"
  have "repr ?m Map.empty" by (simp add: repr_def)
  then obtain m' where m': "init_queues 1 ?m = Ok m'" "repr m' (Map.empty ++ empty_heads 1)" "strong m' = strong ?m"
    "dom (links m') = range (QHead 1) \<union> dom (links ?m)"
    by (rule init_queues_repr) simp
  have dh: "dom (empty_heads 1) = range (QHead 1)" by (auto simp: empty_heads_def split: if_splits)
  have nq: "\<not> queued (empty_heads 1) e" for e by (auto simp: queued_iff empty_heads_def)
  have "\<exists>y n. a = QHead y n \<and> y < 2" if "a \<in> dom (empty_heads 1)" for a
    using that unfolding dh by auto
  moreover have "QHead 1 n \<in> dom (empty_heads 1)" for n unfolding dh by simp
  moreover have "t_priority kk = p"
    if "empty_heads 1 (QHead y (runq_name p)) = Some ts" "TEntry t \<in> set ts" for y p ts t and kk :: "('t, 'v) executor_task"
    using that nq [of "TEntry t"] by (auto intro: queuedI)
  ultimately have C: "core (\<lambda>_. 0) (empty_heads 1) m' (Map.empty :: nat \<rightharpoonup> ('t, 'v) executor_task) Map.empty 2 1"
    using m' unfolding core_def refs_def by (simp add: dh [unfolded One_nat_def] nq [unfolded One_nat_def])
  obtain z k1 where z: "sys_pipe2 S k = (z, k1)" by force
  show ?thesis
  proof (cases z)
    case (Inl e)
    with z show ?thesis by (simp add: thread_start_def executor_new_def empty_world_def)
  next
    case (Inr rw)
    obtain rd wr where rw: "rw = (rd, wr)" by force
    obtain y k2 where y: "sys_epoll_create S k1 = (y, k2)" by force
    show ?thesis
    proof (cases y)
      case (Inl e)
      with z rw y Inr show ?thesis by (simp add: thread_start_def executor_new_def empty_world_def)
    next
      case (Inr ep)
      have R2: "reg k2 = (reg k1)(ep := Map.empty)" using kernel_ok_create [OF K] y Inr by metis
      obtain v k3 where v: "sys_epoll_add S ep rd \<lparr>ev_events = EPOLLIN, ev_data = 0\<rparr> k2 = (v, k3)" by force
      show ?thesis
      proof (cases v)
        case (Inl e)
        with z y v rw Inr \<open>z = Inr rw\<close> m'(1) show ?thesis
          by (simp add: thread_start_def executor_new_def empty_world_def Let_def)
      next
        case v: (Inr u)
        have R3: "reg k3 ep = [rd \<mapsto> 0]"
          using kernel_ok_add [OF K] \<open>sys_epoll_add S ep rd _ k2 = (v, k3)\<close> v R2
          by (metis epoll_event.select_convs(2) fun_upd_same)
        let ?w = "(empty_world k :: ('k, 't, 'v) world)\<lparr>w_kernel := k3, w_queue := m', w_next := 2, w_exec := \<lparr>x_id = 1, x_epoll = ep,
            x_pipe_rd = rd, x_pipe_wr = wr, x_events = [epoll_event_empty], x_shutdown = False\<rparr>\<rparr>"
        have "thread_start S k = Ok ?w"
          using z y rw Inr \<open>z = Inr rw\<close> m'(1) \<open>sys_epoll_add S ep rd _ k2 = (v, k3)\<close> v
          by (simp add: thread_start_def executor_new_def empty_world_def Let_def)
        moreover have "wfw (\<lambda>_. 0) ({}, {}) ?w"
          by (rule wfwI [of _ "empty_heads 1"]) (use C in \<open>simp_all add: wfq_def olds_def empty_world_def\<close>)
        moreover have "ewf reg ?w"
          by (simp add: ewf_def epoll_ok_def empty_world_def R3)
        ultimately show ?thesis by (simp add: winv_def)
      qed
    qed
  qed
qed

section \<open>File descriptors\<close>

lemma wfw_ews [simp]:
  "wfw E G (w\<lparr>w_ews := e, w_fds := f\<rparr>) = wfw E G w"
  by (simp add: wfw_def wfq_def)

lemma epoll_add_spec:
  assumes K: "kernel_ok reg S" and e: "epoll_add S fd events d w = (r, w')"
  shows "\<exists>k v. w' = w\<lparr>w_exec := w_exec w\<lparr>x_events := v\<rparr>, w_kernel := k\<rparr> \<and>
    reg k = (if isl r then reg (w_kernel w)
             else (reg (w_kernel w))(x_epoll (w_exec w) := (reg (w_kernel w) (x_epoll (w_exec w)))(fd \<mapsto> d)))"
  using e kernel_ok_add [OF K] kernel_ok_add_err [OF K]
  by (cases "sys_epoll_add S (x_epoll (w_exec w)) fd \<lparr>ev_events = events, ev_data = d\<rparr> (w_kernel w)")
     (fastforce simp: epoll_add_def Let_def split: sum.splits)

lemma epoll_del_spec:
  assumes K: "kernel_ok reg S"
  shows "\<exists>k v. snd (epoll_del S fd w) = w\<lparr>w_exec := w_exec w\<lparr>x_events := v\<rparr>, w_kernel := k\<rparr> \<and>
    reg k = (reg (w_kernel w))(x_epoll (w_exec w) := (reg (w_kernel w) (x_epoll (w_exec w)))(fd := None))"
  using kernel_ok_del [OF K, of "x_epoll (w_exec w)" fd "w_kernel w"]
  by (cases "sys_epoll_del S (x_epoll (w_exec w)) fd (w_kernel w)")
     (fastforce simp: epoll_del_def Let_def split: sum.splits)

lemma wfw_next: "wfw E G w \<Longrightarrow> w_next w \<le> nx \<Longrightarrow> wfw E G (w\<lparr>w_next := nx\<rparr>)"
  unfolding wfw_def wfq_def by (auto intro: core_next)

lemma fd_drop_inv:
  assumes K: "kernel_ok reg S" and I: "winv reg E G w"
  shows "winv reg E G (fd_drop S i w)"
proof (cases "w_fds w i")
  case None
  with I show ?thesis by (simp add: fd_drop_def)
next
  case (Some f)
  obtain k v where d: "snd (epoll_del S (fd_inner f) w) = w\<lparr>w_exec := w_exec w\<lparr>x_events := v\<rparr>, w_kernel := k\<rparr>"
    and R: "reg k = (reg (w_kernel w))(x_epoll (w_exec w) :=
        (reg (w_kernel w) (x_epoll (w_exec w)))(fd_inner f := None))"
    using epoll_del_spec [OF K] by metis
  have drop: "fd_drop S i w = w\<lparr>w_exec := w_exec w\<lparr>x_events := v\<rparr>, w_kernel := k,
      w_ews := (w_ews w)(fd_ew f := None), w_fds := (w_fds w)(i := None)\<rparr>"
    using Some by (simp add: fd_drop_def fd_release_def d Let_def)
  have W: "ewf reg w" "wfw E G w" using I by (simp_all add: winv_def)
  have "ewf reg (fd_drop S i w)"
    using epoll_ok_drop [OF W(1) [unfolded ewf_def] Some] by (simp add: ewf_def drop R)
  with W(2) show ?thesis unfolding winv_def drop
    by (simp add: wfw_def wfq_def)
qed

lemma fd_new_inv:
  assumes K: "kernel_ok reg S" and I: "winv reg E G w"
  shows "winv reg E G (snd (fd_new S fd events w))"
proof -
  obtain z1 k1 where z1: "sys_getfl S fd (w_kernel w) = (z1, k1)" by force
  have R1: "reg k1 = reg (w_kernel w)" using kernel_ok_getfl [OF K, of fd "w_kernel w"] z1 by simp
  show ?thesis
  proof (cases z1)
    case (Inl e)
    with z1 winv_kernel_eq [OF I R1] show ?thesis by (simp add: fd_new_def)
  next
    case z1': (Inr flags)
    obtain z2 k2 where z2: "sys_setfl S fd (flags OR O_NONBLOCK) k1 = (z2, k2)" by force
    have R2: "reg k2 = reg (w_kernel w)"
      using kernel_ok_setfl [OF K, of fd "flags OR O_NONBLOCK" k1] z2 R1 by simp
    show ?thesis
    proof (cases z2)
      case (Inl e)
      with z1 z1' z2 winv_kernel_eq [OF I R2] show ?thesis by (simp add: fd_new_def)
    next
      case z2': (Inr u)
      let ?d = "w_next w"
      define w1 where "w1 = w\<lparr>w_kernel := k2, w_ews := (w_ews w)(?d \<mapsto> epoll_waker_new (events AND (EPOLLIN OR EPOLLOUT))),
                    w_next := Suc (Suc ?d)\<rparr>"
      obtain r w2 where e: "epoll_add S fd (events OR EPOLLET) ?d w1 = (r, w2)" by force
      obtain k v where w2: "w2 = w1\<lparr>w_exec := w_exec w1\<lparr>x_events := v\<rparr>, w_kernel := k\<rparr>"
        and R: "reg k = (if isl r then reg (w_kernel w1)
             else (reg (w_kernel w1))(x_epoll (w_exec w1) := (reg (w_kernel w1) (x_epoll (w_exec w1)))(fd \<mapsto> ?d)))"
        using epoll_add_spec [OF K e] by blast
      have W: "ewf reg w" "wfw E G w" using I by (simp_all add: winv_def)
      have d: "0 < ?d" using W(2) unfolding wfw_def wfq_def by (auto dest: core_pos)
      have new: "fd_new S fd events w = (case r of Inl e \<Rightarrow> (Inl e, fd_release S fd ?d w2)
          | Inr _ \<Rightarrow> (Inr (Suc ?d), w2\<lparr>w_fds := (w_fds w2)(Suc ?d \<mapsto> \<lparr>fd_inner = fd, fd_ew = ?d\<rparr>)\<rparr>))"
        using z1 z1' z2 z2' e by (simp add: fd_new_def Let_def w1_def)
      have W2: "core E Q (w_queue w2) (w_tasks w2) (w_handles w2) (w_next w2) (x_id (w_exec w2))" if "wfq E Q w" for Q
        using core_next [OF wfqD [OF that], of "Suc (Suc ?d)"] unfolding w2 w1_def by simp
      have x: "x_id (w_exec w2) = x_id (w_exec w)" unfolding w2 w1_def by simp
      show ?thesis
      proof (cases r)
        case (Inl e)
        obtain k' v' where w3: "snd (epoll_del S fd w2) = w2\<lparr>w_exec := w_exec w2\<lparr>x_events := v'\<rparr>, w_kernel := k'\<rparr>"
          and R': "reg k' = (reg (w_kernel w2))(x_epoll (w_exec w2) :=
              (reg (w_kernel w2) (x_epoll (w_exec w2)))(fd := None))"
          using epoll_del_spec [OF K] by metis
        have rel: "snd (fd_new S fd events w) = w2\<lparr>w_exec := w_exec w2\<lparr>x_events := v'\<rparr>, w_kernel := k',
            w_ews := (w_ews w2)(?d := None)\<rparr>"
          unfolding new Inl by (simp add: fd_release_def w3 Let_def)
        have "w_ews w ?d = None" using epoll_ok_fresh [OF W(1) [unfolded ewf_def], of ?d] by (cases "w_ews w ?d") auto
        then have "(w_ews w)(?d := None) = w_ews w" by (simp add: fun_upd_idem)
        moreover have "epoll_ok R' (w_ews w) (w_fds w) (Suc (Suc ?d))"
          if "R' \<subseteq>\<^sub>m reg (w_kernel w) (x_epoll (w_exec w))" for R'
          by (rule epoll_ok_mono [OF W(1) [unfolded ewf_def] that]) simp_all
        ultimately have "ewf reg (snd (fd_new S fd events w))"
          unfolding rel ewf_def using R R' R2 Inl by (simp add: w2 w1_def map_le_def)
        moreover have "wfw E G (snd (fd_new S fd events w))"
          using W(2) W2 x unfolding rel wfw_def wfq_def by auto
        ultimately show ?thesis by (simp add: winv_def)
      next
        case (Inr u')
        have add: "snd (fd_new S fd events w) = w2\<lparr>w_fds := (w_fds w2)(Suc ?d \<mapsto> \<lparr>fd_inner = fd, fd_ew = ?d\<rparr>)\<rparr>"
          unfolding new Inr by simp
        have "ewf reg (snd (fd_new S fd events w))"
          using epoll_ok_add [OF W(1) [unfolded ewf_def] d] R R2 Inr unfolding add ewf_def by (simp add: w2 w1_def)
        moreover have "wfw E G (snd (fd_new S fd events w))"
          using W(2) W2 x unfolding add wfw_def wfq_def by auto
        ultimately show ?thesis by (simp add: winv_def)
      qed
    qed
  qed
qed


lemma retry_preserves:
  assumes "retry_interrupted f s = Some (r, s')" and step: "\<And>s. P s (snd (f s))"
    and trans: "\<And>a b c. P a b \<Longrightarrow> P b c \<Longrightarrow> P a c"
  shows "P s s'"
proof -
  have "g = f \<longrightarrow> P s0 (snd y)" if "retry_interrupted g s0 = Some y" for g s0 y
  proof (rule retry_interrupted.raw_induct [of "\<lambda>g s y. g = f \<longrightarrow> P s (snd y)", OF _ that], intro impI)
    fix rec g s0 y
    assume IH: "\<And>g s y. rec g s = Some y \<Longrightarrow> g = f \<longrightarrow> P s (snd y)"
      and body: "(case g s0 of (Inl e, s') \<Rightarrow> if kind e = Interrupted then rec g s' else Some (Inl e, s')
          | (Inr v, s') \<Rightarrow> Some (Inr v, s')) = Some y" and g: "g = f"
    obtain z s1 where z: "f s0 = (z, s1)" by force
    then have s1: "P s0 s1" using step [of s0] by simp
    have "(case z of Inl e \<Rightarrow> if kind e = Interrupted then rec f s1 else Some (Inl e, s1)
        | Inr v \<Rightarrow> Some (Inr v, s1)) = Some y"
      using body z unfolding g by simp
    then show "P s0 (snd y)"
      using s1 IH [of f s1 y] trans [OF s1] by (auto split: sum.splits if_splits)
  qed
  with assms(1) show ?thesis by fastforce
qed

lemma poll_with_preserves:
  assumes "poll_with cf func ew s = Some (r, ew', s')" and "\<And>ev s. P s (snd (func ev s))"
    and "\<And>s. P s s" and "\<And>a b c. P a b \<Longrightarrow> P b c \<Longrightarrow> P a c"
  shows "P s s'"
  using assms(1,3) retry_preserves [of "func (ew_events ew)" s _ s' P, OF _ assms(2,4)]
  by (auto simp: poll_with_def split: if_splits option.splits sum.splits)

lemma fd_poll_step_inv:
  assumes K: "kernel_ok reg S" and I: "winv reg E G w" and ew: "w_ews w d = Some ew"
    and r: "poll_with cf (\<lambda>ev. sys_other S (oper ev)) ew (w_kernel w) = Some (ret, ew1, k1)"
  shows "winv reg E G (w\<lparr>w_ews := (w_ews w)(d \<mapsto> ew1), w_kernel := k1\<rparr>)"
proof -
  let ?P = "\<lambda>k k1. \<forall>ep. reg k1 ep \<subseteq>\<^sub>m reg k ep"
  have "?P (w_kernel w) k1"
  proof (rule poll_with_preserves [where P = ?P, OF r])
    show "?P s (snd (sys_other S (oper ev) s))" for ev s using kernel_ok_other [OF K] by simp
    show "?P s s" for s by simp
    show "?P x z" if "?P x y" "?P y z" for x y z using that map_le_trans by blast
  qed
  then show ?thesis using winv_kernel [OF inv_ews [OF I ew]] by simp
qed

lemma fd_poll_with_inv:
  assumes K: "kernel_ok reg S" and I: "winv reg E G w" and f: "w_fds w i = Some f"
  shows "safe (\<lambda>(r, w'). winv reg E G w') (fd_poll_with S (\<lambda>ev. sys_other S (oper ev)) f wk w)"
proof -
  obtain ew where ew: "w_ews w (fd_ew f) = Some ew"
    using epoll_ok_ew [of _ _ _ _ i f] f I unfolding winv_def ewf_def by blast
  show ?thesis
  proof (cases "poll_with (waker_clone_from wk w) (\<lambda>ev. sys_other S (oper ev)) ew (w_kernel w)")
    case None
    with ew show ?thesis by (simp add: fd_poll_with_def)
  next
    case (Some a)
    obtain ret ew1 k1 where a: "a = (ret, ew1, k1)" by (cases a)
    note I1 = fd_poll_step_inv [OF K I ew Some [unfolded a]]
    then show ?thesis using ew Some a
      by (auto simp: fd_poll_with_def Let_def intro!: safe_bind [OF wake_by_ref_inv [OF K I1]] split: control_flow.splits)
  qed
qed

section \<open>Spawning and handles\<close>

lemma put_task_inv:
  assumes I: "winv reg E G w" and k: "w_tasks w t = Some k" "t_priority k' = t_priority k"
    and bor: "t_borrowed k' \<Longrightarrow> 0 < E t"
  shows "winv reg E G (put_task t k' w)"
proof (rule winvE [OF I])
  fix Q assume Q: "wfq E Q w" "olds G Q (x_id (w_exec w))" "ewf reg w"
  have "core E Q (w_queue w) ((w_tasks w)(t \<mapsto> k')) (w_handles w) (w_next w) (x_id (w_exec w))"
    by (rule core_put_task [OF wfqD [OF Q(1)] k]) (erule bor)
  then have "wfw E G (put_task t k' w)"
    by (intro wfwI [of E Q]) (use Q(2) in \<open>simp_all add: wfq_def put_task_def\<close>)
  with Q(3) show ?thesis by (simp add: winv_def put_task_def)
qed

lemma handle_add_inv:
  assumes I: "winv reg (own t E) G w" and h: "w_handles w h = None" "0 < h" "h < w_next w"
    and bor: "\<And>k. w_tasks w t = Some k \<Longrightarrow> t_borrowed k \<Longrightarrow> 0 < E t"
  shows "winv reg E G (w\<lparr>w_handles := (w_handles w)(h \<mapsto> t)\<rparr>)"
proof (rule winvE [OF I])
  fix Q assume Q: "wfq (own t E) Q w" "olds G Q (x_id (w_exec w))" "ewf reg w"
  have "core E Q (w_queue w) (w_tasks w) ((w_handles w)(h \<mapsto> t)) (w_next w) (x_id (w_exec w))"
    by (rule core_handle_add [OF wfqD [OF Q(1)] h]) (erule bor)
  then have "wfw E G (w\<lparr>w_handles := (w_handles w)(h \<mapsto> t)\<rparr>)"
    by (intro wfwI [of E Q]) (use Q(2) in \<open>simp_all add: wfq_def\<close>)
  with Q(3) show ?thesis by (simp add: winv_def)
qed

lemma handle_remove_inv:
  assumes I: "winv reg E G w" and h: "w_handles w h = Some t"
  shows "winv reg (own t E) G (w\<lparr>w_handles := (w_handles w)(h := None)\<rparr>)"
proof (rule winvE [OF I])
  fix Q assume Q: "wfq E Q w" "olds G Q (x_id (w_exec w))" "ewf reg w"
  have "wfw (own t E) G (w\<lparr>w_handles := (w_handles w)(h := None)\<rparr>)"
    using core_handle_remove [OF wfqD [OF Q(1)] h] by (intro wfwI [of _ Q]) (use Q(2) in \<open>simp_all add: wfq_def\<close>)
  with Q(3) show ?thesis by (simp add: winv_def)
qed

lemma spawn_task_inv:
  assumes I: "winv reg E G w"
  shows "safe (\<lambda>(h, w'). winv reg E G w') (spawn_task f p md w)"
proof (rule winvE [OF I])
  fix Q assume Q: "wfq E Q w" "olds G Q (x_id (w_exec w))" "ewf reg w"
  let ?t = "w_next w" and ?k = "executor_task_new (x_pipe_wr (w_exec w)) f p md"
  let ?w1 = "w\<lparr>w_queue := entry_alloc (TEntry ?t) (w_queue w),
                 w_tasks := (w_tasks w)(?t \<mapsto> ?k), w_next := Suc (Suc ?t)\<rparr>"
  have "core (own ?t E) Q (w_queue ?w1) (w_tasks ?w1) (w_handles ?w1) (w_next ?w1) (x_id (w_exec ?w1))"
    using core_alloc_task [OF wfqD [OF Q(1)], of ?t "Suc (Suc ?t)" ?k] by (simp add: executor_task_new_def)
  then have "wfw (own ?t E) G ?w1" by (intro wfwI [of _ Q]) (use Q(2) in \<open>simp_all add: wfq_def\<close>)
  moreover have "ewf reg ?w1" using epoll_ok_mono [OF Q(3) [unfolded ewf_def]] by (simp add: ewf_def)
  ultimately have I1: "winv reg (own ?t E) G ?w1" by (simp add: winv_def)
  have "0 < strong (w_queue ?w1) (TEntry ?t)" by (rule wf_count [OF winv_wfw [OF I1]])
  from clone_inv [OF I1 this]
  have I2: "winv reg (own ?t (own ?t E)) G (arc_clone ?t ?w1)" .
  have nb: "\<not> t_borrowed ?k" "\<not> t_has_completed ?k" by (simp_all add: executor_task_new_def)
  have h: "w_handles w (Suc ?t) = None"
    using core_fresh [OF wfqD [OF Q(1)], of "Suc ?t"] by (cases "w_handles w (Suc ?t)") auto
  have T: "w_tasks (arc_clone ?t ?w1) ?t = Some ?k" by (simp add: arc_clone_def)
  have "safe (\<lambda>w'. winv reg (own ?t E) G w' \<and> (\<exists>q'. w' = (arc_clone ?t ?w1)\<lparr>w_queue := q'\<rparr>))
      (enqueue ?t (arc_clone ?t ?w1))"
    by (rule enqueue_queue_inv [OF I2 T]) (use nb in auto)
  then have "safe (\<lambda>(h, w'). winv reg E G w') (bind_res (enqueue ?t (arc_clone ?t ?w1))
      (\<lambda>w2. Ok (Suc ?t, w2\<lparr>w_handles := (w_handles w2)(Suc ?t \<mapsto> ?t)\<rparr>)))"
  proof (rule safe_bind, elim conjE exE)
    fix w2 q2 assume w2: "winv reg (own ?t E) G w2" "w2 = (arc_clone ?t ?w1)\<lparr>w_queue := q2\<rparr>"
    have f: "w_handles w2 (Suc ?t) = None" "Suc ?t < w_next w2"
      "\<And>k. w_tasks w2 ?t = Some k \<Longrightarrow> t_borrowed k \<Longrightarrow> 0 < E ?t"
      using h nb by (auto simp: w2(2) arc_clone_def)
    from w2(1) have "winv reg E G (w2\<lparr>w_handles := (w_handles w2)(Suc ?t \<mapsto> ?t)\<rparr>)"
      by (rule handle_add_inv) (use f in auto)
    then show "safe (\<lambda>(h, w'). winv reg E G w') (Ok (Suc ?t, w2\<lparr>w_handles := (w_handles w2)(Suc ?t \<mapsto> ?t)\<rparr>))"
      by simp
  qed
  then show ?thesis by (simp add: spawn_task_def Let_def)
qed

lemma handle_task:
  assumes I: "winv reg E G w" and h: "w_handles w h = Some t"
  obtains k where "w_tasks w t = Some k"
  using winv_wfw [OF I] core_handle_live(1) [OF wfqD, of E _ w h t] h by (auto elim!: wfwE)

lemma handle_result_inv:
  assumes I: "winv reg E G w" and h: "w_handles w h = Some t"
  shows "safe (\<lambda>(r, w'). winv reg E G w' \<and> w_handles w' = w_handles w) (handle_result t w)"
proof -
  obtain k where k: "w_tasks w t = Some k" using handle_task [OF I h] .
  then show ?thesis
    using put_task_inv [OF I k, of "k\<lparr>t_output := None\<rparr>"] inv_borrowed [OF I k]
    by (simp add: handle_result_def get_task_def put_task_def)
qed

lemma handle_poll_inv:
  assumes I: "winv reg E G w" and h: "w_handles w h = Some t"
  shows "safe (\<lambda>(r, w'). winv reg E G w') (handle_poll t wk w)"
  unfolding handle_poll_def
proof (rule safe_bind [OF handle_result_inv [OF I h]], clarify)
  fix r and w1 assume w1: "winv reg E G w1" "w_handles w1 = w_handles w"
  obtain k where k: "w_tasks w1 t = Some k" using handle_task [OF w1(1), of h] w1(2) h by metis
  show "safe (\<lambda>(r, w'). winv reg E G w') (case r of
     Some v \<Rightarrow> Ok (Ready v, w1)
   | None \<Rightarrow> bind_res (get_task t w1) (\<lambda>k.
       Ok (Pending, put_task t (k\<lparr>t_handle_waker := waker_clone wk w1\<rparr>) w1)))"
    using k w1 put_task_inv [OF w1(1) k, of "k\<lparr>t_handle_waker := waker_clone wk w1\<rparr>"] inv_borrowed [OF w1(1) k]
    by (simp add: get_task_def split: option.splits)
qed

lemma handle_abort_inv:
  assumes I: "winv reg E G w" and h: "w_handles w h = Some t"
  shows "safe (winv reg E G) (handle_abort t w)"
proof (rule winvE [OF I])
  fix Q assume Q: "wfq E Q w" "olds G Q (x_id (w_exec w))" "ewf reg w"
  obtain q' where q': "abort_task t (arc_clone t w) = Ok (w\<lparr>w_queue := q'\<rparr>)"
    "wfq E (qremove (TEntry t) Q) (w\<lparr>w_queue := q'\<rparr>)"
    using abort_wfq [OF Q(1) h] .
  have "wfw E G (w\<lparr>w_queue := q'\<rparr>)" by (rule wfwI [OF q'(2)]) (use Q olds_qremove in simp)
  with Q(3) q'(1) show ?thesis by (simp add: handle_abort_def winv_def)
qed

end
