(* ===== verification/Epox_Calls.thy ===== *)
theory Epox_Calls
  imports Epox_Safety
begin

text \<open>
  The contract between the scheduler and the semantics of the calls that user code makes.
  The locale \<open>call_semantics\<close> assumes that a call keeps the invariant and is free of
  undefined behaviour; the interpreter, the destruction of tasks and executors, \<open>run_task\<close>
  and the scheduler loops then do the same, whatever the user code. \<open>do_call\<close>, which is
  built from these very functions, satisfies the contract with any fuel.
\<close>

lemma highest_priority_inv:
  assumes I: "winv reg E G w"
  shows "safe (\<lambda>(r, w'). case r of
      None \<Rightarrow> winv reg E G w'
    | Some e \<Rightarrow> \<exists>t. e = TEntry t \<and> winv reg (own t E) G w' \<and> w_tasks w' = w_tasks w) (highest_priority_runnable_task w)"
proof (rule winvE [OF I])
  fix Q assume Q: "wfq E Q w" "olds G Q (x_id (w_exec w))" "ewf reg w"
  show ?thesis
  proof (cases "runnable Q w")
    case Nil
    with highest_priority_none [OF Q(1)] I show ?thesis by simp
  next
    case (Cons e es)
    obtain t q' n where t: "e = TEntry t" "highest_priority_runnable_task w = Ok (Some (TEntry t), w\<lparr>w_queue := q'\<rparr>)"
      "wfq (own t E) (qtail (head_of n w) Q) (w\<lparr>w_queue := q'\<rparr>)"
      using highest_priority_some [OF Q(1) Cons] by metis
    have "wfw (own t E) G (w\<lparr>w_queue := q'\<rparr>)"
      by (rule wfwI [OF t(3)]) (use Q(2) olds_qtail in simp)
    with Q(3) t(2) show ?thesis by (simp add: winv_def)
  qed
qed

lemma task_is_queued_safe:
  assumes I: "winv reg (own t E) G w"
  shows "\<exists>b. task_is_queued t w = Ok b"
proof (rule winvE [OF I])
  fix Q assume Q: "wfq (own t E) Q w"
  obtain k where "w_tasks w t = Some k" using own_task [OF I] .
  then have "TEntry t \<in> dom (links (w_queue w))"
    using core_entry_live [OF wfqD [OF Q]] by blast
  then show ?thesis by (auto simp: task_is_queued_def entry_is_queued_def deref_def)
qed

lemma sleepq_is_empty_safe:
  assumes I: "winv reg E G w"
  shows "\<exists>b. sleepq_is_empty w = Ok b"
proof (rule winvE [OF I])
  fix Q assume Q: "wfq E Q w"
  have "head_of Sleepq w \<in> dom (links (w_queue w))"
    using wfq_head(1) [OF Q] core_links [OF wfqD [OF Q]] by blast
  then show ?thesis by (auto simp: sleepq_is_empty_def queue_is_empty_def deref_def)
qed

lemma pop_old_inv:
  assumes I: "winv reg E G w" and h: "h \<in> fst G"
  shows "safe (\<lambda>(r, q). case r of
      None \<Rightarrow> winv reg E (fst G, insert h (snd G)) (w\<lparr>w_queue := q\<rparr>)
    | Some e \<Rightarrow> \<exists>t. e = TEntry t \<and> winv reg (own t E) G (w\<lparr>w_queue := q\<rparr>)) (pop h (w_queue w))"
proof (rule winvE [OF I])
  fix Q assume Q: "wfq E Q w" "olds G Q (x_id (w_exec w))" "ewf reg w"
  obtain xs where xs: "Q h = Some xs" using Q(2) h unfolding olds_def by blast
  show ?thesis
  proof (cases xs)
    case Nil
    have "olds (fst G, insert h (snd G)) Q (x_id (w_exec w))"
      using Q(2) xs h Nil unfolding olds_def by auto
    with Q(1) have "wfw E (fst G, insert h (snd G)) w" by (intro wfwI)
    with Q(3) show ?thesis
      using iq.pop_empty_law [OF core_repr [OF wfqD [OF Q(1)]]] xs Nil by (simp add: winv_def)
  next
    case (Cons e es)
    obtain t q' where t: "pop h (w_queue w) = Ok (Some (TEntry t), q')"
      "wfq (own t E) (qtail h Q) (w\<lparr>w_queue := q'\<rparr>)"
      using pop_wfq [OF Q(1), of h e es] xs Cons by blast
    have "wfw (own t E) G (w\<lparr>w_queue := q'\<rparr>)"
      by (rule wfwI [OF t(2)]) (use Q(2) olds_qtail in simp)
    with Q(3) t(1) show ?thesis by (simp add: winv_def)
  qed
qed

text \<open>Freeing the heads of an executor whose queues are drained.\<close>

lemma core_free_head:
  assumes C: "core E Q q T H nx x" and h: "Q (QHead y n) = Some []" and x: "y \<noteq> x"
  shows "core E (Q(QHead y n := None)) (entry_free (QHead y n) q) T H nx x"
proof (rule coreI)
  let ?Q = "Q(QHead y n := None)"
  have qd: "queued ?Q e \<longleftrightarrow> queued Q e" for e
    using h unfolding queued_iff fun_upd_apply
    by (metis empty_iff list.set(1) option.distinct(1) option.inject)
  show "repr (entry_free (QHead y n) q) ?Q" by (rule free_head_repr [OF core_repr [OF C] h])
  show "\<exists>y n. a = QHead y n \<and> y < nx" if "a \<in> dom ?Q" for a
    using that core_heads [OF C, of a] by (auto split: if_splits)
  show "QHead x m \<in> dom ?Q" for m using core_head [OF C, of m] x by auto
  have "QHead y n \<notin> TEntry ` dom T" by auto
  then show "dom (links (entry_free (QHead y n) q)) = dom ?Q \<union> TEntry ` dom T"
    using core_links [OF C] by (auto simp: entry_free_def)
  show "strong (entry_free (QHead y n) q) (TEntry t) = refs E ?Q H t" for t
    using core_count [OF C, of t] by (simp add: entry_free_def refs_def qd)
  show "t \<in> dom T \<longleftrightarrow> 0 < strong (entry_free (QHead y n) q) (TEntry t)" for t
    using core_live [OF C, of t] by (simp add: entry_free_def)
  show "t_priority k = p" if "?Q (QHead z (runq_name p)) = Some ts" "TEntry t \<in> set ts" "T t = Some k" for z p ts t k
    using that core_priority [OF C, of z p ts t k] by (auto split: if_splits)
qed (fact core_finite [OF C] core_borrowed [OF C] core_fresh [OF C] core_pos [OF C])+

lemma olds_cong: "(\<And>h. h \<in> fst G \<union> snd G \<Longrightarrow> Q' h = Q h) \<Longrightarrow> olds G Q x \<Longrightarrow> olds G Q' x"
  unfolding olds_def domIff by simp

lemma free_queues_inv:
  assumes I: "winv reg E (L \<union> fst G, range (QHead y) \<union> snd G) w" and G: "\<And>n. QHead y n \<notin> fst G \<union> snd G"
  shows "winv reg E G (w\<lparr>w_queue := free_queues y (w_queue w)\<rparr>)"
proof (rule winvE [OF I])
  let ?x = "x_id (w_exec w)"
  fix Q assume Q: "wfq E Q w" "olds (L \<union> fst G, range (QHead y) \<union> snd G) Q ?x" "ewf reg w"
  have y: "y \<noteq> ?x" using Q(2) unfolding olds_def by auto
  have e: "Q (QHead y n) = Some []" for n using Q(2) unfolding olds_def by auto
  let ?Q = "Q(QHead y RunqHigh := None, QHead y RunqNormal := None, QHead y RunqLow := None, QHead y Sleepq := None)"
  have "core E ?Q (free_queues y (w_queue w)) (w_tasks w) (w_handles w) (w_next w) ?x"
    unfolding free_queues_def
    by (intro core_free_head wfqD [OF Q(1)]) (simp_all add: e y)
  moreover have "?Q h = Q h" if "h \<in> fst G \<union> snd G" for h
    using G that by auto
  then have "olds G ?Q ?x"
    by (rule olds_cong) (use Q(2) in \<open>auto simp: olds_def\<close>)
  ultimately have "wfw E G (w\<lparr>w_queue := free_queues y (w_queue w)\<rparr>)"
    by (intro wfwI [of E ?Q]) (simp_all add: wfq_def)
  with Q(3) show ?thesis by (simp add: winv_def)
qed

text \<open>Dropping the last reference to a task.\<close>

lemma last_ref_inv:
  assumes I: "winv reg (own t E) G w" and last: "\<not> 1 < strong (w_queue w) (TEntry t)"
  obtains q' where "arc_dec (TEntry t) (w_queue w) = Ok q'" "strong q' (TEntry t) = 0"
    "winv reg E G (w\<lparr>w_queue := entry_free (TEntry t) q', w_tasks := (w_tasks w)(t := None)\<rparr>)"
proof (rule winvE [OF I])
  have one: "strong (w_queue w) (TEntry t) = 1" using last wf_count [OF winv_wfw [OF I]] by simp
  have Et: "E t = 0" using one wf_count2 [OF winv_wfw [OF I]] by fastforce
  fix Q assume Q: "wfq (own t E) Q w" "olds G Q (x_id (w_exec w))" "ewf reg w"
  obtain q' where q': "arc_dec (TEntry t) (w_queue w) = Ok q'" "strong q' (TEntry t) = 0"
    "core E Q (entry_free (TEntry t) q') ((w_tasks w)(t := None)) (w_handles w) (w_next w) (x_id (w_exec w))"
    using core_free_task [OF wfqD [OF Q(1)] one Et] by blast
  let ?w = "w\<lparr>w_queue := entry_free (TEntry t) q', w_tasks := (w_tasks w)(t := None)\<rparr>"
  have "wfw E G ?w" by (rule wfwI [of E Q]) (use q'(3) Q(2) in \<open>simp_all add: wfq_def\<close>)
  then have "winv reg E G ?w" using Q(3) by (simp add: winv_def)
  with q'(1,2) show ?thesis by (rule that)
qed

lemma interp_bind_prog:
  "interp cs (bind_prog p g) w = bind_res (interp cs p w) (\<lambda>(r, w1). interp cs (g r) w1)"
proof (induction p arbitrary: w)
  case (Call c k)
  show ?case
  proof (cases "cs c w")
    case (Ok y)
    then show ?thesis using Call [of "k (fst y)" "snd y"] by (simp add: split_def)
  qed simp
qed simp_all

section \<open>The contract\<close>

locale call_semantics =
  fixes cs :: "('k, 'f, 'v) calls" and reg :: "'k registrations" and S :: "'k kernel"
  assumes call_law: "kernel_ok reg S \<Longrightarrow> winv reg E G w \<Longrightarrow> safe (\<lambda>(x, w'). winv reg E G w') (cs c w)"
begin

lemma interp_inv:
  assumes "kernel_ok reg S" "winv reg E G w"
  shows "safe (\<lambda>(r, w'). winv reg E G w') (interp cs p w)"
  using assms(2)
proof (induction p arbitrary: w)
  case (Call c k)
  show ?case
    unfolding interp.simps
  proof (rule safe_bind [OF call_law [OF assms(1) Call.prems]], clarify)
    fix x and w1 :: "('k, 'f, 'v) sched" assume "winv reg E G w1"
    then show "safe (\<lambda>(r, w'). winv reg E G w') (interp cs (k x) w1)" by (rule Call.IH [rotated]) simp
  qed
qed simp_all

lemma poll_future_inv:
  assumes K: "kernel_ok reg S" and I: "winv reg E G w"
  shows "safe (\<lambda>(r, w'). winv reg E G w') (poll_future cs u fut wk w)"
proof (cases fut)
  case (User f)
  then show ?thesis
    by (auto simp: poll_future_def intro!: safe_bind [OF interp_inv [OF K I]])
next
  case (Checked f)
  have "safe (\<lambda>(r, w'). winv reg E G w') (bind_res (interp cs (u_drop u f1) w1) (\<lambda>(_, w2).
      Ok ((CheckedDone, Ready v), if u_is_err u v then shutdown_exec w2 else w2)))"
    if "winv reg E G w1" for f1 v w1
    by (rule safe_bind [OF interp_inv [OF K that]]) (auto intro: inv_shutdown)
  then show ?thesis
    unfolding poll_future_def Checked task_future.case
    by (intro safe_bind [OF interp_inv [OF K I]]) (auto split: poll.splits)
next
  case CheckedDone
  then show ?thesis by (simp add: poll_future_def)
qed

lemma drop_task_inv:
  assumes K: "kernel_ok reg S" and I: "winv reg (own t E) G w"
    and bor: "\<And>k. w_tasks w t = Some k \<Longrightarrow> t_borrowed k \<Longrightarrow> 0 < E t"
  shows "safe (winv reg E G) (drop_task cs u t w)"
proof (cases "1 < strong (w_queue w) (TEntry t)")
  case True
  from forget_inv [OF I True bor] show ?thesis
    unfolding drop_task_def
    using True by (auto simp: arc_forget_def with_queue_def arc_dec_def)
next
  case False
  obtain k where k: "w_tasks w t = Some k" using own_task [OF I] .
  obtain q' where q': "arc_dec (TEntry t) (w_queue w) = Ok q'" "strong q' (TEntry t) = 0"
    and I1: "winv reg E G (w\<lparr>w_queue := entry_free (TEntry t) q', w_tasks := (w_tasks w)(t := None)\<rparr>)"
    using last_ref_inv [OF I False] .
  let ?w = "w\<lparr>w_queue := entry_free (TEntry t) q', w_tasks := (w_tasks w)(t := None)\<rparr>"
  have "drop_task cs u t w = bind_res (interp cs (drop_future u (t_future k)) ?w) (\<lambda>(_, w3). Ok w3)"
    by (simp add: drop_task_def arc_forget_def with_queue_def q' get_task_def k)
  then show ?thesis by (auto intro!: safe_bind [OF interp_inv [OF K I1]])
qed

lemma run_task_inv:
  assumes K: "kernel_ok reg S" and I: "winv reg (own t E) G w"
  shows "safe (winv reg E G) (run_task cs S u t w)"
proof -
  obtain k where k: "w_tasks w t = Some k" using own_task [OF I] .
  show ?thesis
  proof (cases "t_borrowed k")
    case True
    then show ?thesis using k by (simp add: run_task_def get_task_def)
  next
    case False
    have "winv reg (own t E) G (put_task t (k\<lparr>t_borrowed := True\<rparr>) w)"
      by (rule put_task_inv [OF I k]) simp_all
    note P = poll_future_inv [OF K this, of u "t_future k" "TaskWaker t"]
    show ?thesis
      unfolding run_task_def get_task_Ok [OF k] bind_res.simps if_not_P [OF False]
    proof (rule safe_bind [OF P], clarify)
      fix f1 r and w1 :: "('k, 'f, 'v) sched" assume I1: "winv reg (own t E) G w1"
      obtain k1 where k1: "w_tasks w1 t = Some k1" using own_task [OF I1] .
      show "safe (winv reg E G) (bind_res (get_task t w1) (\<lambda>k1. case r of
          Pending \<Rightarrow>
            let w2 = put_task t (k1\<lparr>t_future := f1, t_borrowed := False\<rparr>) w1
            in bind_res (task_is_queued t w2) (\<lambda>q.
                 if \<not> q then sleep_task t w2 else drop_task cs u t w2)
        | Ready v \<Rightarrow>
            let w2 = put_task t (k1\<lparr>t_future := f1, t_output := Some v, t_handle_waker := NoopWaker\<rparr>) w1
            in bind_res (wake_by_ref S (t_handle_waker k1) w2) (\<lambda>w3.
               bind_res (get_task t w3) (\<lambda>k3.
                 drop_task cs u t (put_task t (k3\<lparr>t_has_completed := True, t_borrowed := False\<rparr>) w3)))))"
      proof (cases r)
        case Pending
        let ?k2 = "k1\<lparr>t_future := f1, t_borrowed := False\<rparr>"
        let ?w2 = "put_task t ?k2 w1"
        have I2: "winv reg (own t E) G ?w2" by (rule put_task_inv [OF I1 k1]) simp_all
        have k2: "w_tasks ?w2 t = Some ?k2" by (simp add: put_task_def)
        obtain b where b: "task_is_queued t ?w2 = Ok b" using task_is_queued_safe [OF I2] by blast
        have "safe (winv reg E G) (sleep_task t ?w2)" by (rule sleep_inv [OF I2 k2]) simp
        moreover have "safe (winv reg E G) (drop_task cs u t ?w2)"
          by (rule drop_task_inv [OF K I2]) (use k2 in auto)
        ultimately show ?thesis using Pending b k1 by (simp add: get_task_def Let_def)
      next
        case (Ready v)
        let ?w2 = "put_task t (k1\<lparr>t_future := f1, t_output := Some v, t_handle_waker := NoopWaker\<rparr>) w1"
        have I2: "winv reg (own t E) G ?w2" by (rule put_task_inv [OF I1 k1]) simp_all
        have "safe (winv reg E G) (bind_res (wake_by_ref S (t_handle_waker k1) ?w2) (\<lambda>w3.
               bind_res (get_task t w3) (\<lambda>k3.
                 drop_task cs u t (put_task t (k3\<lparr>t_has_completed := True, t_borrowed := False\<rparr>) w3))))"
        proof (rule safe_bind [OF wake_by_ref_inv [OF K I2]])
          fix w3 :: "('k, 'f, 'v) sched" assume I3: "winv reg (own t E) G w3"
          obtain k3 where k3: "w_tasks w3 t = Some k3" using own_task [OF I3] .
          let ?k4 = "k3\<lparr>t_has_completed := True, t_borrowed := False\<rparr>"
          have I4: "winv reg (own t E) G (put_task t ?k4 w3)" by (rule put_task_inv [OF I3 k3]) simp_all
          have "safe (winv reg E G) (drop_task cs u t (put_task t ?k4 w3))"
            by (rule drop_task_inv [OF K I4]) (auto simp: put_task_def)
          then show "safe (winv reg E G) (bind_res (get_task t w3) (\<lambda>k3.
              drop_task cs u t (put_task t (k3\<lparr>t_has_completed := True, t_borrowed := False\<rparr>) w3)))"
            using k3 by (simp add: get_task_def)
        qed
        then show ?thesis using Ready k1 by (simp add: get_task_def Let_def)
      qed
    qed
  qed
qed

lemma run_entry_inv:
  assumes K: "kernel_ok reg S" and I: "winv reg (own t E) G w"
  shows "safe (winv reg E G) (run_entry cs S u (TEntry t) w)"
  using run_task_inv [OF K I] by (simp add: run_entry_def)

text \<open>Draining the queues of an executor that has been replaced, and dropping it.\<close>

lemma drain_queue_inv:
  assumes K: "kernel_ok reg S" and I: "winv reg E G w" and h: "h \<in> fst G"
  shows "safe (winv reg E (fst G, insert h (snd G))) (drain_queue cs u n h w)"
  using I
proof (induction n arbitrary: w)
  case 0
  then show ?case by simp
next
  case (Suc n)
  show ?case
    unfolding drain_queue.simps
  proof (rule safe_bind [OF pop_old_inv [OF Suc.prems h]], clarify)
    fix r q
    assume r: "case r of None \<Rightarrow> winv reg E (fst G, insert h (snd G)) (w\<lparr>w_queue := q\<rparr>)
      | Some e \<Rightarrow> \<exists>t. e = TEntry t \<and> winv reg (own t E) G (w\<lparr>w_queue := q\<rparr>)"
    show "safe (winv reg E (fst G, insert h (snd G))) (case r of
        None \<Rightarrow> Ok (w\<lparr>w_queue := q\<rparr>)
      | Some (QHead _ _) \<Rightarrow> Fault UB
      | Some (TEntry t) \<Rightarrow> bind_res (drop_task cs u t (w\<lparr>w_queue := q\<rparr>)) (drain_queue cs u n h))"
    proof (cases r)
      case None
      with r show ?thesis by simp
    next
      case (Some e)
      with r obtain t where t: "e = TEntry t" "winv reg (own t E) G (w\<lparr>w_queue := q\<rparr>)" by auto
      have "safe (winv reg E G) (drop_task cs u t (w\<lparr>w_queue := q\<rparr>))"
        by (rule drop_task_inv [OF K t(2)]) (use inv_borrowed [OF Suc.prems] in simp)
      from safe_bind [OF this Suc.IH] show ?thesis using Some t(1) by simp
    qed
  qed
qed

lemma drop_executor_inv:
  assumes K: "kernel_ok reg S" and I: "winv reg E (with_old (x_id old) G) w"
    and G: "\<And>n. QHead (x_id old) n \<notin> fst G \<union> snd G"
  shows "safe (winv reg E G) (drop_executor cs S u n old w)"
proof -
  let ?y = "x_id old" and ?L = "range (QHead (x_id old)) \<union> fst G"
  let ?H = "QHead ?y"
  have I0: "winv reg E (?L, snd G) (w\<lparr>w_kernel := sys_close S (x_epoll old) (w_kernel w)\<rparr>)"
    by (rule winv_kernel [OF I [unfolded with_old_def]]) (rule kernel_ok_close [OF K])
  note D = drain_queue_inv [OF K, where u = u and n = n, simplified]
  show ?thesis
    unfolding drop_executor_def
  proof (rule safe_bind [OF D [OF I0, of "?H RunqHigh"]], simp)
    fix w1 :: "('k, 'f, 'v) sched" assume I1: "winv reg E (fst (?L, snd G), insert (?H RunqHigh) (snd (?L, snd G))) w1"
    show "safe (winv reg E G) (bind_res (drain_queue cs u n (?H RunqNormal) w1) (\<lambda>w2.
        bind_res (drain_queue cs u n (?H RunqLow) w2) (\<lambda>w3.
        bind_res (drain_queue cs u n (?H Sleepq) w3) (\<lambda>w4.
          Ok (w4\<lparr>w_kernel := sys_close S (x_pipe_wr old) (sys_close S (x_pipe_rd old) (w_kernel w4)),
                 w_queue := free_queues ?y (w_queue w4)\<rparr>)))))"
    proof (rule safe_bind [OF D [OF I1, of "?H RunqNormal"]], simp)
      fix w2 :: "('k, 'f, 'v) sched"
      let ?G2 = "(?L, {?H RunqNormal, ?H RunqHigh} \<union> snd G)"
      assume "winv reg E (fst (fst (?L, snd G), insert (?H RunqHigh) (snd (?L, snd G))),
        insert (?H RunqNormal) (snd (fst (?L, snd G), insert (?H RunqHigh) (snd (?L, snd G))))) w2"
      then have I2: "winv reg E ?G2 w2" by simp
      show "safe (winv reg E G) (bind_res (drain_queue cs u n (?H RunqLow) w2) (\<lambda>w3.
        bind_res (drain_queue cs u n (?H Sleepq) w3) (\<lambda>w4.
          Ok (w4\<lparr>w_kernel := sys_close S (x_pipe_wr old) (sys_close S (x_pipe_rd old) (w_kernel w4)),
                 w_queue := free_queues ?y (w_queue w4)\<rparr>))))"
      proof (rule safe_bind [OF D [OF I2, of "?H RunqLow"]], simp)
        fix w3 :: "('k, 'f, 'v) sched" assume "winv reg E (fst ?G2, insert (?H RunqLow) (snd ?G2)) w3"
        then have I3: "winv reg E (?L, {?H RunqLow, ?H RunqNormal, ?H RunqHigh} \<union> snd G) w3" by simp
        show "safe (winv reg E G) (bind_res (drain_queue cs u n (?H Sleepq) w3) (\<lambda>w4.
          Ok (w4\<lparr>w_kernel := sys_close S (x_pipe_wr old) (sys_close S (x_pipe_rd old) (w_kernel w4)),
                 w_queue := free_queues ?y (w_queue w4)\<rparr>)))"
        proof (rule safe_bind [OF D [OF I3, of "?H Sleepq"]], simp)
          fix w4 :: "('k, 'f, 'v) sched" assume "winv reg E (fst (?L, {?H RunqLow, ?H RunqNormal, ?H RunqHigh} \<union> snd G),
              insert (?H Sleepq) (snd (?L, {?H RunqLow, ?H RunqNormal, ?H RunqHigh} \<union> snd G))) w4"
          then have "winv reg E (?L, range ?H \<union> snd G) w4"
            unfolding range_QHead by (simp add: insert_commute)
          moreover have "reg (sys_close S (x_pipe_wr old) (sys_close S (x_pipe_rd old) (w_kernel w4))) ep
              \<subseteq>\<^sub>m reg (w_kernel w4) ep" for ep
            using kernel_ok_close [OF K] map_le_trans by blast
          ultimately have "winv reg E (?L, range ?H \<union> snd G)
              (w4\<lparr>w_kernel := sys_close S (x_pipe_wr old) (sys_close S (x_pipe_rd old) (w_kernel w4))\<rparr>)"
            by (rule winv_kernel)
          from free_queues_inv [OF this G]
          show "safe (winv reg E G) (Ok (w4\<lparr>w_kernel := sys_close S (x_pipe_wr old) (sys_close S (x_pipe_rd old) (w_kernel w4)),
                 w_queue := free_queues ?y (w_queue w4)\<rparr>))" by simp
        qed
      qed
    qed
  qed
qed

text \<open>The loops.\<close>

lemma run_loop_inv:
  assumes K: "kernel_ok reg S" and I: "winv reg E G w"
  shows "safe (\<lambda>(r, w'). winv reg E G w') (run_loop cs S u n w)"
  using I
proof (induction n arbitrary: w)
  case 0
  then show ?case by simp
next
  case (Suc n)
  have wait: "safe (\<lambda>(r, w'). winv reg E G w') (bind_res (epoll_wait S tmo w1) (\<lambda>(z, w2). case z of
      Inl err \<Rightarrow> Ok (Inl err, w2) | Inr _ \<Rightarrow> run_loop cs S u n w2))"
    if "winv reg E G w1" for w1 tmo
    by (rule safe_bind [OF epoll_wait_inv [OF K that]]) (auto intro: Suc.IH split: sum.split)
  show ?case
    unfolding run_loop.simps
  proof (rule safe_bind [OF highest_priority_inv [OF Suc.prems]], clarify)
    fix r and w1 :: "('k, 'f, 'v) sched"
    assume r: "case r of None \<Rightarrow> winv reg E G w1
      | Some e \<Rightarrow> \<exists>t. e = TEntry t \<and> winv reg (own t E) G w1 \<and> w_tasks w1 = w_tasks w"
    show "safe (\<lambda>(r, w'). winv reg E G w') (case r of
       None \<Rightarrow> bind_res (sleepq_is_empty w1) (\<lambda>empty.
           if empty then Ok (Inr (), w1)
           else bind_res (epoll_wait S TimeoutNone w1) (\<lambda>(z, w2). case z of
               Inl err \<Rightarrow> Ok (Inl err, w2) | Inr _ \<Rightarrow> run_loop cs S u n w2))
     | Some e \<Rightarrow> bind_res (run_entry cs S u e w1) (\<lambda>w2.
           if x_shutdown (w_exec w2) then Ok (Inr (), w2)
           else bind_res (epoll_wait S TimeoutZero w2) (\<lambda>(z, w3). case z of
               Inl err \<Rightarrow> Ok (Inl err, w3) | Inr _ \<Rightarrow> run_loop cs S u n w3)))"
    proof (cases r)
      case None
      with r have I1: "winv reg E G w1" by simp
      with sleepq_is_empty_safe [OF I1] wait [OF I1] None show ?thesis by auto
    next
      case (Some e)
      with r obtain t where "e = TEntry t" "winv reg (own t E) G w1" by auto
      then have "safe (winv reg E G) (run_entry cs S u e w1)" using run_entry_inv [OF K] by simp
      then show ?thesis unfolding Some option.case
        by (rule safe_bind) (simp add: wait)
    qed
  qed
qed

lemma run_inv:
  assumes K: "kernel_ok reg S" and I: "winv reg E G w"
  shows "safe (\<lambda>(r, w'). winv reg E G w') (run cs S u n w)"
  unfolding run_def
proof (rule safe_bind [OF run_loop_inv [OF K I]], clarify)
  fix r and w1 :: "('k, 'f, 'v) sched" assume I1: "winv reg E G w1"
  have G: "QHead (x_id (w_exec w1)) n \<notin> fst G \<union> snd G" for n
    using I1 by (elim winvE) (unfold olds_def, blast)
  have "safe (\<lambda>(r, w'). winv reg E G w') (bind_res (executor_new S w1) (\<lambda>(x, w2). case x of
       Inl err \<Rightarrow> Ok (Inl err, w2)
     | Inr new \<Rightarrow> bind_res (drop_executor cs S u n (w_exec w2) (w2\<lparr>w_exec := new\<rparr>)) (\<lambda>w3. Ok (Inr (), w3))))"
  proof (rule safe_bind [OF executor_new_inv [OF K I1]], clarify)
    fix x and w2 :: "('k, 'f, 'v) sched"
    assume x: "case x of Inl _ \<Rightarrow> winv reg E G w2
      | Inr new \<Rightarrow> w_exec w2 = w_exec w1 \<and> winv reg E (with_old (x_id (w_exec w1)) G) (w2\<lparr>w_exec := new\<rparr>)"
    show "safe (\<lambda>(r, w'). winv reg E G w') (case x of
       Inl err \<Rightarrow> Ok (Inl err, w2)
     | Inr new \<Rightarrow> bind_res (drop_executor cs S u n (w_exec w2) (w2\<lparr>w_exec := new\<rparr>)) (\<lambda>w3. Ok (Inr (), w3)))"
    proof (cases x)
      case (Inl e)
      with x show ?thesis by simp
    next
      case (Inr new)
      with x have "safe (winv reg E G) (drop_executor cs S u n (w_exec w2) (w2\<lparr>w_exec := new\<rparr>))"
        by (intro drop_executor_inv [OF K]) (use G in simp_all)
      then show ?thesis unfolding Inr sum.case by (rule safe_bind) simp
    qed
  qed
  with I1 show "safe (\<lambda>(r, w'). winv reg E G w') (case r of
      Inl err \<Rightarrow> Ok (Inl err, w1)
    | Inr _ \<Rightarrow> bind_res (executor_new S w1) (\<lambda>(x, w2). case x of
       Inl err \<Rightarrow> Ok (Inl err, w2)
     | Inr new \<Rightarrow> bind_res (drop_executor cs S u n (w_exec w2) (w2\<lparr>w_exec := new\<rparr>)) (\<lambda>w3. Ok (Inr (), w3))))"
    by (simp split: sum.split)
qed

lemma block_on_loop_inv:
  assumes K: "kernel_ok reg S" and I: "winv reg E G w"
  shows "safe (\<lambda>(v, w'). winv reg E G w') (block_on_loop cs S u n wk f w)"
  using I
proof (induction n arbitrary: w f)
  case 0
  then show ?case by simp
next
  case (Suc n)
  have wait: "safe (\<lambda>(v, w'). winv reg E G w')
      (bind_res (bind_res (epoll_wait S tmo w1) unwrap) (block_on_loop cs S u n wk f1))"
    if "winv reg E G w1" for w1 tmo f1
  proof (rule safe_bind [OF safe_bind [OF epoll_wait_inv [OF K that]]])
    show "safe (winv reg E G) (unwrap z)" if "case z of (r, w') \<Rightarrow> winv reg E G w'" for z :: "(io_error + unit) \<times> ('k, 'f, 'v) sched"
      using that by (auto simp: unwrap_def split: sum.splits prod.splits)
  qed (rule Suc.IH)
  have rest: "safe (\<lambda>(v, w'). winv reg E G w') (bind_res (highest_priority_runnable_task w1) (\<lambda>(t, w2). case t of
           Some e \<Rightarrow> bind_res (run_entry cs S u e w2) (\<lambda>w3.
             bind_res (bind_res (epoll_wait S TimeoutZero w3) unwrap) (block_on_loop cs S u n wk f1))
         | None \<Rightarrow> bind_res (bind_res (epoll_wait S TimeoutNone w2) unwrap) (block_on_loop cs S u n wk f1)))"
    if I1: "winv reg E G w1" for w1 f1
  proof (rule safe_bind [OF highest_priority_inv [OF I1]], clarify)
    fix r and w2 :: "('k, 'f, 'v) sched"
    assume r: "case r of None \<Rightarrow> winv reg E G w2
      | Some e \<Rightarrow> \<exists>t. e = TEntry t \<and> winv reg (own t E) G w2 \<and> w_tasks w2 = w_tasks w1"
    show "safe (\<lambda>(v, w'). winv reg E G w') (case r of
           Some e \<Rightarrow> bind_res (run_entry cs S u e w2) (\<lambda>w3.
             bind_res (bind_res (epoll_wait S TimeoutZero w3) unwrap) (block_on_loop cs S u n wk f1))
         | None \<Rightarrow> bind_res (bind_res (epoll_wait S TimeoutNone w2) unwrap) (block_on_loop cs S u n wk f1))"
    proof (cases r)
      case None
      with r wait show ?thesis by simp
    next
      case (Some e)
      with r obtain t where "e = TEntry t" "winv reg (own t E) G w2" by auto
      then have "safe (winv reg E G) (run_entry cs S u e w2)" using run_entry_inv [OF K] by simp
      then show ?thesis unfolding Some option.case by (rule safe_bind) (rule wait)
    qed
  qed
  have finish: "safe (\<lambda>(v, w'). winv reg E G w') (bind_res (interp cs (u_drop u f1) w1) (\<lambda>(_, w2). Ok (v, w2)))"
    if "winv reg E G w1" for w1 f1 v
    by (rule safe_bind [OF interp_inv [OF K that]]) auto
  show ?case
    unfolding block_on_loop.simps
    by (rule safe_bind [OF interp_inv [OF K Suc.prems]]) (auto intro: finish rest split: poll.split)
qed

lemma call_body_inv:
  assumes K: "kernel_ok reg S" and I: "winv reg E G w"
  shows "safe (\<lambda>(x, w'). winv reg E G w') (call_body cs S u n c w)"
proof (cases c)
  case (CSpawn b)
  then show ?thesis
    by (auto simp: spawn_def into_parts_def intro!: safe_bind [OF spawn_task_inv [OF I]])
next
  case (CSpawnChecked b)
  then show ?thesis
    by (auto simp: spawn_checked_def into_parts_def intro!: safe_bind [OF spawn_task_inv [OF I]])
next
  case (CWake wk)
  then show ?thesis by (auto intro!: safe_bind [OF wake_by_ref_inv [OF K I]])
next
  case (CHandleResult h)
  then show ?thesis using I
    by (auto simp: with_handle_def intro!: safe_bind [OF handle_result_inv [OF I]] split: option.split)
next
  case (CHandlePoll h wk)
  then show ?thesis using I
    by (auto simp: with_handle_def intro!: safe_bind [OF handle_poll_inv [OF I]] split: option.split)
next
  case (CHandleAbort h)
  then show ?thesis using I
    by (auto simp: with_handle_def intro!: safe_bind [OF handle_abort_inv [OF I]] split: option.split)
next
  case (CHandleName h)
  then show ?thesis using I handle_task [OF I]
    by (fastforce simp: with_handle_def handle_name_def get_task_def split: option.split)
next
  case (CHandleDrop h)
  have "safe (winv reg E G) (handle_drop cs u h t w)" if h: "w_handles w h = Some t" for t
    unfolding handle_drop_def
    by (rule drop_task_inv [OF K handle_remove_inv [OF I h]]) (use inv_borrowed [OF I] in simp)
  then show ?thesis using I CHandleDrop
    by (auto simp: with_handle_def intro!: safe_bind split: option.split)
next
  case (CFdNew fd events)
  then show ?thesis using fd_new_inv [OF K I, of fd events] by (simp add: Let_def split_def)
next
  case (CFdPollWith i wk oper)
  then show ?thesis using I
    by (auto intro!: safe_bind [OF fd_poll_with_inv [OF K I]] split: option.split)
next
  case (CSys m)
  have "winv reg E G (w\<lparr>w_kernel := snd (sys_other S m (w_kernel w))\<rparr>)"
    by (rule winv_kernel [OF I]) (rule kernel_ok_other [OF K])
  then show ?thesis using CSys by (simp add: Let_def split_def)
next
  case (CBlockOn f)
  then show ?thesis
    by (auto simp: block_on_def intro!: safe_bind [OF block_on_loop_inv [OF K I]])
next
  case CRun
  then show ?thesis by (auto intro!: safe_bind [OF run_inv [OF K I]])
qed (simp_all add: I inv_shutdown fd_drop_inv [OF K I])

end

lemma do_call_semantics: "call_semantics (do_call S u n) reg S"
proof (induction n)
  case 0
  show ?case by unfold_locales simp
next
  case (Suc n)
  show ?case
    by unfold_locales (simp add: call_semantics.call_body_inv [OF Suc])
qed

interpretation calls: call_semantics "do_call S u n" reg S for S u n reg
  by (rule do_call_semantics)

end
