(* ===== verification/Epox_Demo.thy ===== *)
theory Epox_Demo
  imports Epox_Calls
begin

text \<open>
  A small operating system that keeps the promises of \<open>kernel_ok\<close>, to run the model on
  concrete programs. Descriptors are numbered upwards; a pipe is its two ends and the
  pointers in it; readiness of other descriptors follows a schedule with one entry for
  each \<open>epoll_wait\<close>; the results of other system calls are read from a script.

  The lemma bundles \<open>eval_simps\<close> and \<open>eval_congs\<close> evaluate the model on it by \<open>simp\<close>. The
  congruence rules keep the simplifier out of the rest of a program until its first part
  is a value.
\<close>

record demo =
  d_next :: int
  d_reg :: "((raw_fd \<times> raw_fd) \<times> nat) list"
  d_pipes :: "((raw_fd \<times> raw_fd) \<times> nat list) list"
  d_schedule :: "(raw_fd \<times> epoll_flags) list list"
  d_script :: "(io_error + nat) list"

definition demo_start :: demo where
  "demo_start = \<lparr>d_next = 3, d_reg = [], d_pipes = [], d_schedule = [], d_script = []\<rparr>"

definition demo_reg :: "demo registrations" where
  "demo_reg k ep fd = map_of (d_reg k) (ep, fd)"

text \<open>The events an epoll instance reports: pipes with data, and the scheduled ones.\<close>

definition demo_events :: "raw_fd \<Rightarrow> demo \<Rightarrow> epoll_event list" where
  "demo_events ep k =
     List.map_filter (\<lambda>(fd, ev). map_option (\<lambda>d. \<lparr>ev_events = ev, ev_data = d\<rparr>) (map_of (d_reg k) (ep, fd)))
       (map (\<lambda>((rd, wr), ps). (rd, EPOLLIN)) (filter (\<lambda>(_, ps). ps \<noteq> []) (d_pipes k))
        @ (case d_schedule k of [] \<Rightarrow> [] | s # _ \<Rightarrow> s))"

definition demo :: "demo kernel" where
  "demo = \<lparr>
     sys_pipe2 = (\<lambda>k. (Inr (d_next k, d_next k + 1),
       k\<lparr>d_next := d_next k + 2, d_pipes := ((d_next k, d_next k + 1), []) # d_pipes k\<rparr>)),
     sys_epoll_create = (\<lambda>k. (Inr (d_next k),
       k\<lparr>d_next := d_next k + 1, d_reg := filter (\<lambda>((ep, _), _). ep \<noteq> d_next k) (d_reg k)\<rparr>)),
     sys_epoll_add = (\<lambda>ep fd ev k. case map_of (d_reg k) (ep, fd) of
         Some _ \<Rightarrow> (Inl (Errno 17), k)
       | None \<Rightarrow> (Inr (), k\<lparr>d_reg := ((ep, fd), ev_data ev) # d_reg k\<rparr>)),
     sys_epoll_del = (\<lambda>ep fd k. case map_of (d_reg k) (ep, fd) of
         None \<Rightarrow> (Inl (Errno 2), k)
       | Some _ \<Rightarrow> (Inr (), k\<lparr>d_reg := filter (\<lambda>(a, _). a \<noteq> (ep, fd)) (d_reg k)\<rparr>)),
     sys_epoll_wait = (\<lambda>ep n tmo k.
       let es = take n (demo_events ep k); k1 = k\<lparr>d_schedule := tl (d_schedule k)\<rparr>
       in if es = [] \<and> tmo = TimeoutNone then (WaitForever, k1) else (WaitEvents es, k1)),
     sys_read_ptr = (\<lambda>rd k. case filter (\<lambda>((a, _), ps). a = rd \<and> ps \<noteq> []) (d_pipes k) of
         [] \<Rightarrow> (Inl EAGAIN, k)
       | (_, ps) # _ \<Rightarrow> (Inr (hd ps), k\<lparr>d_pipes :=
           map (\<lambda>((a, b), ps). ((a, b), if a = rd then tl ps else ps)) (d_pipes k)\<rparr>)),
     sys_write_ptr = (\<lambda>wr p k.
       if \<exists>((a, b), ps) \<in> set (d_pipes k). b = wr
       then (Inr (), k\<lparr>d_pipes := map (\<lambda>((a, b), ps). ((a, b), if b = wr then ps @ [p] else ps)) (d_pipes k)\<rparr>)
       else (Inl EBADF, k)),
     sys_close = (\<lambda>fd k. k\<lparr>d_pipes := filter (\<lambda>((a, b), _). a \<noteq> fd \<and> b \<noteq> fd) (d_pipes k)\<rparr>),
     sys_getfl = (\<lambda>fd k. (Inr 0, k)),
     sys_setfl = (\<lambda>fd f k. (Inr (), k)),
     sys_other = (\<lambda>n k. case d_script k of
         [] \<Rightarrow> (Inl (OsError EAGAIN), k)
       | r # rs \<Rightarrow> (r, k\<lparr>d_script := rs\<rparr>))\<rparr>"

lemma map_of_remove: "map_of (filter (\<lambda>(a, _). a \<noteq> x) xs) = (map_of xs)(x := None)"
  by (induction xs) auto

lemma map_of_remove_epoll:
  "map_of (filter (\<lambda>((ep, _), _). ep \<noteq> e) xs) (a, fd) = (if a = e then None else map_of xs (a, fd))"
  by (induction xs) auto

lemma demo_events_registered:
  assumes "e \<in> set (demo_events ep k)" shows "ev_data e \<in> ran (demo_reg k ep)"
  using assms
  by (fastforce simp: demo_events_def List.map_filter_def demo_reg_def ran_def split: option.splits)

lemma demo_reg_frame [simp]: "demo_reg (k\<lparr>d_pipes := ps\<rparr>) = demo_reg k"
  by (simp add: demo_reg_def fun_eq_iff)

lemma demo_ok: "kernel_ok demo_reg demo"
  unfolding kernel_ok_def
proof (intro conjI allI impI)
  fix k ep k' assume "sys_epoll_create demo k = (Inr ep, k')"
  then show "demo_reg k' = (demo_reg k)(ep := Map.empty)"
    by (auto simp: demo_def demo_reg_def map_of_remove_epoll fun_eq_iff)
next
  fix ep fd ev k u k' assume "sys_epoll_add demo ep fd ev k = (Inr u, k')"
  then show "demo_reg k' = (demo_reg k)(ep := (demo_reg k ep)(fd \<mapsto> ev_data ev))"
    by (auto simp: demo_def demo_reg_def fun_eq_iff split: option.splits)
next
  fix ep fd ev k e k' assume "sys_epoll_add demo ep fd ev k = (Inl e, k')"
  then show "demo_reg k' = demo_reg k" by (auto simp: demo_def split: option.splits)
next
  fix ep fd k
  show "demo_reg (snd (sys_epoll_del demo ep fd k)) = (demo_reg k)(ep := (demo_reg k ep)(fd := None))"
    by (auto simp: demo_def demo_reg_def map_of_remove fun_eq_iff split: option.splits)
next
  fix ep n tmo k es k' assume "sys_epoll_wait demo ep n tmo k = (WaitEvents es, k')"
  then have "es = take n (demo_events ep k)" by (auto simp: demo_def Let_def split: if_splits)
  then show "length es \<le> n" "\<forall>e \<in> set es. ev_data e \<in> ran (demo_reg k ep)"
    by (auto dest!: in_set_takeD intro: demo_events_registered)
next
  show "demo_reg (snd (sys_other demo n k)) ep \<subseteq>\<^sub>m demo_reg k ep" for n k ep
    by (cases "d_script k") (simp_all add: demo_def demo_reg_def map_le_def)
next
  show "demo_reg (snd (sys_read_ptr demo fd k)) = demo_reg k" for fd k
    by (simp add: demo_def demo_reg_def fun_eq_iff split: list.split prod.split)
qed (auto simp: demo_def demo_reg_def fun_eq_iff Let_def)

section \<open>Evaluation\<close>

lemma bind_res_weak_cong: "m = m' \<Longrightarrow> bind_res m f = bind_res m' f"
  by simp

lemma Call_weak_cong: "c = c' \<Longrightarrow> Call c k = Call c' k"
  by simp

lemmas eval_congs = bind_res_weak_cong Call_weak_cong

lemmas eval_queue = queue_new_def queue_init_def deref_def set_prev_def set_next_def push_def
  pop_def release_def unqueue_def entry_is_queued_def queue_is_empty_def arc_dec_def arc_inc_def
  queue_entry_new_def entry_alloc_def entry_free_def

lemmas eval_executor = executor_new_def init_queues_def empty_world_def thread_start_def get_task_def
  put_task_def with_queue_def arc_clone_def weak_upgrade_def arc_forget_def head_of_def runq_def
  enqueue_def sleep_task_def highest_priority_runnable_task_def sleepq_is_empty_def
  task_is_queued_def abort_task_def shutdown_exec_def spawn_task_def executor_task_new_def
  epoll_add_def epoll_del_def wake_from_pipe_def wake_from_event_def epoll_wait_def wake_task_def
  block_on_wake_def wake_by_ref_def waker_clone_def waker_clone_from_def epoll_event_empty_def
  EPOLLIN_def EPOLLOUT_def EPOLLET_def flags_contains_def

lemma burst_limit_zero: "(BURST_LIMIT \<le> 0) = False" "BURST_LIMIT \<noteq> 0"
  by (simp_all add: BURST_LIMIT_def)

lemmas eval_fd = epoll_waker_new_def burst_limit_zero O_NONBLOCK_def poll_with_def fd_release_def
  fd_drop_def fd_new_def fd_poll_with_def

lemmas eval_scheduler = run_thread_def builder_new_def builder_priority_def builder_name_def
  into_parts_def spawn_def spawn_checked_def with_handle_def handle_result_def handle_poll_def
  handle_abort_def handle_name_def handle_drop_def block_on_def run_def run_entry_def run_task_def
  drop_task_def drop_future_def poll_future_def drop_executor_def free_queues_def unwrap_def

lemmas eval_kernel = demo_def demo_start_def demo_events_def List.map_filter_def

lemmas eval_simps = eval_queue eval_executor eval_fd eval_scheduler eval_kernel numeral_eq_Suc Let_def

section \<open>User code for the examples\<close>

text \<open>
  Futures are numbers. \<open>0\<close> returns 7; \<open>1\<close> yields and then returns 7; \<open>2\<close> wakes itself and
  returns in the same poll, and must not be polled again; \<open>4\<close> waits for ever; \<open>5\<close> returns
  the error value 99; \<open>6\<close> runs a nested \<open>block_on\<close> of the future \<open>1\<close>; \<open>8\<close> shuts the executor
  down and waits.
\<close>

definition demo_poll :: "nat \<Rightarrow> waker \<Rightarrow> (nat \<times> nat poll, nat, nat) prog" where
  "demo_poll f wk =
     (if f = 0 then Ret (0, Ready 7)
      else if f = 1 then Call (CWake wk) (\<lambda>_. Ret (0, Pending))
      else if f = 2 then Call (CWake wk) (\<lambda>_. Ret (3, Ready 7))
      else if f = 4 then Ret (4, Pending)
      else if f = 5 then Ret (3, Ready 99)
      else if f = 6 then Call (CWake wk) (\<lambda>_. Call (CBlockOn 1) (\<lambda>_. Ret (0, Pending)))
      else if f = 8 then Call CShutdown (\<lambda>_. Ret (4, Pending))
      else UserPanics)"

definition demo_user :: "(nat, nat) user" where
  "demo_user = \<lparr>u_poll = demo_poll, u_drop = (\<lambda>_. Ret ()), u_is_err = (\<lambda>v. v = 99)\<rparr>"

definition here :: location where
  "here = \<lparr>loc_file = ''main.rs'', loc_line = 1, loc_column = 1\<rparr>"

definition outcome :: "('r \<times> 'w) res \<Rightarrow> fault + 'r" where
  "outcome r = (case r of Ok (x, _) \<Rightarrow> Inr x | Fault f \<Rightarrow> Inl f)"

lemmas eval_user = demo_poll_def demo_user_def here_def outcome_def

text \<open>A thread that has spawned a high-priority task and a normal one, both runnable.\<close>

definition demo_spawns :: "(unit, nat, nat) prog" where
  "demo_spawns = Call (CSpawn (builder_new 1 here))
     (\<lambda>_. Call (CSpawn (builder_priority High (builder_new 4 here))) (\<lambda>_. Ret ()))"

definition demo_world :: "(demo, nat, nat) sched" where
  "demo_world = (case run_thread demo demo_user 1 demo_spawns demo_start of
     Ok (_, w) \<Rightarrow> w | Fault _ \<Rightarrow> empty_world demo_start)"

lemma demo_world_run: "run_thread demo demo_user 1 demo_spawns demo_start = Ok ((), demo_world)"
  by (simp add: demo_world_def demo_spawns_def eval_simps eval_user cong: eval_congs)

lemma interp_do_call_inv:
  assumes "kernel_ok reg S" "winv reg E G w"
  shows "safe (\<lambda>(r, w'). winv reg E G w') (interp (do_call S u n) p w)"
  using assms by (rule calls.interp_inv)

lemma run_thread_inv:
  assumes "kernel_ok reg S"
  shows "safe (\<lambda>(r, w'). winv reg (\<lambda>_. 0) ({}, {}) w') (run_thread S u n p k)"
  unfolding run_thread_def
  by (rule safe_bind [OF thread_start_inv [OF assms] calls.interp_inv [OF assms]])

lemma demo_world_inv: "winv demo_reg (\<lambda>_. 0) ({}, {}) demo_world"
  using run_thread_inv [OF demo_ok, of demo_user 1 demo_spawns demo_start]
  unfolding demo_world_run by simp

lemma popped_wfq:
  assumes "winv reg E G w0" and "highest_priority_runnable_task w0 = Ok (Some (TEntry t), w)"
  obtains Q where "wfq (own t E) Q w"
  using highest_priority_inv [OF assms(1)] assms(2) by (auto elim: winvE)

text \<open>The same thread when it has taken its first task.\<close>

definition demo_popped :: "(demo, nat, nat) sched" where
  "demo_popped = (case highest_priority_runnable_task demo_world of
     Ok (_, w) \<Rightarrow> w | Fault _ \<Rightarrow> demo_world)"

lemma demo_popped_run: "highest_priority_runnable_task demo_world = Ok (Some (TEntry 4), demo_popped)"
  by (simp add: demo_popped_def demo_world_def demo_spawns_def eval_simps eval_user cong: eval_congs)

text \<open>A thread in which the task 4 awaits the handle of the task 2, which is about to run.\<close>

definition demo_awaits :: "(unit, nat, nat) prog" where
  "demo_awaits = Call (CSpawn (builder_new 0 here)) (\<lambda>_. Call (CSpawn (builder_new 4 here))
     (\<lambda>_. Call (CHandlePoll 3 (TaskWaker 4)) (\<lambda>_. Ret ())))"

definition demo_awaiting :: "(demo, nat, nat) sched" where
  "demo_awaiting = (case run_thread demo demo_user 1 demo_awaits demo_start of
     Ok (_, w) \<Rightarrow> w | Fault _ \<Rightarrow> empty_world demo_start)"

lemma demo_awaiting_run: "run_thread demo demo_user 1 demo_awaits demo_start = Ok ((), demo_awaiting)"
  by (simp add: demo_awaiting_def demo_awaits_def eval_simps eval_user cong: eval_congs)

lemma demo_awaiting_inv: "winv demo_reg (\<lambda>_. 0) ({}, {}) demo_awaiting"
  using run_thread_inv [OF demo_ok, of demo_user 1 demo_awaits demo_start]
  unfolding demo_awaiting_run by simp

definition demo_completing :: "(demo, nat, nat) sched" where
  "demo_completing = (case highest_priority_runnable_task demo_awaiting of
     Ok (_, w) \<Rightarrow> w | Fault _ \<Rightarrow> demo_awaiting)"

lemma demo_completing_run: "highest_priority_runnable_task demo_awaiting = Ok (Some (TEntry 2), demo_completing)"
  by (simp add: demo_completing_def demo_awaiting_def demo_awaits_def eval_simps eval_user cong: eval_congs)

text \<open>A thread that has just started.\<close>

definition demo_idle :: "(demo, nat, nat) sched" where
  "demo_idle = (case thread_start demo demo_start of Ok w \<Rightarrow> w | Fault _ \<Rightarrow> empty_world demo_start)"

lemma demo_idle_start: "thread_start demo demo_start = Ok demo_idle"
  by (simp add: demo_idle_def eval_simps cong: eval_congs)

lemma demo_idle_inv: "winv demo_reg (\<lambda>_. 0) ({}, {}) demo_idle"
  using thread_start_inv [OF demo_ok, of demo_start] demo_idle_start by (metis safe_OkD)

text \<open>A thread with one task.\<close>

definition demo_one :: "nat \<Rightarrow> (unit, nat, nat) prog" where
  "demo_one f = Call (CSpawn (builder_new f here)) (\<lambda>_. Ret ())"

definition demo_single :: "nat \<Rightarrow> (demo, nat, nat) sched" where
  "demo_single f = (case run_thread demo demo_user 1 (demo_one f) demo_start of
     Ok (_, w) \<Rightarrow> w | Fault _ \<Rightarrow> empty_world demo_start)"

lemma demo_single_run: "run_thread demo demo_user 1 (demo_one f) demo_start = Ok ((), demo_single f)"
  by (simp add: demo_single_def demo_one_def eval_simps here_def cong: eval_congs)

lemma demo_single_inv: "winv demo_reg (\<lambda>_. 0) ({}, {}) (demo_single f)"
  using run_thread_inv [OF demo_ok, of demo_user 1 "demo_one f" demo_start]
  unfolding demo_single_run by simp

end
