(* ===== verification/Epox_Fuel.thy ===== *)
theory Epox_Fuel
  imports Epox_Scheduler
begin

text \<open>
  The fuel of the model is only a bound: once a run of user code has an outcome other than
  \<open>NoFuel\<close>, more fuel does not change it. \<open>below r r'\<close> says that \<open>r\<close> ran out of fuel or is
  \<open>r'\<close>. The locale \<open>more_fuel\<close> relates two semantics of calls of which one has at least as
  much fuel; every function of the scheduler is monotone in it, and so is \<open>do_call\<close>.
\<close>

definition below :: "'a res \<Rightarrow> 'a res \<Rightarrow> bool" where
  "below r r' \<longleftrightarrow> r = Fault NoFuel \<or> r = r'"

lemma below_refl [simp, intro]: "below r r"
  by (simp add: below_def)

lemma below_NoFuel [simp]: "below (Fault NoFuel) r"
  by (simp add: below_def)

lemma below_trans: "below a b \<Longrightarrow> below b c \<Longrightarrow> below a c"
  by (auto simp: below_def)

lemma below_bind:
  "below m m' \<Longrightarrow> (\<And>x. below (f x) (f' x)) \<Longrightarrow> below (bind_res m f) (bind_res m' f')"
  unfolding below_def by (cases m; cases m') auto

lemma below_split_app:
  "(\<And>a b. below (f a b c) (f' a b c)) \<Longrightarrow>
   below ((case p of (a, b) \<Rightarrow> f a b) c) ((case p of (a, b) \<Rightarrow> f' a b) c)"
  by (cases p) simp

lemma below_split:
  "(\<And>a b. below (f a b) (f' a b)) \<Longrightarrow> below (case p of (a, b) \<Rightarrow> f a b) (case p of (a, b) \<Rightarrow> f' a b)"
  by (cases p) simp

lemma below_option:
  "below a a' \<Longrightarrow> (\<And>x. below (f x) (f' x)) \<Longrightarrow>
   below (case z of None \<Rightarrow> a | Some x \<Rightarrow> f x) (case z of None \<Rightarrow> a' | Some x \<Rightarrow> f' x)"
  by (cases z) simp_all

lemma below_sum:
  "(\<And>x. below (f x) (f' x)) \<Longrightarrow> (\<And>x. below (g x) (g' x)) \<Longrightarrow>
   below (case z of Inl x \<Rightarrow> f x | Inr x \<Rightarrow> g x) (case z of Inl x \<Rightarrow> f' x | Inr x \<Rightarrow> g' x)"
  by (cases z) simp_all

lemma below_poll:
  "below a a' \<Longrightarrow> (\<And>x. below (f x) (f' x)) \<Longrightarrow>
   below (case z of Pending \<Rightarrow> a | Ready x \<Rightarrow> f x) (case z of Pending \<Rightarrow> a' | Ready x \<Rightarrow> f' x)"
  by (cases z) simp_all

lemma below_if:
  "below a a' \<Longrightarrow> below b b' \<Longrightarrow> below (if c then a else b) (if c then a' else b')"
  by simp

lemmas below_intros = below_bind below_split below_split_app below_option below_sum below_poll below_if below_refl

locale more_fuel =
  fixes cs cs' :: "('k, 'f, 'v) calls"
  assumes le: "below (cs c w) (cs' c w)"
begin

lemma interp_below: "below (interp cs p w) (interp cs' p w)"
  by (induction p arbitrary: w) (auto intro!: below_bind le simp: split_def)

lemma poll_future_below: "below (poll_future cs u fut wk w) (poll_future cs' u fut wk w)"
  unfolding poll_future_def
  by (cases fut) (auto intro!: below_intros interp_below)

lemma drop_task_below: "below (drop_task cs u t w) (drop_task cs' u t w)"
  unfolding drop_task_def Let_def by (intro below_intros interp_below)

lemma run_task_below: "below (run_task cs S u t w) (run_task cs' S u t w)"
  unfolding run_task_def Let_def by (intro below_intros poll_future_below drop_task_below)

lemma run_entry_below: "below (run_entry cs S u e w) (run_entry cs' S u e w)"
  by (cases e) (simp_all add: run_entry_def run_task_below)

lemma drain_queue_below: "n \<le> m \<Longrightarrow> below (drain_queue cs u n h w) (drain_queue cs' u m h w)"
proof (induction n arbitrary: m w)
  case (Suc n)
  then obtain m' where m: "m = Suc m'" "n \<le> m'" by (cases m) auto
  have entry: "below (case e of TEntry t \<Rightarrow> bind_res (drop_task cs u t w1) (drain_queue cs u n h) | QHead _ _ \<Rightarrow> Fault UB)
      (case e of TEntry t \<Rightarrow> bind_res (drop_task cs' u t w1) (drain_queue cs' u m' h) | QHead _ _ \<Rightarrow> Fault UB)" for e w1
    by (cases e) (auto intro!: below_bind drop_task_below Suc.IH [OF m(2)])
  show ?case unfolding m(1) drain_queue.simps by (intro below_intros entry)
qed simp

lemma drop_executor_below:
  "n \<le> m \<Longrightarrow> below (drop_executor cs S u n old w) (drop_executor cs' S u m old w)"
  unfolding drop_executor_def by (intro below_intros drain_queue_below)

lemma run_loop_below: "n \<le> m \<Longrightarrow> below (run_loop cs S u n w) (run_loop cs' S u m w)"
proof (induction n arbitrary: m w)
  case (Suc n)
  then obtain m' where m: "m = Suc m'" "n \<le> m'" by (cases m) auto
  show ?case
    unfolding m(1) run_loop.simps by (intro below_intros run_entry_below Suc.IH [OF m(2)])
qed simp

lemma run_below: "n \<le> m \<Longrightarrow> below (run cs S u n w) (run cs' S u m w)"
  unfolding run_def by (intro below_intros run_loop_below drop_executor_below)

lemma block_on_loop_below: "n \<le> m \<Longrightarrow> below (block_on_loop cs S u n wk f w) (block_on_loop cs' S u m wk f w)"
proof (induction n arbitrary: m w f)
  case (Suc n)
  then obtain m' where m: "m = Suc m'" "n \<le> m'" by (cases m) auto
  show ?case
    unfolding m(1) block_on_loop.simps
    by (intro below_intros run_entry_below interp_below Suc.IH [OF m(2)])
qed simp

lemma call_body_below: "n \<le> m \<Longrightarrow> below (call_body cs S u n c w) (call_body cs' S u m c w)"
  by (cases c)
     (auto simp: with_handle_def handle_drop_def block_on_def
       intro!: below_intros drop_task_below block_on_loop_below run_below)

end

lemma do_call_below: "below (do_call S u n c w) (do_call S u (n + m) c w)"
proof (induction n arbitrary: c w)
  case (Suc n)
  then have "more_fuel (do_call S u n) (do_call S u (n + m))" by unfold_locales
  from more_fuel.call_body_below [OF this] show ?case by simp
qed simp

interpretation fuel: more_fuel "do_call S u n" "do_call S u (n + m)" for S u n m
  by unfold_locales (rule do_call_below)

end
