(* ===== verification/Epox_Scheduler_Theorems.thy ===== *)
theory Epox_Scheduler_Theorems
  imports Epox_Demo Epox_Fuel
begin

text \<open>
  What the executor promises to the programs that use it: memory safety for any user
  code, the order in which tasks run, what waking, sleeping, completing and aborting a
  task do to the queues, and when the scheduler loops stop; and the programs that show
  where it does not keep a promise.
\<close>

section \<open>Any program\<close>





section \<open>The order of tasks\<close>

text \<open>
  C11: the executor takes the runnable tasks from high to low priority and in each priority
  in the order in which they became runnable; taking one leaves the others in their order
  and the sleeping tasks alone, and the queue's reference passes to the caller.
\<close>

theorem highest_priority_order:
  assumes "wfq E Q w"
  shows "case runnable Q w of
      [] \<Rightarrow> highest_priority_runnable_task w = Ok (None, w)
    | e # es \<Rightarrow> \<exists>t q' Q'. e = TEntry t \<and>
        highest_priority_runnable_task w = Ok (Some e, w\<lparr>w_queue := q'\<rparr>) \<and>
        wfq (own t E) Q' (w\<lparr>w_queue := q'\<rparr>) \<and> runnable Q' w = es \<and> \<not> queued Q' e \<and>
        members Q' (head_of Sleepq w) = members Q (head_of Sleepq w)"
proof (cases "runnable Q w")
  case Nil
  with highest_priority_none [OF assms] show ?thesis by simp
next
  case (Cons e es)
  obtain t q' n where "e = TEntry t"
    "highest_priority_runnable_task w = Ok (Some (TEntry t), w\<lparr>w_queue := q'\<rparr>)"
    "wfq (own t E) (qtail (head_of n w) Q) (w\<lparr>w_queue := q'\<rparr>)"
    "runnable (qtail (head_of n w) Q) w = es" "n \<noteq> Sleepq"
    "\<not> queued (qtail (head_of n w) Q) (TEntry t)"
    using highest_priority_some [OF assms Cons] by metis
  moreover have "members (qtail (head_of n w) Q) (head_of Sleepq w) = members Q (head_of Sleepq w)"
    using \<open>n \<noteq> Sleepq\<close> by (simp add: members_def qtail_def head_of_def)
  ultimately show ?thesis unfolding Cons list.case by blast
qed

theorem highest_priority_order_witness:
  "\<exists>Q. wfq (\<lambda>_. 0) Q demo_world \<and> (case runnable Q demo_world of
      [] \<Rightarrow> highest_priority_runnable_task demo_world = Ok (None, demo_world)
    | e # es \<Rightarrow> \<exists>t q' Q'. e = TEntry t \<and>
        highest_priority_runnable_task demo_world = Ok (Some e, demo_world\<lparr>w_queue := q'\<rparr>) \<and>
        wfq (own t (\<lambda>_. 0)) Q' (demo_world\<lparr>w_queue := q'\<rparr>) \<and> runnable Q' demo_world = es \<and> \<not> queued Q' e \<and>
        members Q' (head_of Sleepq demo_world) = members Q (head_of Sleepq demo_world))"
  using demo_world_inv highest_priority_order by (fastforce elim!: winvE)

lemma members_qpush:
  assumes "Q a = Some xs"
  shows "members (qpush a e Q) h =
    (if h = a then filter (\<lambda>x. x \<noteq> e) (members Q h) @ [e] else filter (\<lambda>x. x \<noteq> e) (members Q h))"
  using assms by (cases "Q h") (auto simp: qpush_def qremove_def members_def)

text \<open>
  Queueing a task that has not completed puts it behind every other task of its
  priority, and takes it out of whatever queue held it, so that no queue holds a task
  twice; a completed task is not queued.
\<close>

theorem enqueue_to_back:
  assumes "wfq (own t E) Q w" and "w_tasks w t = Some k"
    and "t_has_completed k \<Longrightarrow> 0 < refs E Q (w_handles w) t" and "t_borrowed k \<Longrightarrow> 0 < E t"
  shows "\<exists>q' Q'. enqueue t w = Ok (w\<lparr>w_queue := q'\<rparr>) \<and> wfq E Q' (w\<lparr>w_queue := q'\<rparr>) \<and>
    (if t_has_completed k then Q' = Q
     else members Q' (runq (t_priority k) w) =
            filter (\<lambda>e. e \<noteq> TEntry t) (members Q (runq (t_priority k) w)) @ [TEntry t] \<and>
          (\<forall>h. h \<noteq> runq (t_priority k) w \<longrightarrow> members Q' h = filter (\<lambda>e. e \<noteq> TEntry t) (members Q h)))"
proof -
  have last: "1 < strong (w_queue w) (TEntry t)" if "t_has_completed k"
    using wfq_count [OF assms(1), of t] assms(3) [OF that] by (simp add: refs_def)
  let ?h = "runq (t_priority k) w"
  obtain q' where q': "enqueue t w = Ok (w\<lparr>w_queue := q'\<rparr>)"
    "wfq E (if t_has_completed k then Q else qpush ?h (TEntry t) Q) (w\<lparr>w_queue := q'\<rparr>)"
    by (rule enqueue_wfq [OF assms(1,2)]) (erule last, erule assms(4), assumption)
  obtain xs where xs: "Q ?h = Some xs" using wfq_head(2) [OF assms(1)] by blast
  from members_qpush [of Q ?h xs "TEntry t", OF xs] q' show ?thesis
    by (intro exI [of _ q'] exI [of _ "if t_has_completed k then Q else qpush ?h (TEntry t) Q"]) simp
qed

theorem enqueue_to_back_witness:
  "\<exists>Q t k q' Q'. wfq (own t (\<lambda>_. 0)) Q (arc_clone t demo_world) \<and> w_tasks demo_world t = Some k \<and>
     enqueue t (arc_clone t demo_world) = Ok ((arc_clone t demo_world)\<lparr>w_queue := q'\<rparr>) \<and>
     members Q' (runq (t_priority k) (arc_clone t demo_world)) =
       filter (\<lambda>e. e \<noteq> TEntry t) (members Q (runq (t_priority k) (arc_clone t demo_world))) @ [TEntry t]"
proof -
  obtain Q where Q: "wfq (\<lambda>_. 0) Q demo_world" using demo_world_inv by (auto elim: winvE)
  have k: "w_tasks demo_world 2 = Some (executor_task_new 4 (User 1) Normal (fst (snd (into_parts (builder_new 1 here)))))"
    by (simp add: demo_world_def demo_spawns_def eval_simps eval_user cong: eval_congs)
  have "0 < strong (w_queue demo_world) (TEntry 2)" using wfq_live [OF Q] k by blast
  from clone_wfq [OF Q this] have Q1: "wfq (own 2 (\<lambda>_. 0)) Q (arc_clone 2 demo_world)" .
  have k1: "w_tasks (arc_clone 2 demo_world) 2 = Some (executor_task_new 4 (User 1) Normal (fst (snd (into_parts (builder_new 1 here)))))"
    using k by (simp add: arc_clone_def)
  show ?thesis
    using enqueue_to_back [OF Q1 k1] Q1 k by (fastforce simp: executor_task_new_def)
qed


section \<open>Waking\<close>

lemma clone_forget: "0 < strong (w_queue w) (TEntry t) \<Longrightarrow> arc_forget t (arc_clone t w) = Ok w"
  by (simp add: arc_forget_def with_queue_def arc_dec_def arc_clone_def arc_inc_def fun_upd_idem)

lemma weak_upgrade_live: "wfq E Q w \<Longrightarrow> w_tasks w t = Some k \<Longrightarrow> weak_upgrade t w = Some (arc_clone t w)"
  using wfq_live [of E Q w t] by (auto simp: weak_upgrade_def)

lemma wake_runnable:
  assumes "wfq E Q w" and "w_tasks w t = Some k" and "\<not> t_borrowed k"
    and "t_pipe_wr k = x_pipe_wr (w_exec w)"
  shows "if t_has_completed k then wake_by_ref S (TaskWaker t) w = Ok w
    else \<exists>q' Q'. wake_by_ref S (TaskWaker t) w = Ok (w\<lparr>w_queue := q'\<rparr>) \<and> wfq E Q' (w\<lparr>w_queue := q'\<rparr>) \<and>
      members Q' (runq (t_priority k) w) =
        filter (\<lambda>e. e \<noteq> TEntry t) (members Q (runq (t_priority k) w)) @ [TEntry t] \<and>
      (\<forall>h. h \<noteq> runq (t_priority k) w \<longrightarrow> members Q' h = filter (\<lambda>e. e \<noteq> TEntry t) (members Q h))"
proof -
  have live: "0 < strong (w_queue w) (TEntry t)" using wfq_live [OF assms(1)] assms(2) by blast
  have wake: "wake_by_ref S (TaskWaker t) w = enqueue t (arc_clone t w)"
    using weak_upgrade_live [OF assms(1,2)] assms
    by (simp add: wake_by_ref_def wake_task_def get_task_def arc_clone_def)
  show ?thesis
  proof (cases "t_has_completed k")
    case True
    then show ?thesis
      using assms(2) clone_forget [OF live] unfolding wake by (simp add: enqueue_def get_task_def arc_clone_def)
  next
    case False
    let ?h = "runq (t_priority k) w"
    have h: "runq (t_priority k) (arc_clone t w) = ?h" by (simp add: runq_head arc_clone_def)
    have k: "w_tasks (arc_clone t w) t = Some k" using assms(2) by (simp add: arc_clone_def)
    obtain q' where q': "enqueue t (arc_clone t w) = Ok ((arc_clone t w)\<lparr>w_queue := q'\<rparr>)"
      "wfq E (if t_has_completed k then Q else qpush (runq (t_priority k) (arc_clone t w)) (TEntry t) Q)
         ((arc_clone t w)\<lparr>w_queue := q'\<rparr>)"
      by (rule enqueue_wfq [OF clone_wfq [OF assms(1) live] k]) (use assms(3) False in auto)
    have w': "(arc_clone t w)\<lparr>w_queue := q'\<rparr> = w\<lparr>w_queue := q'\<rparr>" by (simp add: arc_clone_def)
    obtain xs where xs: "Q ?h = Some xs" using wfq_head(2) [OF assms(1)] by blast
    show ?thesis
      unfolding wake w' if_not_P [OF False]
      by (intro exI [of _ q'] exI [of _ "qpush ?h (TEntry t) Q"])
         (use q' False members_qpush [of Q ?h xs "TEntry t", OF xs] in \<open>simp add: w' h\<close>)
  qed
qed

text \<open>
  C12: waking a live task on its own thread makes it runnable, behind the tasks of its
  priority, whether it was asleep, already runnable or in no queue; a task that has
  completed is not made runnable again: its wake-up changes nothing. (The task is not
  the one being polled.)
\<close>

theorem wake_makes_runnable:
  assumes "wfq E Q w" and "w_tasks w t = Some k" and "\<not> t_borrowed k"
    and "t_pipe_wr k = x_pipe_wr (w_exec w)"
  shows "if t_has_completed k then wake_by_ref S (TaskWaker t) w = Ok w
    else \<exists>q' Q'. wake_by_ref S (TaskWaker t) w = Ok (w\<lparr>w_queue := q'\<rparr>) \<and> wfq E Q' (w\<lparr>w_queue := q'\<rparr>) \<and>
      members Q' (runq (t_priority k) w) =
        filter (\<lambda>e. e \<noteq> TEntry t) (members Q (runq (t_priority k) w)) @ [TEntry t] \<and>
      (\<forall>h. h \<noteq> runq (t_priority k) w \<longrightarrow> members Q' h = filter (\<lambda>e. e \<noteq> TEntry t) (members Q h))"
  using assms by (rule wake_runnable)

text \<open>
  A waker whose task no longer exists does nothing, on any thread; cloning it gives a
  no-op waker.
\<close>

theorem wake_of_dead_task:
  assumes "wfq E Q w" and "w_tasks w t = None"
  shows "wake_by_ref S (TaskWaker t) w = Ok w \<and> waker_clone (TaskWaker t) w = NoopWaker"
  using assms wfq_live [OF assms(1), of t]
  by (simp add: wake_by_ref_def wake_task_def weak_upgrade_def waker_clone_def)

text \<open>
  Waking a task of another executor writes its address to the pipe of that executor
  and leaves the queues and counts of this one alone; a closed pipe is ignored, and any
  other write error panics.
\<close>

theorem wake_other_executor:
  assumes "wfq E Q w" and "w_tasks w t = Some k" and "t_pipe_wr k \<noteq> x_pipe_wr (w_exec w)"
  shows "wake_by_ref S (TaskWaker t) w = (case sys_write_ptr S (t_pipe_wr k) t (w_kernel w) of
      (Inl e, k1) \<Rightarrow> if e = EBADF then Ok (w\<lparr>w_kernel := k1\<rparr>) else Fault (Panic PipeWrite)
    | (Inr _, k1) \<Rightarrow> Ok (w\<lparr>w_kernel := k1\<rparr>))"
proof -
  have live: "0 < strong (w_queue w) (TEntry t)" using wfq_live [OF assms(1)] assms(2) by blast
  have forget: "arc_forget t ((arc_clone t w)\<lparr>w_kernel := k1\<rparr>) = Ok (w\<lparr>w_kernel := k1\<rparr>)" for k1
    using live by (simp add: arc_forget_def with_queue_def arc_dec_def arc_clone_def arc_inc_def fun_upd_idem)
  show ?thesis
    using weak_upgrade_live [OF assms(1,2)] assms(2,3)
    by (auto simp: wake_by_ref_def wake_task_def get_task_def forget [simplified arc_clone_def] arc_clone_def
        split: prod.splits sum.splits errno.splits)
qed

text \<open>
  A task address that arrives through the pipe wakes the task exactly as a waker on
  the executor's own thread does; a null pointer only makes \<open>epoll_wait\<close> return.
\<close>

theorem pipe_wakes_task:
  assumes "sys_read_ptr S (x_pipe_rd (w_exec w)) (w_kernel w) = (Inr p, k1)"
    and "\<And>k. w_tasks w p = Some k \<Longrightarrow> t_pipe_wr k = x_pipe_wr (w_exec w) \<and> \<not> t_borrowed k"
  shows "wake_from_pipe S w =
    (if p = 0 then Ok (Inr (), w\<lparr>w_kernel := k1\<rparr>)
     else bind_res (wake_by_ref S (TaskWaker p) (w\<lparr>w_kernel := k1\<rparr>)) (\<lambda>w'. Ok (Inr (), w')))"
proof (cases "p = 0 \<or> strong (w_queue w) (TEntry p) = 0 \<or> w_tasks w p = None")
  case True
  with assms(1) show ?thesis
    by (auto simp: wake_from_pipe_def Let_def weak_upgrade_def wake_by_ref_def wake_task_def
        enqueue_def get_task_def arc_clone_def)
next
  case False
  then obtain k where "w_tasks w p = Some k" by auto
  with assms False show ?thesis
    by (simp add: wake_from_pipe_def Let_def weak_upgrade_def wake_by_ref_def wake_task_def
        get_task_def arc_clone_def)
qed

text \<open>Witnesses for this section: the task 2 of \<open>demo_world\<close>.\<close>

lemma demo_task: "\<exists>k. w_tasks demo_world 2 = Some k \<and> \<not> t_borrowed k \<and> \<not> t_has_completed k \<and> t_pipe_wr k = 4 \<and>
   t_priority k = Normal"
  "w_tasks demo_world 9 = None" "x_pipe_wr (w_exec demo_world) = 4" "x_pipe_rd (w_exec demo_world) = 3"
  by (simp_all add: demo_world_def demo_spawns_def eval_simps eval_user cong: eval_congs)

theorem wake_makes_runnable_witness:
  "\<exists>q' Q Q'. wake_by_ref demo (TaskWaker 2) demo_world = Ok (demo_world\<lparr>w_queue := q'\<rparr>) \<and>
     wfq (\<lambda>_. 0) Q' (demo_world\<lparr>w_queue := q'\<rparr>) \<and>
     members Q' (runq Normal demo_world) =
       filter (\<lambda>e. e \<noteq> TEntry 2) (members Q (runq Normal demo_world)) @ [TEntry 2]"
proof -
  obtain Q where Q: "wfq (\<lambda>_. 0) Q demo_world" using demo_world_inv by (auto elim: winvE)
  obtain k where k: "w_tasks demo_world 2 = Some k" "\<not> t_borrowed k" "\<not> t_has_completed k"
    "t_pipe_wr k = x_pipe_wr (w_exec demo_world)" "t_priority k = Normal"
    using demo_task by auto
  from wake_makes_runnable [OF Q k(1,2,4), of demo] k(3,5) show ?thesis by auto
qed

theorem wake_of_dead_task_witness:
  "wake_by_ref demo (TaskWaker 9) demo_world = Ok demo_world \<and> waker_clone (TaskWaker 9) demo_world = NoopWaker"
proof -
  obtain Q where Q: "wfq (\<lambda>_. 0) Q demo_world" using demo_world_inv by (auto elim: winvE)
  from wake_of_dead_task [OF Q demo_task(2), of demo] show ?thesis .
qed

text \<open>A task whose executor was replaced: its pipe is no longer the thread's.\<close>

definition demo_moved :: "(demo, nat, nat) sched" where
  "demo_moved = demo_world\<lparr>w_exec := (w_exec demo_world)\<lparr>x_pipe_wr := 8\<rparr>\<rparr>"

theorem wake_other_executor_witness:
  "\<exists>w'. wake_by_ref demo (TaskWaker 2) demo_moved = Ok w' \<and>
     sys_read_ptr demo 3 (w_kernel w') = (Inr 2, w_kernel demo_world)"
proof -
  obtain Q where "wfq (\<lambda>_. 0) Q demo_world" using demo_world_inv by (auto elim: winvE)
  then have Q: "wfq (\<lambda>_. 0) Q demo_moved" by (simp add: demo_moved_def wfq_def)
  obtain k where k: "w_tasks demo_moved 2 = Some k" "t_pipe_wr k = 4" "4 \<noteq> x_pipe_wr (w_exec demo_moved)"
    using demo_task(1) by (auto simp: demo_moved_def)
  have "w_kernel demo_moved = \<lparr>d_next = 6, d_reg = [((5, 3), 0)], d_pipes = [((3, 4), [])], d_schedule = [], d_script = []\<rparr>"
    "w_kernel demo_world = w_kernel demo_moved"
    by (simp_all add: demo_moved_def demo_world_def demo_spawns_def eval_simps eval_user cong: eval_congs)
  with wake_other_executor [OF Q k(1), of demo] k(2,3) show ?thesis by (simp add: demo_def)
qed

definition demo_piped :: "(demo, nat, nat) sched" where
  "demo_piped = demo_world\<lparr>w_kernel := \<lparr>d_next = 6, d_reg = [((5, 3), 0)], d_pipes = [((3, 4), [2])],
     d_schedule = [], d_script = []\<rparr>\<rparr>"

theorem pipe_wakes_task_witness:
  "wake_from_pipe demo demo_piped =
     bind_res (wake_by_ref demo (TaskWaker 2) (demo_piped\<lparr>w_kernel := \<lparr>d_next = 6, d_reg = [((5, 3), 0)],
       d_pipes = [((3, 4), [])], d_schedule = [], d_script = []\<rparr>\<rparr>)) (\<lambda>w'. Ok (Inr (), w'))"
proof -
  have r: "sys_read_ptr demo (x_pipe_rd (w_exec demo_piped)) (w_kernel demo_piped) =
      (Inr 2, \<lparr>d_next = 6, d_reg = [((5, 3), 0)], d_pipes = [((3, 4), [])], d_schedule = [], d_script = []\<rparr>)"
    using demo_task(4) by (simp add: demo_piped_def demo_def)
  have "t_pipe_wr k = x_pipe_wr (w_exec demo_piped) \<and> \<not> t_borrowed k" if "w_tasks demo_piped 2 = Some k" for k
    using that demo_task(1,3) by (auto simp: demo_piped_def)
  from pipe_wakes_task [OF r this] show ?thesis by simp
qed


section \<open>Running a task\<close>

lemma put_task_wfq:
  assumes "wfq E Q w" "w_tasks w t = Some k" "t_priority k' = t_priority k" "t_borrowed k' \<Longrightarrow> 0 < E t"
  shows "wfq E Q (put_task t k' w)"
  using core_put_task [OF wfqD [OF assms(1)] assms(2,3)] assms(4) by (simp add: wfq_def put_task_def)

lemma task_is_queued_wfq:
  assumes "wfq E Q w" "w_tasks w t = Some k"
  shows "task_is_queued t w = Ok (queued Q (TEntry t))"
  unfolding task_is_queued_def
  using iq.is_queued_law [OF core_repr [OF wfqD [OF assms(1)]]] core_entry_live [OF wfqD [OF assms(1)]]
    core_entry [OF wfqD [OF assms(1)]] assms(2) by blast

lemma drop_task_more:
  assumes "1 < strong (w_queue w) (TEntry t)"
  shows "drop_task cs u t w = arc_forget t w"
  using assms by (auto simp: drop_task_def arc_forget_def with_queue_def arc_dec_def)

text \<open>
  C13: a task whose poll is pending goes to sleep, unless it was woken meanwhile: then it
  stays where the wake-up put it, and \<open>run_task\<close> only gives its reference back. Either way
  exactly the task's future and its borrow flag change.
\<close>

theorem pending_task_sleeps_or_stays:
  assumes "w_tasks w t = Some k" and "\<not> t_borrowed k"
    and "poll_future cs u (t_future k) (TaskWaker t) (put_task t (k\<lparr>t_borrowed := True\<rparr>) w) = Ok ((f1, Pending), w1)"
    and "wfq (own t E) Q w1" and "w_tasks w1 t = Some k1" and "E t = 0"
  shows "\<exists>q' Q'. run_task cs S u t w = Ok ((put_task t (k1\<lparr>t_future := f1, t_borrowed := False\<rparr>) w1)\<lparr>w_queue := q'\<rparr>) \<and>
    wfq E Q' ((put_task t (k1\<lparr>t_future := f1, t_borrowed := False\<rparr>) w1)\<lparr>w_queue := q'\<rparr>) \<and>
    (if queued Q (TEntry t) then Q' = Q
     else members Q' (head_of Sleepq w1) = members Q (head_of Sleepq w1) @ [TEntry t] \<and>
          (\<forall>h. h \<noteq> head_of Sleepq w1 \<longrightarrow> members Q' h = members Q h))"
proof -
  let ?k = "k1\<lparr>t_future := f1, t_borrowed := False\<rparr>"
  let ?w = "put_task t ?k w1"
  have W: "wfq (own t E) Q ?w" by (rule put_task_wfq [OF assms(4,5)]) simp_all
  have k: "w_tasks ?w t = Some ?k" by (simp add: put_task_def)
  have run: "run_task cs S u t w = (if \<not> queued Q (TEntry t) then sleep_task t ?w else drop_task cs u t ?w)"
    using assms(1,2,3,5) task_is_queued_wfq [OF W k] by (simp add: run_task_def get_task_def Let_def)
  show ?thesis
  proof (cases "queued Q (TEntry t)")
    case True
    then have s: "1 < strong (w_queue ?w) (TEntry t)" using wfq_count [OF W, of t] by (simp add: refs_def)
    obtain q' where "arc_dec (TEntry t) (w_queue ?w) = Ok q'"
      "core E Q q' (w_tasks ?w) (w_handles ?w) (w_next ?w) (x_id (w_exec ?w))"
      using core_forget [OF wfqD [OF W] s] k by auto
    then show ?thesis
      using True by (intro exI [of _ q'] exI [of _ Q])
        (simp add: run drop_task_more [OF s] arc_forget_def with_queue_def wfq_def)
  next
    case False
    obtain q' where q': "sleep_task t ?w = Ok (?w\<lparr>w_queue := q'\<rparr>)"
      "wfq E (qpush (head_of Sleepq ?w) (TEntry t) Q) (?w\<lparr>w_queue := q'\<rparr>)"
      by (rule sleep_wfq [OF W k]) simp_all
    have h: "head_of Sleepq ?w = head_of Sleepq w1" by (simp add: head_of_def put_task_def)
    obtain xs where xs: "Q (head_of Sleepq w1) = Some xs" using wfq_head(1) [OF assms(4)] by blast
    have out: "filter (\<lambda>x. x \<noteq> TEntry t) (members Q a) = members Q a" for a
    proof -
      have "TEntry t \<notin> set (members Q a)"
        using False by (auto simp: members_def queued_iff split: option.splits)
      then show ?thesis by simp
    qed
    show ?thesis
      using q' False members_qpush [of Q "head_of Sleepq w1" xs "TEntry t", OF xs]
      by (intro exI [of _ q'] exI [of _ "qpush (head_of Sleepq w1) (TEntry t) Q"]) (simp add: run h out)
  qed
qed

theorem pending_task_sleeps_or_stays_witness:
  "\<exists>w' Q' Q. run_task (do_call demo demo_user 1) demo demo_user 4 demo_popped = Ok w' \<and>
     wfq (\<lambda>_. 0) Q' w' \<and>
     members Q' (head_of Sleepq demo_popped) = members Q (head_of Sleepq demo_popped) @ [TEntry 4]"
proof -
  obtain Q where Q: "wfq (own 4 (\<lambda>_. 0)) Q demo_popped"
    using popped_wfq [OF demo_world_inv demo_popped_run] .
  have "\<exists>k. w_tasks demo_popped 4 = Some k \<and> \<not> t_borrowed k \<and> t_future k = User 4"
    "task_is_queued 4 (demo_popped\<lparr>w_tasks := T\<rparr>) = Ok False" for T
    by (simp_all add: demo_popped_def demo_world_def demo_spawns_def eval_simps eval_user cong: eval_congs)
  then obtain k where k: "w_tasks demo_popped 4 = Some k" "\<not> t_borrowed k" "t_future k = User 4"
    and q: "\<And>T. task_is_queued 4 (demo_popped\<lparr>w_tasks := T\<rparr>) = Ok False" by blast
  let ?w1 = "put_task 4 (k\<lparr>t_borrowed := True\<rparr>) demo_popped"
  have W1: "wfq (own 4 (\<lambda>_. 0)) Q ?w1" by (rule put_task_wfq [OF Q k(1)]) simp_all
  have k1: "w_tasks ?w1 4 = Some (k\<lparr>t_borrowed := True\<rparr>)" by (simp add: put_task_def)
  have poll: "poll_future (do_call demo demo_user 1) demo_user (t_future k) (TaskWaker 4) ?w1 = Ok ((User 4, Pending), ?w1)"
    unfolding k(3) by (simp add: poll_future_def eval_user)
  have nq: "\<not> queued Q (TEntry 4)"
    using task_is_queued_wfq [OF W1 k1] q by (simp add: put_task_def)
  obtain w' Q' where "run_task (do_call demo demo_user 1) demo demo_user 4 demo_popped = Ok w'" "wfq (\<lambda>_. 0) Q' w'"
    "members Q' (head_of Sleepq demo_popped) = members Q (head_of Sleepq demo_popped) @ [TEntry 4]"
    using pending_task_sleeps_or_stays [OF k(1,2) poll W1 k1 refl, of demo] nq
    by (auto simp: head_of_def put_task_def)
  then show ?thesis by blast
qed

text \<open>
  C14: when a task returns, its output is stored, the task that awaits its handle is made
  runnable, and only then is it marked as completed.
\<close>

theorem completion_wakes_awaiting_task:
  assumes "w_tasks w t = Some k" and "\<not> t_borrowed k"
    and "poll_future cs u (t_future k) (TaskWaker t) (put_task t (k\<lparr>t_borrowed := True\<rparr>) w) = Ok ((f1, Ready v), w1)"
    and "wfq (own t E) Q w1" and "w_tasks w1 t = Some k1" and "w_handles w1 h = Some t"
    and "t_handle_waker k1 = TaskWaker s" and "w_tasks w1 s = Some ks" and "s \<noteq> t"
    and "\<not> t_borrowed ks" and "\<not> t_has_completed ks" and "t_pipe_wr ks = x_pipe_wr (w_exec w1)"
  shows "\<exists>w' Q'. run_task cs S u t w = Ok w' \<and> wfq E Q' w' \<and>
    w_tasks w' = (w_tasks w1)(t \<mapsto> k1\<lparr>t_future := f1, t_output := Some v,
       t_handle_waker := NoopWaker, t_has_completed := True, t_borrowed := False\<rparr>) \<and>
    members Q' (runq (t_priority ks) w1) =
      filter (\<lambda>e. e \<noteq> TEntry s) (members Q (runq (t_priority ks) w1)) @ [TEntry s]"
proof -
  let ?k2 = "k1\<lparr>t_future := f1, t_output := Some v, t_handle_waker := NoopWaker\<rparr>"
  let ?w2 = "put_task t ?k2 w1"
  let ?k4 = "k1\<lparr>t_future := f1, t_output := Some v, t_handle_waker := NoopWaker, t_has_completed := True, t_borrowed := False\<rparr>"
  have W2: "wfq (own t E) Q ?w2" by (rule put_task_wfq [OF assms(4,5)]) simp_all
  have ks: "w_tasks ?w2 s = Some ks" "t_pipe_wr ks = x_pipe_wr (w_exec ?w2)"
    using assms(8,9,12) by (simp_all add: put_task_def)
  let ?h = "runq (t_priority ks) w1"
  have h: "runq (t_priority ks) ?w2 = ?h" by (simp add: runq_head put_task_def)
  obtain q1 Q1 where q1: "wake_by_ref S (TaskWaker s) ?w2 = Ok (?w2\<lparr>w_queue := q1\<rparr>)"
    "wfq (own t E) Q1 (?w2\<lparr>w_queue := q1\<rparr>)"
    "members Q1 ?h = filter (\<lambda>e. e \<noteq> TEntry s) (members Q ?h) @ [TEntry s]"
    using wake_runnable [OF W2 ks(1) assms(10) ks(2), of S] assms(11) unfolding h by auto
  let ?w3 = "?w2\<lparr>w_queue := q1\<rparr>"
  have k3: "w_tasks ?w3 t = Some ?k2" by (simp add: put_task_def)
  have W4: "wfq (own t E) Q1 (put_task t ?k4 ?w3)" by (rule put_task_wfq [OF q1(2) k3]) simp_all
  let ?w4 = "put_task t ?k4 ?w3"
  have "w_handles ?w4 h = Some t" using assms(6) by (simp add: put_task_def)
  with core_handle_live(3) [OF wfqD [OF W4]] have s: "1 < strong (w_queue ?w4) (TEntry t)"
    using wfq_count [OF W4, of t] by (fastforce simp: refs_def)
  have k4: "w_tasks ?w4 t = Some ?k4" by (simp add: put_task_def)
  obtain q' where q': "arc_dec (TEntry t) (w_queue ?w4) = Ok q'"
      "core E Q1 q' (w_tasks ?w4) (w_handles ?w4) (w_next ?w4) (x_id (w_exec ?w4))"
    using core_forget [OF wfqD [OF W4] s] k4 by auto
  have "run_task cs S u t w = drop_task cs u t ?w4"
    using assms(1,2,3,5,7) q1(1) k3 by (simp add: run_task_def get_task_def Let_def)
  also have "\<dots> = Ok (?w4\<lparr>w_queue := q'\<rparr>)"
    unfolding drop_task_more [OF s] arc_forget_def with_queue_def q'(1) by simp
  finally have run: "run_task cs S u t w = Ok (?w4\<lparr>w_queue := q'\<rparr>)" .
  have "wfq E Q1 (?w4\<lparr>w_queue := q'\<rparr>)" using q'(2) by (simp add: wfq_def)
  with run q1(3) show ?thesis
    by (intro exI [of _ "?w4\<lparr>w_queue := q'\<rparr>"] exI [of _ Q1]) (simp add: put_task_def)
qed

theorem completion_wakes_awaiting_task_witness:
  "\<exists>w' Q' Q. run_task (do_call demo demo_user 1) demo demo_user 2 demo_completing = Ok w' \<and>
     wfq (\<lambda>_. 0) Q' w' \<and> map_option t_output (w_tasks w' 2) = Some (Some 7) \<and>
     members Q' (runq Normal demo_completing) =
       filter (\<lambda>e. e \<noteq> TEntry 4) (members Q (runq Normal demo_completing)) @ [TEntry 4]"
proof -
  obtain Q where Q: "wfq (own 2 (\<lambda>_. 0)) Q demo_completing"
    using popped_wfq [OF demo_awaiting_inv demo_completing_run] .
  have "\<exists>k. w_tasks demo_completing 2 = Some k \<and> \<not> t_borrowed k \<and> t_future k = User 0 \<and> t_handle_waker k = TaskWaker 4"
    "\<exists>k. w_tasks demo_completing 4 = Some k \<and> \<not> t_borrowed k \<and> \<not> t_has_completed k \<and>
       t_pipe_wr k = x_pipe_wr (w_exec demo_completing) \<and> t_priority k = Normal"
    and h: "w_handles demo_completing 3 = Some 2"
    by (simp_all add: demo_completing_def demo_awaiting_def demo_awaits_def eval_simps eval_user cong: eval_congs)
  then obtain k ks where k: "w_tasks demo_completing 2 = Some k" "\<not> t_borrowed k" "t_future k = User 0"
      "t_handle_waker k = TaskWaker 4"
    and ks: "w_tasks demo_completing 4 = Some ks" "\<not> t_borrowed ks" "\<not> t_has_completed ks"
      "t_pipe_wr ks = x_pipe_wr (w_exec demo_completing)" "t_priority ks = Normal" by blast
  let ?w1 = "put_task 2 (k\<lparr>t_borrowed := True\<rparr>) demo_completing"
  have W1: "wfq (own 2 (\<lambda>_. 0)) Q ?w1" by (rule put_task_wfq [OF Q k(1)]) simp_all
  have poll: "poll_future (do_call demo demo_user 1) demo_user (t_future k) (TaskWaker 2) ?w1 = Ok ((User 0, Ready 7), ?w1)"
    unfolding k(3) by (simp add: poll_future_def eval_user)
  have at: "w_tasks ?w1 2 = Some (k\<lparr>t_borrowed := True\<rparr>)" "w_handles ?w1 3 = Some 2"
    "t_handle_waker (k\<lparr>t_borrowed := True\<rparr>) = TaskWaker 4" "w_tasks ?w1 4 = Some ks" "(4::nat) \<noteq> 2"
    "t_pipe_wr ks = x_pipe_wr (w_exec ?w1)" "runq Normal ?w1 = runq Normal demo_completing"
    using h k(4) ks by (simp_all add: put_task_def runq_head)
  obtain w' Q' where w': "run_task (do_call demo demo_user 1) demo demo_user 2 demo_completing = Ok w'"
    "wfq (\<lambda>_. 0) Q' w'" "members Q' (runq Normal demo_completing) =
       filter (\<lambda>e. e \<noteq> TEntry 4) (members Q (runq Normal demo_completing)) @ [TEntry 4]"
    and T: "w_tasks w' 2 = Some (k\<lparr>t_borrowed := True, t_future := User 0, t_output := Some 7,
       t_handle_waker := NoopWaker, t_has_completed := True, t_borrowed := False\<rparr>)"
    using completion_wakes_awaiting_task [OF k(1,2) poll W1 at(1,2,3,4,5) ks(2,3) at(6), of demo]
    unfolding ks(5) at(7) by auto
  have "map_option t_output (w_tasks w' 2) = Some (Some 7)" using T by simp
  with w' show ?thesis by blast
qed

end
