(* ===== verification/Epox_Loop_Theorems.thy ===== *)
theory Epox_Loop_Theorems
  imports Epox_Scheduler_Theorems
begin

text \<open>
  When \<open>run\<close> and \<open>block_on\<close> return, when they never do, and what \<open>abort\<close>, \<open>yield_now\<close>,
  \<open>shutdown\<close>, \<open>spawn_checked\<close> and \<open>Handle\<close> do to a task.
\<close>

section \<open>What waiting for events does not change\<close>

lemma enqueue_frame:
  "enqueue t w = Ok w' \<Longrightarrow> \<exists>q. w' = w\<lparr>w_queue := q\<rparr>"
  by (auto simp: enqueue_def arc_forget_def with_queue_def res_simps split: if_splits)

lemma upgraded_enqueue_frame:
  "weak_upgrade t w = Some w1 \<Longrightarrow> enqueue t w1 = Ok w' \<Longrightarrow> \<exists>q. w' = w\<lparr>w_queue := q\<rparr>"
  by (auto simp: weak_upgrade_def arc_clone_def dest!: enqueue_frame split: if_splits)

definition same_tasks :: "('k, 't, 'v) world \<Rightarrow> ('k, 't, 'v) world \<Rightarrow> bool" where
  "same_tasks w w' \<longleftrightarrow> w_tasks w' = w_tasks w \<and> w_handles w' = w_handles w \<and> w_fds w' = w_fds w \<and>
     w_foreign w' = w_foreign w \<and> w_next w' = w_next w \<and>
     (\<exists>v. w_exec w' = w_exec w\<lparr>x_events := v\<rparr>)"

lemma same_tasks_refl [simp]: "same_tasks w w"
  unfolding same_tasks_def by (auto intro: exI [of _ "x_events (w_exec w)"])

lemma same_tasks_trans: "same_tasks a b \<Longrightarrow> same_tasks b c \<Longrightarrow> same_tasks a c"
  by (auto simp: same_tasks_def)

lemma same_tasks_upd [simp]:
  "same_tasks w (w\<lparr>w_queue := q\<rparr>)" "same_tasks w (w\<lparr>w_kernel := k\<rparr>)" "same_tasks w (w\<lparr>w_ews := e\<rparr>)"
  "same_tasks w (w\<lparr>w_ews := e, w_queue := q\<rparr>)" "same_tasks w (w\<lparr>w_queue := q, w_ews := e\<rparr>)"
  "same_tasks w (w\<lparr>w_kernel := k, w_queue := q\<rparr>)" "same_tasks w (w\<lparr>w_queue := q, w_kernel := k\<rparr>)"
  "same_tasks w (w\<lparr>w_kernel := k, w_exec := w_exec w\<lparr>x_events := v\<rparr>\<rparr>)"
  unfolding same_tasks_def by (auto intro: exI [of _ "x_events (w_exec w)"])

lemma wake_from_pipe_same: "wake_from_pipe S w = Ok (r, w') \<Longrightarrow> same_tasks w w'"
  by (auto simp: wake_from_pipe_def Let_def res_simps split: prod.splits sum.splits if_splits option.splits
      dest!: upgraded_enqueue_frame)

lemma wake_from_event_same: "wake_from_event e w = Ok w' \<Longrightarrow> same_tasks w w'"
  by (auto simp: wake_from_event_def Let_def split: option.splits if_splits waker.splits
      dest!: upgraded_enqueue_frame)

lemma handle_events_same: "handle_events S es w = Ok (r, w') \<Longrightarrow> same_tasks w w'"
proof (induction es arbitrary: w)
  case (Cons e es)
  show ?case
  proof (cases "ev_data e = 0")
    case True
    with Cons.prems obtain z w1 where w1: "wake_from_pipe S w = Ok (z, w1)"
      "(case z of Inl err \<Rightarrow> Ok (Inl err, w1) | Inr _ \<Rightarrow> handle_events S es w1) = Ok (r, w')"
      by (auto simp: res_simps)
    with wake_from_pipe_same [OF w1(1)] Cons.IH [of w1] show ?thesis
      by (cases z) (auto intro: same_tasks_trans)
  next
    case False
    with Cons.prems show ?thesis
      by (auto simp: res_simps dest!: wake_from_event_same Cons.IH intro: same_tasks_trans)
  qed
qed simp

lemma epoll_wait_same: "epoll_wait S tmo w = Ok (r, w') \<Longrightarrow> same_tasks w w'"
  by (auto simp: epoll_wait_def Let_def split: if_splits prod.splits wait_result.splits errno.splits
      dest!: handle_events_same intro: same_tasks_trans [rotated])


lemma none_runnable:
  assumes "wfq E Q w" and "highest_priority_runnable_task w = Ok (None, w1)"
  shows "runnable Q w = []" "w1 = w"
proof -
  show run: "runnable Q w = []"
  proof (rule ccontr)
    assume "runnable Q w \<noteq> []"
    then obtain e es where "runnable Q w = e # es" by (cases "runnable Q w") auto
    from highest_priority_some [OF assms(1) this] assms(2) show False
      by (metis Pair_inject option.distinct(1) res.inject(1))
  qed
  show "w1 = w" using highest_priority_none [OF assms(1) run] assms(2) by simp
qed

lemma highest_priority_head:
  assumes "wfq E Q w" and "highest_priority_runnable_task w = Ok (Some e, w1)"
  shows "e \<in> set (runnable Q w)"
proof (cases "runnable Q w")
  case Nil
  from highest_priority_none [OF assms(1) this] assms(2) show ?thesis by simp
next
  case (Cons a es)
  from highest_priority_some [OF assms(1) this] assms(2) Cons show ?thesis
    by (metis Pair_inject list.set_intros(1) option.inject res.inject(1))
qed

lemma sleepq_is_empty_wfq:
  assumes "wfq E Q w" shows "sleepq_is_empty w = Ok (members Q (head_of Sleepq w) = [])"
proof -
  obtain ss where ss: "Q (head_of Sleepq w) = Some ss" using wfq_head(1) [OF assms] by blast
  with iq.is_empty_law [OF core_repr [OF wfqD [OF assms]] ss] show ?thesis
    by (simp add: sleepq_is_empty_def members_def)
qed

section \<open>When \<open>run\<close> returns\<close>

context call_semantics
begin

lemma run_loop_exit:
  assumes K: "kernel_ok reg S"
  shows "winv reg E G w \<Longrightarrow> run_loop cs S u n w = Ok (Inr (), w') \<Longrightarrow>
    x_shutdown (w_exec w') \<or> (\<exists>Q. wfq E Q w' \<and> runnable Q w' = [] \<and> members Q (head_of Sleepq w') = [])"
proof (induction n arbitrary: w)
  case (Suc n)
  obtain r w1 where r: "highest_priority_runnable_task w = Ok (r, w1)"
    using Suc.prems(2) by (cases "highest_priority_runnable_task w") auto
  have after_wait: ?case
    if I: "winv reg E G w2" and R: "bind_res (epoll_wait S tmo w2) (\<lambda>(z, w3). case z of
        Inl err \<Rightarrow> Ok (Inl err, w3) | Inr _ \<Rightarrow> run_loop cs S u n w3) = Ok (Inr (), w')" for w2 tmo
  proof -
    obtain z w3 where z: "epoll_wait S tmo w2 = Ok (z, w3)"
      "(case z of Inl err \<Rightarrow> Ok (Inl err, w3) | Inr _ \<Rightarrow> run_loop cs S u n w3) = Ok (Inr (), w')"
      using R by (auto simp: res_simps)
    with epoll_wait_inv [OF K I, of tmo] Suc.IH [of w3] show ?thesis by (cases z) simp_all
  qed
  show ?case
  proof (cases r)
    case None
    show ?thesis
    proof (rule winvE [OF Suc.prems(1)])
      fix Q assume Q: "wfq E Q w"
      note run = none_runnable [OF Q r [unfolded None]]
      note e = sleepq_is_empty_wfq [OF Q]
      show ?thesis
      proof (cases "members Q (head_of Sleepq w) = []")
        case True
        with Suc.prems(2) r None run(2) e have "w' = w" by simp
        with Q run(1) True show ?thesis by auto
      next
        case False
        with Suc.prems(2) r None run(2) e show ?thesis
          by (intro after_wait [OF Suc.prems(1), of TimeoutNone]) simp
      qed
    qed
  next
    case (Some e)
    obtain t where t: "e = TEntry t" "winv reg (own t E) G w1"
      using highest_priority_inv [OF Suc.prems(1)] r Some by auto
    obtain w2 where w2: "run_entry cs S u e w1 = Ok w2"
      using Suc.prems(2) r Some by (cases "run_entry cs S u e w1") auto
    have I2: "winv reg E G w2" using run_entry_inv [OF K t(2), of u] w2 t(1) by simp
    show ?thesis
    proof (cases "x_shutdown (w_exec w2)")
      case True
      with Suc.prems(2) r Some w2 show ?thesis by simp
    next
      case False
      with Suc.prems(2) r Some w2 show ?thesis
        by (intro after_wait [OF I2, of TimeoutZero]) simp
    qed
  qed
qed simp

end

text \<open>
  C10: the loop of \<open>run\<close> ends without an error only when the executor was shut down, or
  when no task is runnable and none is asleep.
\<close>

theorem run_ends_when_idle_or_shut_down:
  assumes "kernel_ok reg S" and "winv reg E G w"
    and "run_loop (do_call S u m) S u n w = Ok (Inr (), w')"
  shows "x_shutdown (w_exec w') \<or>
    (\<exists>Q. wfq E Q w' \<and> runnable Q w' = [] \<and> members Q (head_of Sleepq w') = [])"
  using assms by (rule calls.run_loop_exit)


theorem run_ends_when_idle_or_shut_down_witness:
  "\<exists>w'. run_loop (do_call demo demo_user 2) demo demo_user 3 (demo_single 0) = Ok (Inr (), w') \<and>
     (x_shutdown (w_exec w') \<or>
      (\<exists>Q. wfq (\<lambda>_. 0) Q w' \<and> runnable Q w' = [] \<and> members Q (head_of Sleepq w') = []))"
proof -
  have "\<exists>w'. run_loop (do_call demo demo_user 2) demo demo_user 3 (demo_single 0) = Ok (Inr (), w')"
    by (simp add: demo_single_def demo_one_def eval_simps eval_user cong: eval_congs)
  then show ?thesis using run_ends_when_idle_or_shut_down [OF demo_ok demo_single_inv] by blast
qed

section \<open>When the loops never return\<close>

lemma no_events_no_wait: "x_events (w_exec w) = [] \<Longrightarrow> epoll_wait S tmo w = Ok (Inr (), w)"
  by (simp add: epoll_wait_def)

text \<open>
  C32: an executor whose event buffer is empty never looks at epoll or at its pipe again.
  If a task is asleep and none is runnable, \<open>run\<close> then spins for ever: no amount of fuel
  lets it return, although events or wake-ups may be pending in the kernel.
\<close>

theorem run_livelocks_without_event_slots:
  assumes "wfq E Q w" and "runnable Q w = []" and "members Q (head_of Sleepq w) \<noteq> []"
    and "x_events (w_exec w) = []"
  shows "run cs S u n w = Fault NoFuel"
proof -
  have "sleepq_is_empty w = Ok False"
    using sleepq_is_empty_wfq [OF assms(1)] assms(3) by simp
  then have "run_loop cs S u n w = Fault NoFuel"
    using highest_priority_none [OF assms(1,2)] no_events_no_wait [OF assms(4)]
    by (induction n) simp_all
  then show ?thesis by (simp add: run_def)
qed

text \<open>
  How an executor gets there: an \<open>Fd\<close> outlives \<open>run\<close>, which replaces the executor; dropping
  it takes a slot from the event buffer of the new executor, whose only slot is the
  pipe's. Then a task is spawned that waits for ever, and another \<open>run\<close> is called.
\<close>

definition demo_stale_fd :: "(unit, nat, nat) prog" where
  "demo_stale_fd = Call (CFdNew 100 EPOLLIN) (\<lambda>_. Call CRun (\<lambda>_. Call (CFdDrop 3)
     (\<lambda>_. Call (CSpawn (builder_new 4 here)) (\<lambda>_. Call (CBlockOn 1) (\<lambda>_. Ret ())))))"

definition demo_stale :: "(demo, nat, nat) sched" where
  "demo_stale = (case run_thread demo demo_user 3 demo_stale_fd demo_start of
     Ok (_, w) \<Rightarrow> w | Fault _ \<Rightarrow> empty_world demo_start)"

lemma demo_stale_run: "run_thread demo demo_user 3 demo_stale_fd demo_start = Ok ((), demo_stale)"
  by (simp add: demo_stale_def demo_stale_fd_def eval_simps eval_user cong: eval_congs)

lemma demo_stale_inv: "winv demo_reg (\<lambda>_. 0) ({}, {}) demo_stale"
  using run_thread_inv [OF demo_ok, of demo_user 3 demo_stale_fd demo_start]
  unfolding demo_stale_run by simp

lemma demo_stale_state:
  "x_events (w_exec demo_stale) = []" "\<exists>w. highest_priority_runnable_task demo_stale = Ok (None, w)"
  "sleepq_is_empty demo_stale = Ok False"
  by (simp_all add: demo_stale_def demo_stale_fd_def eval_simps eval_user cong: eval_congs)

theorem run_livelocks_without_event_slots_witness:
  "\<forall>n. run (do_call demo demo_user 9) demo demo_user n demo_stale = Fault NoFuel"
proof
  fix n
  obtain Q where Q: "wfq (\<lambda>_. 0) Q demo_stale" using demo_stale_inv by (auto elim: winvE)
  obtain w where "highest_priority_runnable_task demo_stale = Ok (None, w)" using demo_stale_state(2) by blast
  note run = none_runnable(1) [OF Q this]
  have "members Q (head_of Sleepq demo_stale) \<noteq> []"
    using sleepq_is_empty_wfq [OF Q] demo_stale_state(3) by simp
  from run_livelocks_without_event_slots [OF Q run this demo_stale_state(1)]
  show "run (do_call demo demo_user 9) demo demo_user n demo_stale = Fault NoFuel" .
qed

text \<open>
  C33: \<open>block_on\<close> of a future that wakes its own waker and is pending, as \<open>yield_now\<close> does,
  never returns when no other task is runnable and no event arrives: the wake-up of
  \<open>block_on\<close>'s waker on its own thread is dropped, and the executor waits without a limit.
\<close>

theorem block_on_loses_own_wakeup:
  assumes "wfq E Q w" and "runnable Q w = []" and "x_events (w_exec w) \<noteq> []"
    and "u_poll u f (BlockOnWaker (x_pipe_wr (w_exec w))) =
           Call (CWake (BlockOnWaker (x_pipe_wr (w_exec w)))) (\<lambda>_. Ret (f1, Pending))"
    and "sys_epoll_wait S (x_epoll (w_exec w)) (length (x_events (w_exec w))) TimeoutNone (w_kernel w) = (WaitForever, k)"
  shows "block_on (do_call S u (Suc m)) S u (Suc n) f w = Fault Blocked"
  using highest_priority_none [OF assms(1,2)] assms(3-5)
  by (simp add: block_on_def wake_by_ref_def block_on_wake_def epoll_wait_def)

theorem block_on_loses_own_wakeup_witness:
  "block_on (do_call demo demo_user 1) demo demo_user 1 1 demo_idle = Fault Blocked"
proof -
  obtain Q where Q: "wfq (\<lambda>_. 0) Q demo_idle" using demo_idle_inv by (auto elim: winvE)
  have "\<exists>w1. highest_priority_runnable_task demo_idle = Ok (None, w1)"
    and ev: "x_events (w_exec demo_idle) \<noteq> []"
    and poll: "u_poll demo_user 1 (BlockOnWaker (x_pipe_wr (w_exec demo_idle))) =
           Call (CWake (BlockOnWaker (x_pipe_wr (w_exec demo_idle)))) (\<lambda>_. Ret (0, Pending))"
    and wait: "sys_epoll_wait demo (x_epoll (w_exec demo_idle)) (length (x_events (w_exec demo_idle))) TimeoutNone
           (w_kernel demo_idle) = (WaitForever, w_kernel demo_idle)"
    by (simp_all add: demo_idle_def eval_simps eval_user cong: eval_congs)
  then obtain w1 where "highest_priority_runnable_task demo_idle = Ok (None, w1)" by blast
  note run = none_runnable(1) [OF Q this]
  from block_on_loses_own_wakeup [OF Q run ev poll wait, of 0 0] show ?thesis by simp
qed

end
