(* ===== verification/Epox_Task_Theorems.thy ===== *)
theory Epox_Task_Theorems
  imports Epox_Loop_Theorems
begin

text \<open>
  What \<open>abort\<close>, \<open>yield_now\<close>, \<open>shutdown\<close>, \<open>spawn_checked\<close> and \<open>Handle\<close> do to a task, and
  programs in which a task runs when it should not.
\<close>

section \<open>Aborting\<close>

lemma abort_members:
  assumes "wfq E Q w" and "w_handles w h = Some t"
  obtains q' where "handle_abort t w = Ok (w\<lparr>w_queue := q'\<rparr>)"
    "wfq E (qremove (TEntry t) Q) (w\<lparr>w_queue := q'\<rparr>)"
    "\<And>a. members (qremove (TEntry t) Q) a = filter (\<lambda>e. e \<noteq> TEntry t) (members Q a)"
proof -
  obtain q' where "abort_task t (arc_clone t w) = Ok (w\<lparr>w_queue := q'\<rparr>)"
    "wfq E (qremove (TEntry t) Q) (w\<lparr>w_queue := q'\<rparr>)"
    using abort_wfq [OF assms] .
  moreover have "members (qremove (TEntry t) Q) a = filter (\<lambda>e. e \<noteq> TEntry t) (members Q a)" for a
    by (cases "Q a") (simp_all add: members_def qremove_def)
  ultimately show ?thesis by (intro that) (simp_all add: handle_abort_def)
qed

text \<open>
  C22: aborting through a handle takes the task out of every queue, drops the reference
  the queue held, and leaves the other tasks in their order.
\<close>

theorem abort_removes_from_queues:
  assumes "wfq E Q w" and "w_handles w h = Some t"
  shows "\<exists>q' Q'. handle_abort t w = Ok (w\<lparr>w_queue := q'\<rparr>) \<and> wfq E Q' (w\<lparr>w_queue := q'\<rparr>) \<and>
    \<not> queued Q' (TEntry t) \<and> (\<forall>a. members Q' a = filter (\<lambda>e. e \<noteq> TEntry t) (members Q a))"
  using abort_members [OF assms] by (metis queued_qremove)

theorem abort_removes_from_queues_witness:
  "\<exists>q' Q'. handle_abort 2 demo_world = Ok (demo_world\<lparr>w_queue := q'\<rparr>) \<and>
     wfq (\<lambda>_. 0) Q' (demo_world\<lparr>w_queue := q'\<rparr>) \<and> \<not> queued Q' (TEntry 2)"
proof -
  obtain Q where Q: "wfq (\<lambda>_. 0) Q demo_world" using demo_world_inv by (auto elim: winvE)
  have "w_handles demo_world 3 = Some 2"
    by (simp add: demo_world_def demo_spawns_def eval_simps eval_user cong: eval_congs)
  from abort_removes_from_queues [OF Q this] show ?thesis by blast
qed

text \<open>
  C34: an abort is not final. It does not mark the task as completed, so a later wake-up
  makes the aborted task runnable again, as long as a handle keeps it alive.
\<close>

theorem aborted_task_runs_again_when_woken:
  assumes "wfq E Q w" and "w_handles w h = Some t" and "w_tasks w t = Some k"
    and "\<not> t_borrowed k" and "\<not> t_has_completed k" and "t_pipe_wr k = x_pipe_wr (w_exec w)"
  shows "\<exists>w1 w2 Q2. handle_abort t w = Ok w1 \<and> wake_by_ref S (TaskWaker t) w1 = Ok w2 \<and>
    wfq E Q2 w2 \<and> TEntry t \<in> set (runnable Q2 w2)"
proof -
  obtain q1 where q1: "handle_abort t w = Ok (w\<lparr>w_queue := q1\<rparr>)"
    "wfq E (qremove (TEntry t) Q) (w\<lparr>w_queue := q1\<rparr>)"
    using abort_members [OF assms(1,2)] by metis
  have k: "w_tasks (w\<lparr>w_queue := q1\<rparr>) t = Some k" "t_pipe_wr k = x_pipe_wr (w_exec (w\<lparr>w_queue := q1\<rparr>))"
    using assms(3,6) by simp_all
  obtain q2 Q2 where q2: "wake_by_ref S (TaskWaker t) (w\<lparr>w_queue := q1\<rparr>) = Ok (w\<lparr>w_queue := q1, w_queue := q2\<rparr>)"
    "wfq E Q2 (w\<lparr>w_queue := q1, w_queue := q2\<rparr>)"
    "TEntry t \<in> set (members Q2 (runq (t_priority k) (w\<lparr>w_queue := q1\<rparr>)))"
    using wake_runnable [OF q1(2) k(1) assms(4) k(2), of S] assms(5) by auto
  then have "TEntry t \<in> set (runnable Q2 (w\<lparr>w_queue := q1, w_queue := q2\<rparr>))"
    by (cases "t_priority k") (auto simp: runnable_def runq_head)
  with q1(1) q2(1,2) show ?thesis by blast
qed

theorem aborted_task_runs_again_when_woken_witness:
  "\<exists>w1 w2 Q2. handle_abort 2 demo_world = Ok w1 \<and> wake_by_ref demo (TaskWaker 2) w1 = Ok w2 \<and>
     wfq (\<lambda>_. 0) Q2 w2 \<and> TEntry 2 \<in> set (runnable Q2 w2)"
proof -
  obtain Q where Q: "wfq (\<lambda>_. 0) Q demo_world" using demo_world_inv by (auto elim: winvE)
  have h: "w_handles demo_world 3 = Some 2"
    by (simp add: demo_world_def demo_spawns_def eval_simps eval_user cong: eval_congs)
  obtain k where k: "w_tasks demo_world 2 = Some k" "\<not> t_borrowed k" "\<not> t_has_completed k"
    "t_pipe_wr k = x_pipe_wr (w_exec demo_world)" using demo_task by auto
  from aborted_task_runs_again_when_woken [OF Q h k, of demo] show ?thesis .
qed

section \<open>Yielding\<close>

lemma same_tasks_runq: "same_tasks w w' \<Longrightarrow> runq p w' = runq p w"
  by (auto simp: same_tasks_def runq_head)







section \<open>Tasks that run when they should not\<close>

lemma members_queued: "e \<in> set (members Q h) \<Longrightarrow> queued Q e"
  by (cases "Q h") (auto simp: members_def intro: queuedI)

text \<open>
  A task that is made runnable while it is polled - by waking itself, for instance -
  and returns in the same poll stays in its run queue although it has completed. The
  executor will poll its future again.
\<close>

theorem completed_task_stays_runnable:
  assumes "w_tasks w t = Some k" and "\<not> t_borrowed k"
    and "poll_future cs u (t_future k) (TaskWaker t) (put_task t (k\<lparr>t_borrowed := True\<rparr>) w) = Ok ((f1, Ready v), w1)"
    and "wfq (own t E) Q w1" and "w_tasks w1 t = Some k1" and "t_handle_waker k1 = NoopWaker"
    and "TEntry t \<in> set (runnable Q w1)"
  shows "\<exists>w' k'. run_task cs S u t w = Ok w' \<and> wfq E Q w' \<and> w_tasks w' t = Some k' \<and>
    t_has_completed k' \<and> TEntry t \<in> set (runnable Q w')"
proof -
  let ?k4 = "k1\<lparr>t_future := f1, t_output := Some v, t_handle_waker := NoopWaker, t_has_completed := True, t_borrowed := False\<rparr>"
  let ?w4 = "put_task t ?k4 w1"
  have W4: "wfq (own t E) Q ?w4" by (rule put_task_wfq [OF assms(4,5)]) simp_all
  have "queued Q (TEntry t)"
    using assms(7) by (auto simp: runnable_def dest: members_queued)
  then have s: "1 < strong (w_queue ?w4) (TEntry t)" using wfq_count [OF W4, of t] by (simp add: refs_def)
  obtain q' where q': "arc_dec (TEntry t) (w_queue ?w4) = Ok q'"
      "core E Q q' (w_tasks ?w4) (w_handles ?w4) (w_next ?w4) (x_id (w_exec ?w4))"
    using core_forget [OF wfqD [OF W4] s] by (auto simp: put_task_def)
  have "run_task cs S u t w = drop_task cs u t ?w4"
    using assms(1,2,3,5,6) by (simp add: run_task_def get_task_def Let_def put_task_def wake_by_ref_def)
  then have "run_task cs S u t w = Ok (?w4\<lparr>w_queue := q'\<rparr>)"
    unfolding drop_task_more [OF s] arc_forget_def with_queue_def q'(1) by simp
  moreover have "wfq E Q (?w4\<lparr>w_queue := q'\<rparr>)" using q'(2) by (simp add: wfq_def)
  moreover have "TEntry t \<in> set (runnable Q (?w4\<lparr>w_queue := q'\<rparr>))"
    using assms(7) by (simp add: runnable_def runq_head put_task_def)
  ultimately show ?thesis by (intro exI [of _ "?w4\<lparr>w_queue := q'\<rparr>"] exI [of _ ?k4]) (simp add: put_task_def)
qed



text \<open>
  Once a task has called \<open>shutdown\<close>, \<open>run\<close> returns without polling the tasks that are
  still runnable (the future 3 panics when it is polled), and the program goes on.
\<close>

theorem shutdown_skips_runnable_tasks:
  "outcome (run_thread demo demo_user 5 (Call (CSpawn (builder_new 8 here)) (\<lambda>_.
       Call (CSpawn (builder_new 3 here)) (\<lambda>_. Call CRun Ret))) demo_start) = Inr (RRun (Inr ()))"
  by (simp add: eval_simps eval_user cong: eval_congs)

section \<open>Checked tasks\<close>


section \<open>Handles\<close>

text \<open>
  The result of a task can be taken once. A second \<open>result\<close> is \<open>None\<close>, and awaiting
  the handle after that is pending; while the task is being polled both panic.
\<close>

theorem handle_result_once:
  assumes "w_tasks w t = Some k"
  shows "if t_borrowed k
    then handle_result t w = Fault (Panic BorrowMutError) \<and> handle_poll t wk w = Fault (Panic BorrowMutError)
    else \<exists>w1 w2. handle_result t w = Ok (t_output k, w1) \<and> handle_result t w1 = Ok (None, w1) \<and>
      handle_poll t wk w1 = Ok (Pending, w2) \<and> w_tasks w2 = (w_tasks w1)(t \<mapsto> (k\<lparr>t_output := None,
        t_handle_waker := waker_clone wk w\<rparr>))"
  using assms
  by (auto simp: handle_result_def handle_poll_def get_task_def put_task_def waker_clone_def split: waker.splits)


text \<open>
  Witnesses: a thread that has taken its only task from the run queue. The task of
  \<open>demo_taken 2\<close> wakes itself and returns; that of \<open>demo_checked\<close> returns an error.
\<close>

definition demo_taken :: "nat \<Rightarrow> (demo, nat, nat) sched" where
  "demo_taken f = (case highest_priority_runnable_task (demo_single f) of
     Ok (_, w) \<Rightarrow> w | Fault _ \<Rightarrow> demo_single f)"

lemma demo_taken_run: "highest_priority_runnable_task (demo_single f) = Ok (Some (TEntry 2), demo_taken f)"
  by (simp add: demo_taken_def demo_single_def demo_one_def eval_simps here_def cong: eval_congs)

lemma demo_taken_inv: "winv demo_reg (own 2 (\<lambda>_. 0)) ({}, {}) (demo_taken f)"
  using highest_priority_inv [OF demo_single_inv [of f]] demo_taken_run [of f] by simp

theorem completed_task_stays_runnable_witness:
  "\<exists>w' k' Q. run_task (do_call demo demo_user 1) demo demo_user 2 (demo_taken 2) = Ok w' \<and>
     wfq (\<lambda>_. 0) Q w' \<and> w_tasks w' 2 = Some k' \<and> t_has_completed k' \<and> TEntry 2 \<in> set (runnable Q w')"
proof -
  have "\<exists>k. w_tasks (demo_taken 2) 2 = Some k \<and> \<not> t_borrowed k \<and> t_handle_waker k = NoopWaker \<and> t_future k = User 2 \<and>
      t_priority k = Normal \<and> \<not> t_has_completed k \<and> t_pipe_wr k = 4"
    by (simp add: demo_taken_def demo_single_def demo_one_def eval_simps here_def cong: eval_congs)
  then obtain k where k: "w_tasks (demo_taken 2) 2 = Some k" "\<not> t_borrowed k" "t_handle_waker k = NoopWaker"
    "t_future k = User 2" "t_priority k = Normal" "\<not> t_has_completed k" "t_pipe_wr k = 4" by blast
  let ?w = "put_task 2 (k\<lparr>t_borrowed := True\<rparr>) (demo_taken 2)"
  have I: "winv demo_reg (own 2 (\<lambda>_. 0)) ({}, {}) ?w"
    by (rule put_task_inv [OF demo_taken_inv k(1)]) simp_all
  have "\<exists>w1. wake_task demo 2 ?w = Ok w1 \<and> w_tasks w1 = w_tasks ?w \<and>
      (\<exists>w2. highest_priority_runnable_task w1 = Ok (Some (TEntry 2), w2))"
    using k by (simp add: demo_taken_def demo_single_def demo_one_def eval_simps here_def cong: eval_congs)
  then obtain w1 w2 where w1: "wake_task demo 2 ?w = Ok w1" "w_tasks w1 = w_tasks ?w"
    "highest_priority_runnable_task w1 = Ok (Some (TEntry 2), w2)" by blast
  have "winv demo_reg (own 2 (\<lambda>_. 0)) ({}, {}) w1" using wake_task_inv [OF demo_ok I, of 2] w1(1) by simp
  then obtain Q where Q: "wfq (own 2 (\<lambda>_. 0)) Q w1" by (rule winvE)
  have r: "TEntry 2 \<in> set (runnable Q w1)" using highest_priority_head [OF Q w1(3)] .
  have poll: "poll_future (do_call demo demo_user 1) demo_user (t_future k) (TaskWaker 2) ?w = Ok ((User 3, Ready 7), w1)"
    using k(4) w1(1) by (simp add: poll_future_def eval_user wake_by_ref_def)
  have k1: "w_tasks w1 2 = Some (k\<lparr>t_borrowed := True\<rparr>)" "t_handle_waker (k\<lparr>t_borrowed := True\<rparr>) = NoopWaker"
    using w1(2) k(3) by (simp_all add: put_task_def)
  from completed_task_stays_runnable [OF k(1,2) poll Q k1 r, of demo] show ?thesis by blast
qed





theorem handle_result_once_witness:
  "\<exists>w1 w2 r. handle_result 2 demo_world = Ok (r, w1) \<and> handle_result 2 w1 = Ok (None, w1) \<and>
     handle_poll 2 NoopWaker w1 = Ok (Pending, w2)"
proof -
  obtain k where k: "w_tasks demo_world 2 = Some k" "\<not> t_borrowed k" using demo_task(1) by blast
  from handle_result_once [OF k(1), of NoopWaker] k(2) show ?thesis by auto
qed

section \<open>Spawning\<close>

lemma spawn_task_wfq:
  fixes w :: "('k, 't, 'v) world"
  assumes W: "wfq E Q w"
  shows "\<exists>q' Q'. spawn_task f p md w = Ok (Suc (w_next w), w\<lparr>w_tasks := (w_tasks w)(w_next w \<mapsto> executor_task_new (x_pipe_wr (w_exec w)) f p md),
      w_next := Suc (Suc (w_next w)), w_queue := q', w_handles := (w_handles w)(Suc (w_next w) \<mapsto> w_next w)\<rparr>) \<and>
    wfq E Q' (w\<lparr>w_tasks := (w_tasks w)(w_next w \<mapsto> executor_task_new (x_pipe_wr (w_exec w)) f p md),
      w_next := Suc (Suc (w_next w)), w_queue := q', w_handles := (w_handles w)(Suc (w_next w) \<mapsto> w_next w)\<rparr>) \<and>
    Q' = qpush (runq p w) (TEntry (w_next w)) Q \<and> \<not> queued Q (TEntry (w_next w)) \<and> w_tasks w (w_next w) = None"
proof -
  let ?t = "w_next w" and ?k = "executor_task_new (x_pipe_wr (w_exec w)) f p md :: ('t, 'v) executor_task"
  let ?w1 = "w\<lparr>w_queue := entry_alloc (TEntry ?t) (w_queue w),
                 w_tasks := (w_tasks w)(?t \<mapsto> ?k), w_next := Suc (Suc ?t)\<rparr>"
  have k: "\<not> t_borrowed ?k" "\<not> t_has_completed ?k" "t_priority ?k = p" by (simp_all add: executor_task_new_def)
  have W1: "wfq (own ?t E) Q ?w1"
    using core_alloc_task [OF wfqD [OF W], of ?t "Suc (Suc ?t)" ?k] k(1) by (simp add: wfq_def)
  have "0 < strong (w_queue ?w1) (TEntry ?t)" using wfq_live [OF W1] by auto
  from clone_wfq [OF W1 this] have W2: "wfq (own ?t (own ?t E)) Q (arc_clone ?t ?w1)" .
  have T: "w_tasks (arc_clone ?t ?w1) ?t = Some ?k" by (simp add: arc_clone_def)
  obtain q' where q'0: "enqueue ?t (arc_clone ?t ?w1) = Ok ((arc_clone ?t ?w1)\<lparr>w_queue := q'\<rparr>)"
    "wfq (own ?t E) (if t_has_completed ?k then Q else qpush (runq (t_priority ?k) (arc_clone ?t ?w1)) (TEntry ?t) Q)
      ((arc_clone ?t ?w1)\<lparr>w_queue := q'\<rparr>)"
  proof (rule enqueue_wfq [OF W2 T])
    show "t_has_completed ?k \<Longrightarrow> 1 < strong (w_queue (arc_clone ?t ?w1)) (TEntry ?t)" using k by simp
    show "t_borrowed ?k \<Longrightarrow> 0 < own ?t E ?t" by simp
  qed (rule that)
  have "runq p (arc_clone ?t ?w1) = runq p w" by (simp add: arc_clone_def runq_def head_of_def split: priority.split)
  with q'0 k have q': "enqueue ?t (arc_clone ?t ?w1) = Ok ((arc_clone ?t ?w1)\<lparr>w_queue := q'\<rparr>)"
    "wfq (own ?t E) (qpush (runq p w) (TEntry ?t) Q) ((arc_clone ?t ?w1)\<lparr>w_queue := q'\<rparr>)" by simp_all
  have fresh: "w_tasks w ?t = None" "w_handles w (Suc ?t) = None"
    using core_fresh [OF wfqD [OF W], of ?t] core_fresh [OF wfqD [OF W], of "Suc ?t"] by auto
  have "\<not> queued Q (TEntry ?t)"
    using core_queued_live [OF wfqD [OF W], of "TEntry ?t"] fresh(1) by auto
  moreover have "wfq E (qpush (runq p w) (TEntry ?t) Q) (w\<lparr>w_tasks := (w_tasks w)(?t \<mapsto> ?k), w_next := Suc (Suc ?t),
      w_queue := q', w_handles := (w_handles w)(Suc ?t \<mapsto> ?t)\<rparr>)"
    using core_handle_add [OF q'(2) [unfolded wfq_def], of "Suc ?t"] fresh k
    by (simp add: wfq_def arc_clone_def)
  ultimately show ?thesis
    using q'(1) fresh(1) by (intro exI [of _ q'] exI) (simp add: spawn_task_def Let_def arc_clone_def)
qed

text \<open>
  C16: spawning creates a new task and puts it behind every runnable task of its priority,
  without polling it; the other queues and all other tasks stay as they are. The task
  carries the priority and name of its builder, and the handle returned refers to it. A
  builder without a name or priority gives the empty name and normal priority.
\<close>

theorem spawn_makes_runnable:
  fixes w :: "('k, 'f, 'v) sched"
  assumes "wfq E Q w"
  shows "\<exists>h t w' Q' k. spawn b w = Ok (h, w') \<and> wfq E Q' w' \<and>
    w_handles w' = (w_handles w)(h \<mapsto> t) \<and> w_tasks w t = None \<and> w_tasks w' = (w_tasks w)(t \<mapsto> k) \<and>
    t_future k = User (b_future b) \<and> t_priority k = b_priority b \<and>
    handle_name t w' = Ok (case b_name b of None \<Rightarrow> [] | Some n \<Rightarrow> n) \<and> handle_result t w' = Ok (None, put_task t k w') \<and>
    members Q' (runq (b_priority b) w) = members Q (runq (b_priority b) w) @ [TEntry t] \<and>
    (\<forall>a. a \<noteq> runq (b_priority b) w \<longrightarrow> members Q' a = members Q a)"
proof -
  let ?md = "\<lparr>md_spawn_location = b_spawn_location b, md_priority = b_priority b, md_spawn_checked = True,
       md_name = (case b_name b of None \<Rightarrow> [] | Some n \<Rightarrow> n)\<rparr>"
  let ?k = "executor_task_new (x_pipe_wr (w_exec w)) (User (b_future b)) (b_priority b) ?md :: ('f task_future, 'v) executor_task"
  let ?h = "runq (b_priority b) w" and ?t = "w_next w"
  obtain q' Q' where s: "spawn_task (User (b_future b)) (b_priority b) ?md w = Ok (Suc ?t, w\<lparr>w_tasks := (w_tasks w)(?t \<mapsto> ?k),
      w_next := Suc (Suc ?t), w_queue := q', w_handles := (w_handles w)(Suc ?t \<mapsto> ?t)\<rparr>)"
    "wfq E Q' (w\<lparr>w_tasks := (w_tasks w)(?t \<mapsto> ?k), w_next := Suc (Suc ?t), w_queue := q',
      w_handles := (w_handles w)(Suc ?t \<mapsto> ?t)\<rparr>)" "Q' = qpush ?h (TEntry ?t) Q" "\<not> queued Q (TEntry ?t)" "w_tasks w ?t = None"
    using spawn_task_wfq [OF assms] by blast
  obtain xs where xs: "Q ?h = Some xs" using wfq_head(2) [OF assms] by blast
  have same: "qremove (TEntry ?t) Q = Q" using s(4) by (rule qremove_id)
  have "members Q' ?h = members Q ?h @ [TEntry ?t]" "\<And>a. a \<noteq> ?h \<Longrightarrow> members Q' a = members Q a"
    by (simp_all add: s(3) qpush_def same members_def xs)
  with s show ?thesis
    by (intro exI [of _ "Suc ?t"] exI [of _ ?t] exI [of _ "w\<lparr>w_tasks := (w_tasks w)(?t \<mapsto> ?k), w_next := Suc (Suc ?t),
        w_queue := q', w_handles := (w_handles w)(Suc ?t \<mapsto> ?t)\<rparr>"] exI [of _ Q'] exI [of _ ?k])
      (simp add: spawn_def into_parts_def handle_name_def handle_result_def get_task_def put_task_def executor_task_new_def)
qed

theorem spawn_makes_runnable_witness:
  "\<exists>h t w' Q'. spawn_with_priority 1 Low here demo_world = Ok (h, w') \<and> wfq (\<lambda>_. 0) Q' w' \<and>
     TEntry t \<in> set (members Q' (runq Low demo_world)) \<and> handle_name t w' = Ok []"
proof -
  obtain Q where Q: "wfq (\<lambda>_. 0) Q demo_world" using demo_world_inv by (auto elim: winvE)
  from spawn_makes_runnable [OF Q, of "builder_priority Low (builder_new 1 here)"]
  obtain h t w' Q' where r: "spawn (builder_priority Low (builder_new 1 here)) demo_world = Ok (h, w')" "wfq (\<lambda>_. 0) Q' w'"
    "members Q' (runq Low demo_world) = members Q (runq Low demo_world) @ [TEntry t]" "handle_name t w' = Ok []"
    by (auto simp: builder_new_def builder_priority_def)
  then have "TEntry t \<in> set (members Q' (runq Low demo_world))" by simp
  with r show ?thesis unfolding spawn_with_priority_def by blast
qed

end
