(* ===== verification/Epox_Fd_Theorems.thy ===== *)
theory Epox_Fd_Theorems
  imports Epox_Scheduler_Theorems
begin

text \<open>
  The event machinery: what \<open>EpollWaker::poll_with\<close> returns and stores, when its retry loop
  ends, how its burst limit keeps a ready descriptor from starving other tasks, what an
  epoll event does to the waker and the task behind it, and how \<open>Fd\<close> accounts for
  registrations and event slots.
\<close>

section \<open>The retry loop\<close>

abbreviation interrupted :: "('s \<Rightarrow> (io_error + 'a) \<times> 's) \<Rightarrow> 's \<Rightarrow> bool" where
  "interrupted f s \<equiv> (\<exists>e. fst (f s) = Inl e \<and> kind e = Interrupted)"

lemma retry_again: "interrupted f s \<Longrightarrow> retry_interrupted f s = retry_interrupted f (snd (f s))"
  by (subst retry_interrupted.simps) (auto split: prod.splits)

lemma retry_stop: "\<not> interrupted f s \<Longrightarrow> retry_interrupted f s = Some (f s)"
  by (subst retry_interrupted.simps) (auto split: prod.splits sum.splits)

lemma retry_Some:
  assumes "retry_interrupted f s = Some y"
  shows "\<exists>n. (\<forall>i < n. interrupted f (((snd \<circ> f) ^^ i) s)) \<and> \<not> interrupted f (((snd \<circ> f) ^^ n) s) \<and>
    y = f (((snd \<circ> f) ^^ n) s)"
proof (rule retry_interrupted.raw_induct [of "\<lambda>f s y. \<exists>n. (\<forall>i < n. interrupted f (((snd \<circ> f) ^^ i) s)) \<and>
    \<not> interrupted f (((snd \<circ> f) ^^ n) s) \<and> y = f (((snd \<circ> f) ^^ n) s)", OF _ assms])
  fix rec :: "('s \<Rightarrow> (io_error + 'a) \<times> 's) \<Rightarrow> 's \<Rightarrow> ((io_error + 'a) \<times> 's) option" and f s y
  assume IH: "\<And>f s y. rec f s = Some y \<Longrightarrow> \<exists>n. (\<forall>i < n. interrupted f (((snd \<circ> f) ^^ i) s)) \<and>
      \<not> interrupted f (((snd \<circ> f) ^^ n) s) \<and> y = f (((snd \<circ> f) ^^ n) s)"
    and body: "(case f s of (Inl e, s') \<Rightarrow> if kind e = Interrupted then rec f s' else Some (Inl e, s')
        | (Inr v, s') \<Rightarrow> Some (Inr v, s')) = Some y"
  show "\<exists>n. (\<forall>i < n. interrupted f (((snd \<circ> f) ^^ i) s)) \<and> \<not> interrupted f (((snd \<circ> f) ^^ n) s) \<and>
      y = f (((snd \<circ> f) ^^ n) s)"
  proof (cases "interrupted f s")
    case True
    with body have "rec f (snd (f s)) = Some y" by (auto split: prod.splits)
    from IH [OF this] obtain n where n: "\<forall>i < n. interrupted f (((snd \<circ> f) ^^ i) (snd (f s)))"
      "\<not> interrupted f (((snd \<circ> f) ^^ n) (snd (f s)))" "y = f (((snd \<circ> f) ^^ n) (snd (f s)))" by blast
    have shift: "((snd \<circ> f) ^^ Suc i) s = ((snd \<circ> f) ^^ i) (snd (f s))" for i
      by (simp add: funpow_swap1)
    have "interrupted f (((snd \<circ> f) ^^ i) s)" if "i < Suc n" for i
    proof (cases i)
      case 0
      with True show ?thesis by simp
    next
      case (Suc j)
      with that n(1) shift show ?thesis by simp
    qed
    with n(2,3) shift show ?thesis by (intro exI [of _ "Suc n"]) simp
  next
    case False
    with body have "y = f s" by (auto split: prod.splits sum.splits if_splits)
    with False show ?thesis by (intro exI [of _ 0]) simp
  qed
qed

lemma retry_first:
  assumes "\<forall>i < n. interrupted f (((snd \<circ> f) ^^ i) s)" and "\<not> interrupted f (((snd \<circ> f) ^^ n) s)"
  shows "retry_interrupted f s = Some (f (((snd \<circ> f) ^^ n) s))"
  using assms
proof (induction n arbitrary: s)
  case 0
  then show ?case by (simp add: retry_stop)
next
  case (Suc n)
  have shift: "((snd \<circ> f) ^^ Suc i) s = ((snd \<circ> f) ^^ i) (snd (f s))" for i
    by (simp add: funpow_swap1)
  have "interrupted f s" using Suc.prems(1) by (auto dest: spec [of _ 0])
  moreover have "\<forall>i < n. interrupted f (((snd \<circ> f) ^^ i) (snd (f s)))"
    using Suc.prems(1) shift by (metis Suc_less_eq)
  ultimately show ?case
    using Suc.IH [of "snd (f s)"] Suc.prems(2) shift [of n] retry_again by metis
qed

text \<open>
  The loop that repeats an interrupted operation ends exactly when some repetition is
  not interrupted, and its result is that of the first such repetition; otherwise it
  repeats the operation for ever.
\<close>

theorem retry_ends_iff_not_interrupted:
  "retry_interrupted f s =
     (if \<exists>n. \<not> interrupted f (((snd \<circ> f) ^^ n) s)
      then Some (f (((snd \<circ> f) ^^ (LEAST n. \<not> interrupted f (((snd \<circ> f) ^^ n) s))) s))
      else None)"
proof (cases "\<exists>n. \<not> interrupted f (((snd \<circ> f) ^^ n) s)")
  case True
  define n where "n = (LEAST n. \<not> interrupted f (((snd \<circ> f) ^^ n) s))"
  have "\<not> interrupted f (((snd \<circ> f) ^^ n) s)" unfolding n_def using True by (rule LeastI_ex)
  moreover have "\<forall>i < n. interrupted f (((snd \<circ> f) ^^ i) s)"
    unfolding n_def using not_less_Least by blast
  ultimately have "retry_interrupted f s = Some (f (((snd \<circ> f) ^^ n) s))" by (intro retry_first)
  with True show ?thesis unfolding n_def [symmetric] by simp
next
  case False
  with retry_Some [of f s] have "retry_interrupted f s = None" by (cases "retry_interrupted f s") blast+
  with False show ?thesis by simp
qed

section \<open>\<open>poll_with\<close>\<close>

lemma poll_with_cases:
  assumes "poll_with cf func ew s = Some (r, ew', s')"
  obtains (asleep) "ew_events ew = 0" "r = ControlNormal Pending" "s' = s"
      "ew' = ew\<lparr>ew_burst := 0, ew_waker := cf (ew_waker ew)\<rparr>"
    | (burst) "ew_events ew \<noteq> 0" "BURST_LIMIT \<le> ew_burst ew" "r = ControlYield" "s' = s" "ew' = ew\<lparr>ew_burst := 0\<rparr>"
    | (would_block) e where "ew_events ew \<noteq> 0" "ew_burst ew < BURST_LIMIT"
      "retry_interrupted (func (ew_events ew)) s = Some (Inl e, s')" "kind e = WouldBlock" "r = ControlNormal Pending"
      "ew' = ew\<lparr>ew_burst := 0, ew_waker := cf (ew_waker ew), ew_events := 0\<rparr>"
    | (ready) x where "ew_events ew \<noteq> 0" "ew_burst ew < BURST_LIMIT"
      "retry_interrupted (func (ew_events ew)) s = Some (x, s')" "\<And>e. x = Inl e \<Longrightarrow> kind e \<noteq> WouldBlock"
      "r = ControlNormal (Ready x)" "ew' = ew\<lparr>ew_burst := ew_burst ew + 1\<rparr>"
  using assms
  by (auto simp: poll_with_def not_le split: if_splits option.splits sum.splits prod.splits)

text \<open>
  C17: what \<open>poll_with\<close> may return. A pending poll has stored the waker and left no
  readiness flag, so the next edge for the descriptor wakes the task; a ready poll carries
  the result of the operation, which is no \<open>Interrupted\<close> or \<open>WouldBlock\<close> error, and keeps
  flags and waker; a yield does not run the operation.
\<close>

theorem poll_with_outcomes:
  assumes "poll_with cf func ew s = Some (r, ew', s')"
  shows "case r of
      ControlNormal Pending \<Rightarrow> ew_events ew' = 0 \<and> ew_waker ew' = cf (ew_waker ew) \<and> ew_burst ew' = 0
    | ControlNormal (Ready x) \<Rightarrow> retry_interrupted (func (ew_events ew)) s = Some (x, s') \<and>
        (case x of Inl e \<Rightarrow> kind e \<noteq> Interrupted \<and> kind e \<noteq> WouldBlock | Inr _ \<Rightarrow> True) \<and>
        ew_events ew' = ew_events ew \<and> ew_waker ew' = ew_waker ew \<and> ew_burst ew' = ew_burst ew + 1
    | ControlYield \<Rightarrow> s' = s \<and> ew' = ew\<lparr>ew_burst := 0\<rparr>"
  using assms
proof (cases rule: poll_with_cases)
  case (ready x)
  from retry_Some [OF ready(3)] have "kind e \<noteq> Interrupted" if "x = Inl e" for e
    using that by (metis fst_conv)
  with ready show ?thesis by (auto split: sum.splits)
qed simp_all

theorem poll_with_outcomes_witness:
  "(let ew = (epoll_waker_new EPOLLIN)\<lparr>ew_burst := 19\<rparr>
    in case poll_with id (\<lambda>_ _. (Inr 5, 1)) ew (0 :: nat) of
         Some (ControlNormal (Ready x), ew', s') \<Rightarrow> x = (Inr 5 :: io_error + nat) \<and> ew_burst ew' = 20
       | _ \<Rightarrow> False)"
proof -
  let ?ew = "(epoll_waker_new EPOLLIN)\<lparr>ew_burst := 19\<rparr>"
  have retry: "retry_interrupted (\<lambda>_. (Inr 5, 1)) (0 :: nat) = Some (Inr 5 :: io_error + nat, 1)"
    by (subst retry_interrupted.simps) simp
  have p: "poll_with id (\<lambda>_ _. (Inr 5, 1)) ?ew (0 :: nat) =
      Some (ControlNormal (Ready (Inr 5 :: io_error + nat)), ?ew\<lparr>ew_burst := 20\<rparr>, 1)"
    using retry by (simp add: poll_with_def epoll_waker_new_def EPOLLIN_def BURST_LIMIT_def)
  from poll_with_outcomes [OF p] show ?thesis
    unfolding Let_def p by (simp add: epoll_waker_new_def)
qed

text \<open>
  Consecutive polls of one descriptor. \<open>polls\<close> collects their results.
\<close>

fun polls :: "(waker \<Rightarrow> waker) \<Rightarrow> (epoll_flags \<Rightarrow> 's \<Rightarrow> (io_error + 'a) \<times> 's) \<Rightarrow> nat \<Rightarrow> epoll_waker \<Rightarrow> 's
    \<Rightarrow> ((io_error + 'a) control_flow list \<times> epoll_waker \<times> 's) option" where
  "polls cf func 0 ew s = Some ([], ew, s)"
| "polls cf func (Suc n) ew s = (case poll_with cf func ew s of
     None \<Rightarrow> None
   | Some (r, ew1, s1) \<Rightarrow> (case polls cf func n ew1 s1 of
       None \<Rightarrow> None
     | Some (rs, ew2, s2) \<Rightarrow> Some (r # rs, ew2, s2)))"

abbreviation is_ready :: "'a control_flow \<Rightarrow> bool" where
  "is_ready r \<equiv> (\<exists>x. r = ControlNormal (Ready x))"

lemma poll_with_burst:
  assumes "poll_with cf func ew s = Some (r, ew', s')" and "ew_burst ew \<le> BURST_LIMIT"
  shows "ew_burst ew' \<le> BURST_LIMIT \<and>
    (if is_ready r then unat (ew_burst ew') = Suc (unat (ew_burst ew)) \<and> ew_burst ew < BURST_LIMIT else ew_burst ew' = 0)"
  using assms(1)
proof (cases rule: poll_with_cases)
  case (ready x)
  have "unat (ew_burst ew) < 20" using ready(2) by (simp add: BURST_LIMIT_def word_less_nat_alt)
  then have "unat (ew_burst ew + 1) = Suc (unat (ew_burst ew))"
    by (simp add: unat_word_ariths)
  with ready \<open>unat (ew_burst ew) < 20\<close> show ?thesis
    by (simp add: BURST_LIMIT_def word_le_nat_alt)
qed (use assms(2) in simp_all)

lemma polls_burst:
  assumes "polls cf func n ew s = Some (rs, ew', s')" and "ew_burst ew \<le> BURST_LIMIT" and "\<forall>r \<in> set rs. is_ready r"
  shows "unat (ew_burst ew) + n \<le> 20"
  using assms
proof (induction n arbitrary: ew s rs)
  case 0
  then show ?case by (simp add: BURST_LIMIT_def word_le_nat_alt)
next
  case (Suc n)
  then obtain r ew1 s1 rs1 where p: "poll_with cf func ew s = Some (r, ew1, s1)"
    "polls cf func n ew1 s1 = Some (rs1, ew', s')" "rs = r # rs1"
    by (auto split: option.splits)
  note b = poll_with_burst [OF p(1) Suc.prems(2)]
  have "unat (ew_burst ew1) + n \<le> 20"
    by (rule Suc.IH [OF p(2)]) (use b Suc.prems(3) p(3) in simp_all)
  with b Suc.prems(3) p(3) show ?case by auto
qed

lemma polls_length: "polls cf func n ew s = Some (rs, ew', s') \<Longrightarrow> length rs = n"
  by (induction n arbitrary: ew s rs) (auto split: option.splits)

text \<open>
  C19: a descriptor that is always ready does not starve the other tasks. Whatever the
  operation returns, of any 21 consecutive polls at least one is pending or yields, and
  the burst counter never exceeds its limit of 20.
\<close>

theorem burst_limit_is_fair:
  assumes "polls cf func n ew s = Some (rs, ew', s')" and "ew_burst ew \<le> BURST_LIMIT" and "21 \<le> n"
  shows "ew_burst ew' \<le> BURST_LIMIT \<and> (\<exists>i < 21. \<not> is_ready (rs ! i))"
proof -
  have bound: "ew_burst ew' \<le> BURST_LIMIT"
    if "polls cf func m e s = Some (rs, ew', s')" "ew_burst e \<le> BURST_LIMIT" for m e s rs
    using that
  proof (induction m arbitrary: e s rs)
    case (Suc m)
    then obtain r e1 s1 rs1 where p: "poll_with cf func e s = Some (r, e1, s1)"
      "polls cf func m e1 s1 = Some (rs1, ew', s')" by (auto split: option.splits)
    from Suc.IH [OF p(2)] poll_with_burst [OF p(1) Suc.prems(2)] show ?case by simp
  qed simp
  have pre: "\<exists>ew1 s1. polls cf func k ew s = Some (take k rs, ew1, s1)" if "k \<le> n" for k
    using that assms(1)
  proof (induction k arbitrary: n ew s rs)
    case (Suc k)
    then obtain m where m: "n = Suc m" "k \<le> m" by (cases n) auto
    with Suc.prems(2) obtain r ew1 s1 rs1 where p: "poll_with cf func ew s = Some (r, ew1, s1)"
      "polls cf func m ew1 s1 = Some (rs1, ew', s')" "rs = r # rs1" by (auto split: option.splits)
    from Suc.IH [OF m(2) p(2)] p show ?case by auto
  qed simp
  obtain ew1 s1 where p: "polls cf func 21 ew s = Some (take 21 rs, ew1, s1)" using pre [OF assms(3)] by blast
  have "\<not> (\<forall>r \<in> set (take 21 rs). is_ready r)"
    using polls_burst [OF p assms(2)] by auto
  then obtain r where "r \<in> set (take 21 rs)" "\<not> is_ready r" by blast
  then obtain i where "i < 21" "\<not> is_ready (rs ! i)"
    by (metis in_set_conv_nth length_take min_less_iff_conj nth_take)
  with bound [OF assms(1,2)] show ?thesis by blast
qed

theorem burst_limit_is_fair_witness:
  "\<exists>rs ew' s'. polls id (\<lambda>_ n. (Inr n :: io_error + nat, Suc n)) 21 (epoll_waker_new EPOLLIN) 0 = Some (rs, ew', s') \<and>
     ew_burst ew' \<le> BURST_LIMIT \<and> (\<exists>i < 21. \<not> is_ready (rs ! i))"
proof -
  have retry: "retry_interrupted (\<lambda>n. (Inr n :: io_error + nat, Suc n)) n = Some (Inr n, Suc n)" for n
    by (subst retry_interrupted.simps) simp
  have "\<exists>rs ew' s'. polls id (\<lambda>_ n. (Inr n :: io_error + nat, Suc n)) 21 (epoll_waker_new EPOLLIN) 0 = Some (rs, ew', s')"
    by (simp add: numeral_eq_Suc poll_with_def epoll_waker_new_def EPOLLIN_def retry split: if_splits)
  then obtain rs ew' s' where p: "polls id (\<lambda>_ n. (Inr n :: io_error + nat, Suc n)) 21 (epoll_waker_new EPOLLIN) 0 = Some (rs, ew', s')"
    by blast
  have "ew_burst (epoll_waker_new EPOLLIN) \<le> BURST_LIMIT" by (simp add: epoll_waker_new_def)
  from burst_limit_is_fair [OF p this] p show ?thesis by auto
qed


text \<open>
  An operation that would block clears every readiness flag, also those of the other
  direction. Until a new edge arrives, later polls are pending without running their
  operation, even a write on a descriptor whose read would block.
\<close>

theorem would_block_clears_all_readiness:
  assumes "ew_events ew \<noteq> 0" and "ew_burst ew < BURST_LIMIT"
    and "retry_interrupted (func (ew_events ew)) s = Some (Inl e, s')" and "kind e = WouldBlock"
  shows "\<exists>ew'. poll_with cf func ew s = Some (ControlNormal Pending, ew', s') \<and>
    (\<forall>func' s2. \<exists>ew2. poll_with cf func' ew' s2 = Some (ControlNormal Pending, ew2, s2))"
  using assms by (auto simp: poll_with_def)

theorem would_block_clears_all_readiness_witness:
  "\<exists>ew'. poll_with id (\<lambda>_ s. (Inl (OsError EAGAIN) :: io_error + nat, s)) (epoll_waker_new (EPOLLIN OR EPOLLOUT)) (0 :: nat)
       = Some (ControlNormal Pending, ew', 0) \<and>
     (\<forall>func' s2. \<exists>ew2. poll_with id (func' :: _ \<Rightarrow> nat \<Rightarrow> (io_error + nat) \<times> nat) ew' s2 = Some (ControlNormal Pending, ew2, s2))"
  by (rule would_block_clears_all_readiness [where e = "OsError EAGAIN"], simp_all add: epoll_waker_new_def EPOLLIN_def EPOLLOUT_def BURST_LIMIT_def)
     (subst retry_interrupted.simps, simp)

section \<open>Events\<close>

text \<open>
  C18: when a task waits on a descriptor - its last poll was pending and stored the task's
  waker - an event for that descriptor makes the task runnable, and its next poll will
  find exactly the flags of the event.
\<close>

theorem event_wakes_waiting_task:
  assumes "wfq E Q w" and "w_ews w (ev_data e) = Some ew" and "ew_events ew = 0" and "ew_waker ew = TaskWaker t"
    and "w_tasks w t = Some k" and "\<not> t_borrowed k" and "\<not> t_has_completed k" and "ev_events e \<noteq> 0"
  shows "\<exists>w' Q'. wake_from_event e w = Ok w' \<and> wfq E Q' w' \<and>
    members Q' (runq (t_priority k) w) = filter (\<lambda>x. x \<noteq> TEntry t) (members Q (runq (t_priority k) w)) @ [TEntry t] \<and>
    map_option ew_events (w_ews w' (ev_data e)) = Some (ev_events e)"
proof -
  let ?w1 = "w\<lparr>w_ews := (w_ews w)(ev_data e \<mapsto> ew\<lparr>ew_events := ev_events e\<rparr>)\<rparr>"
  have W1: "wfq E Q ?w1" using assms(1) by simp
  have k: "w_tasks ?w1 t = Some k" using assms(5) by simp
  have live: "0 < strong (w_queue ?w1) (TEntry t)" using wfq_live [OF W1] k by blast
  have ev: "wake_from_event e w = enqueue t (arc_clone t ?w1)"
    using assms(2,3,4,8) weak_upgrade_live [OF W1 k]
    by (simp add: wake_from_event_def flags_contains_def Let_def)
  have k2: "w_tasks (arc_clone t ?w1) t = Some k" using k by (simp add: arc_clone_def)
  obtain q' where q': "enqueue t (arc_clone t ?w1) = Ok ((arc_clone t ?w1)\<lparr>w_queue := q'\<rparr>)"
    "wfq E (if t_has_completed k then Q else qpush (runq (t_priority k) (arc_clone t ?w1)) (TEntry t) Q)
       ((arc_clone t ?w1)\<lparr>w_queue := q'\<rparr>)"
    by (rule enqueue_wfq [OF clone_wfq [OF W1 live] k2]) (use assms(6,7) in auto)
  have r: "runq (t_priority k) (arc_clone t ?w1) = runq (t_priority k) w" by (simp add: runq_head arc_clone_def)
  obtain xs where xs: "Q (runq (t_priority k) w) = Some xs" using wfq_head(2) [OF assms(1)] by blast
  show ?thesis
    using q' assms(7) members_qpush [of Q _ xs "TEntry t", OF xs] unfolding ev r
    by (intro exI [of _ "(arc_clone t ?w1)\<lparr>w_queue := q'\<rparr>"] exI [of _ "qpush (runq (t_priority k) w) (TEntry t) Q"])
       (simp add: arc_clone_def)
qed

lemma flags_or_absorb: "a OR (a AND b) = (a :: epoll_flags)"
  by (auto simp: bit_eq_iff bit_simps)

text \<open>
  An event whose waker is not a task waker wakes nobody: the flags are recorded, but
  no task is queued and a foreign waker - one that a combinator such as
  \<open>FuturesUnordered\<close> put around the task's - is not called.
\<close>

theorem foreign_waker_is_not_woken:
  assumes "w_ews w (ev_data e) = Some ew" and "\<not> is_task_waker (ew_waker ew)"
  shows "\<exists>ew'. wake_from_event e w = Ok (w\<lparr>w_ews := (w_ews w)(ev_data e \<mapsto> ew')\<rparr>) \<and>
    ew_waker ew' = ew_waker ew \<and> ew_events ew' = ew_events ew OR ev_events e"
proof (cases "flags_contains (ew_events ew) (ev_events e)")
  case True
  then have "ew_events ew OR ev_events e = ew_events ew"
    using flags_or_absorb [of "ew_events ew" "ev_events e"] by (simp add: flags_contains_def)
  with True assms(1) show ?thesis
    by (intro exI [of _ ew]) (simp add: wake_from_event_def fun_upd_idem)
next
  case False
  with assms show ?thesis
    by (intro exI [of _ "ew\<lparr>ew_events := ew_events ew OR ev_events e\<rparr>"])
       (simp add: wake_from_event_def Let_def is_task_waker_def split: waker.splits)
qed

lemma length_handled: "handle_events S es w = Ok (r, w') \<Longrightarrow> x_events (w_exec w') = x_events (w_exec w)"
proof (induction es arbitrary: w)
  case (Cons e es)
  have pipe: "x_events (w_exec w1) = x_events (w_exec w)" if "wake_from_pipe S w = Ok (z, w1)" for z w1
    using that by (auto simp: wake_from_pipe_def Let_def res_simps weak_upgrade_def arc_clone_def enqueue_def
        arc_forget_def with_queue_def split: prod.splits sum.splits if_splits option.splits)
  have event: "x_events (w_exec w1) = x_events (w_exec w)" if "wake_from_event e w = Ok w1" for w1
    using that by (auto simp: wake_from_event_def Let_def res_simps weak_upgrade_def arc_clone_def enqueue_def
        arc_forget_def with_queue_def split: option.splits if_splits waker.splits)
  show ?case
  proof (cases "ev_data e = 0")
    case True
    with Cons.prems obtain z w1 where w1: "wake_from_pipe S w = Ok (z, w1)"
      "(case z of Inl err \<Rightarrow> Ok (Inl err, w1) | Inr _ \<Rightarrow> handle_events S es w1) = Ok (r, w')"
      by (auto simp: res_simps)
    with pipe [OF w1(1)] Cons.IH [of w1] show ?thesis by (cases z) auto
  next
    case False
    with Cons.prems show ?thesis by (auto simp: res_simps dest!: Cons.IH event)
  qed
qed simp

text \<open>
  An interrupted wait counts as one without events, any other error is returned, and
  neither changes anything but the kernel; waiting never changes the number of event slots.
\<close>

theorem epoll_wait_errors_and_slots:
  assumes "x_events (w_exec w) \<noteq> []"
    and "sys_epoll_wait S (x_epoll (w_exec w)) (length (x_events (w_exec w))) tmo (w_kernel w) = (z, k)"
  shows "case z of
      WaitForever \<Rightarrow> epoll_wait S tmo w = Fault Blocked
    | WaitError e \<Rightarrow> epoll_wait S tmo w = Ok (if e = EINTR then Inr () else Inl (OsError e), w\<lparr>w_kernel := k\<rparr>)
    | WaitEvents _ \<Rightarrow> (case epoll_wait S tmo w of
        Ok (_, w') \<Rightarrow> length (x_events (w_exec w')) = length (x_events (w_exec w)) | Fault _ \<Rightarrow> True)"
  using assms
  by (cases z) (auto simp: epoll_wait_def Let_def dest: length_handled split: errno.splits res.splits)


section \<open>Descriptors\<close>

text \<open>
  The event buffer has a slot for the pipe and one for each \<open>Fd\<close>. A failed
  registration has pushed and popped a slot.
\<close>

definition slots_balanced :: "('k, 't, 'v) world \<Rightarrow> bool" where
  "slots_balanced w \<longleftrightarrow> length (x_events (w_exec w)) = Suc (card (dom (w_fds w)))"

lemma epoll_add_length: "length (x_events (w_exec (snd (epoll_add S fd ev d w)))) = Suc (length (x_events (w_exec w)))"
  "w_fds (snd (epoll_add S fd ev d w)) = w_fds w"
  by (auto simp: epoll_add_def Let_def split: prod.splits sum.splits)

lemma fd_release_length: "length (x_events (w_exec (fd_release S fd d w))) = length (x_events (w_exec w)) - 1"
  "w_fds (fd_release S fd d w) = w_fds w"
  by (auto simp: fd_release_def epoll_del_def Let_def split: prod.splits sum.splits)

text \<open>
  C20: opening and dropping an \<open>Fd\<close>, on success and on every error path, keeps exactly one
  event slot for the pipe and one for each open \<open>Fd\<close>, so a single wait can report them all.
\<close>

theorem fd_slots_stay_balanced:
  assumes "winv reg E G w" and "slots_balanced w"
  shows "slots_balanced (snd (fd_new S fd events w)) \<and> slots_balanced (fd_drop S i w)"
proof
  have O: "epoll_ok (reg (w_kernel w) (x_epoll (w_exec w))) (w_ews w) (w_fds w) (w_next w)"
    using assms(1) by (simp add: winv_def ewf_def)
  have "dom (w_fds w) \<subseteq> {..< w_next w}" using epoll_ok_fresh [OF O] by auto
  then have fin: "finite (dom (w_fds w))" using finite_subset by blast
  show "slots_balanced (fd_drop S i w)"
  proof (cases "w_fds w i")
    case None
    with assms(2) show ?thesis by (simp add: fd_drop_def)
  next
    case (Some f)
    then have i: "i \<in> dom (w_fds w)" by blast
    have "dom ((w_fds w)(i := None)) = dom (w_fds w) - {i}" by auto
    moreover have "0 < card (dom (w_fds w))" using fin i card_gt_0_iff by blast
    ultimately show ?thesis
      using assms(2) Some fin i fd_release_length [of S "fd_inner f" "fd_ew f" w]
      by (simp add: slots_balanced_def fd_drop_def Let_def card_Diff_singleton)
  qed
  show "slots_balanced (snd (fd_new S fd events w))"
  proof -
    have new: "Suc (w_next w) \<notin> dom (w_fds w)" using epoll_ok_fresh [OF O, of "Suc (w_next w)"] by auto
    obtain z1 k1 where z1: "sys_getfl S fd (w_kernel w) = (z1, k1)" by force
    show ?thesis
    proof (cases z1)
      case (Inl e)
      with z1 assms(2) show ?thesis by (simp add: fd_new_def slots_balanced_def)
    next
      case z1': (Inr flags)
      obtain z2 k2 where z2: "sys_setfl S fd (flags OR O_NONBLOCK) k1 = (z2, k2)" by force
      show ?thesis
      proof (cases z2)
        case (Inl e)
        with z1 z1' z2 assms(2) show ?thesis by (simp add: fd_new_def slots_balanced_def)
      next
        case z2': (Inr u)
        let ?w1 = "w\<lparr>w_kernel := k2, w_ews := (w_ews w)(w_next w \<mapsto> epoll_waker_new (events AND (EPOLLIN OR EPOLLOUT))),
                    w_next := Suc (Suc (w_next w))\<rparr>"
        obtain r w2 where r: "epoll_add S fd (events OR EPOLLET) (w_next w) ?w1 = (r, w2)" by force
        have w2: "length (x_events (w_exec w2)) = Suc (length (x_events (w_exec w)))" "w_fds w2 = w_fds w"
          using epoll_add_length [of S fd "events OR EPOLLET" "w_next w" ?w1] r by simp_all
        have nw: "fd_new S fd events w = (case r of Inl e \<Rightarrow> (Inl e, fd_release S fd (w_next w) w2)
            | Inr _ \<Rightarrow> (Inr (Suc (w_next w)), w2\<lparr>w_fds := (w_fds w2)(Suc (w_next w) \<mapsto> \<lparr>fd_inner = fd, fd_ew = w_next w\<rparr>)\<rparr>))"
          using z1 z1' z2 z2' r by (simp add: fd_new_def Let_def)
        show ?thesis
        proof (cases r)
          case (Inl e)
          with nw w2 fd_release_length [of S fd "w_next w" w2] assms(2) show ?thesis
            by (simp add: slots_balanced_def)
        next
          case (Inr u')
          with nw w2 assms(2) fin new show ?thesis by (simp add: slots_balanced_def)
        qed
      qed
    qed
  qed
qed

text \<open>
  A failed \<open>Fd::new\<close> is not without effect. When the registration is refused - because
  the descriptor is already registered by another \<open>Fd\<close>, for example - the discarded \<open>Fd\<close> is
  dropped, which deregisters the descriptor: the other \<open>Fd\<close>, still open, gets no more events.
\<close>

theorem failed_fd_new_deregisters:
  assumes "kernel_ok reg S" and "sys_getfl S fd (w_kernel w) = (Inr flags, k1)"
    and "sys_setfl S fd (flags OR O_NONBLOCK) k1 = (Inr u, k2)" and "fd_new S fd events w = (Inl e, w')"
  shows "reg (w_kernel w') (x_epoll (w_exec w')) fd = None \<and> w_fds w' = w_fds w"
proof -
  let ?w1 = "w\<lparr>w_kernel := k2, w_ews := (w_ews w)(w_next w \<mapsto> epoll_waker_new (events AND (EPOLLIN OR EPOLLOUT))),
              w_next := Suc (Suc (w_next w))\<rparr>"
  obtain r w2 where r: "epoll_add S fd (events OR EPOLLET) (w_next w) ?w1 = (r, w2)" by force
  with assms(2-4) have w': "w' = fd_release S fd (w_next w) w2"
    by (simp add: fd_new_def Let_def split: sum.splits)
  obtain k v where d: "snd (epoll_del S fd w2) = w2\<lparr>w_exec := w_exec w2\<lparr>x_events := v\<rparr>, w_kernel := k\<rparr>"
    "reg k = (reg (w_kernel w2))(x_epoll (w_exec w2) := (reg (w_kernel w2) (x_epoll (w_exec w2)))(fd := None))"
    using epoll_del_spec [OF assms(1)] by metis
  have "w_fds w2 = w_fds w" using epoll_add_length(2) [of S fd "events OR EPOLLET" "w_next w" ?w1] r by simp
  with d w' show ?thesis by (simp add: fd_release_def Let_def)
qed

section \<open>Witnesses\<close>

text \<open>A thread with an \<open>Fd\<close> for the descriptor 100, polled without success with the waker \<open>wk\<close>, and a task.\<close>

definition demo_waits :: "waker \<Rightarrow> (unit, nat, nat) prog" where
  "demo_waits wk = Call (CFdNew 100 EPOLLIN) (\<lambda>_. Call (CSpawn (builder_new 4 here))
     (\<lambda>_. Call (CFdPollWith 3 wk (\<lambda>_. 0)) (\<lambda>_. Ret ())))"

definition demo_waiting :: "waker \<Rightarrow> (demo, nat, nat) sched" where
  "demo_waiting wk = (case run_thread demo demo_user 1 (demo_waits wk) demo_start of
     Ok (_, w) \<Rightarrow> w | Fault _ \<Rightarrow> empty_world demo_start)"

lemma retry_demo: "retry_interrupted (sys_other demo 0) \<lparr>d_next = a, d_reg = b, d_pipes = c, d_schedule = d, d_script = []\<rparr> =
    Some (Inl (OsError EAGAIN), \<lparr>d_next = a, d_reg = b, d_pipes = c, d_schedule = d, d_script = []\<rparr>)"
  by (subst retry_interrupted.simps) (simp add: demo_def)

lemma demo_waiting_run: "run_thread demo demo_user 1 (demo_waits (TaskWaker 4)) demo_start = Ok ((), demo_waiting (TaskWaker 4))"
  "run_thread demo demo_user 1 (demo_waits (ForeignWaker 7)) demo_start = Ok ((), demo_waiting (ForeignWaker 7))"
  by (simp_all add: demo_waiting_def demo_waits_def eval_simps here_def retry_demo [unfolded demo_def, simplified] cong: eval_congs)


lemma demo_waiting_inv: "winv demo_reg (\<lambda>_. 0) ({}, {}) (demo_waiting (TaskWaker 4))"
  using run_thread_inv [OF demo_ok, of demo_user 1 "demo_waits (TaskWaker 4)" demo_start]
  unfolding demo_waiting_run by simp

lemma demo_waiting_state:
  "w_ews (demo_waiting (TaskWaker 4)) 2 = Some \<lparr>ew_waker = TaskWaker 4, ew_events = 0, ew_burst = 0\<rparr>"
  "\<exists>k. w_tasks (demo_waiting (TaskWaker 4)) 4 = Some k \<and> \<not> t_borrowed k \<and> \<not> t_has_completed k \<and> t_priority k = Normal"
  "w_ews (demo_waiting (ForeignWaker 7)) 2 = Some \<lparr>ew_waker = ForeignWaker 7, ew_events = 0, ew_burst = 0\<rparr>"
  "slots_balanced (demo_waiting (TaskWaker 4))"
  "w_kernel (demo_waiting (TaskWaker 4)) =
     \<lparr>d_next = 6, d_reg = [((5, 100), 2), ((5, 3), 0)], d_pipes = [((3, 4), [])], d_schedule = [], d_script = []\<rparr>"
  "x_epoll (w_exec (demo_waiting (TaskWaker 4))) = 5" "w_fds (demo_waiting (TaskWaker 4)) 3 = Some \<lparr>fd_inner = 100, fd_ew = 2\<rparr>"
  by (simp_all add: demo_waiting_def demo_waits_def slots_balanced_def eval_simps here_def retry_demo [unfolded demo_def, simplified] cong: eval_congs)

theorem event_wakes_waiting_task_witness:
  "\<exists>w' Q Q'. wake_from_event \<lparr>ev_events = EPOLLIN, ev_data = 2\<rparr> (demo_waiting (TaskWaker 4)) = Ok w' \<and> wfq (\<lambda>_. 0) Q' w' \<and>
     members Q' (runq Normal (demo_waiting (TaskWaker 4))) =
       filter (\<lambda>x. x \<noteq> TEntry 4) (members Q (runq Normal (demo_waiting (TaskWaker 4)))) @ [TEntry 4] \<and>
     map_option ew_events (w_ews w' 2) = Some EPOLLIN"
proof -
  let ?e = "\<lparr>ev_events = EPOLLIN, ev_data = 2\<rparr>"
  obtain Q where Q: "wfq (\<lambda>_. 0) Q (demo_waiting (TaskWaker 4))" using demo_waiting_inv by (auto elim: winvE)
  obtain k where k: "w_tasks (demo_waiting (TaskWaker 4)) 4 = Some k" "\<not> t_borrowed k" "\<not> t_has_completed k" "t_priority k = Normal"
    using demo_waiting_state(2) by blast
  have ew: "w_ews (demo_waiting (TaskWaker 4)) (ev_data ?e) = Some \<lparr>ew_waker = TaskWaker 4, ew_events = 0, ew_burst = 0\<rparr>"
    using demo_waiting_state(1) by simp
  have "ev_events ?e \<noteq> 0" by (simp add: EPOLLIN_def)
  from event_wakes_waiting_task [OF Q ew _ _ k(1-3) this] k(4) show ?thesis by auto
qed

theorem foreign_waker_is_not_woken_witness:
  "\<exists>ew'. wake_from_event \<lparr>ev_events = EPOLLIN, ev_data = 2\<rparr> (demo_waiting (ForeignWaker 7)) =
     Ok ((demo_waiting (ForeignWaker 7))\<lparr>w_ews := (w_ews (demo_waiting (ForeignWaker 7)))(2 \<mapsto> ew')\<rparr>) \<and>
     ew_waker ew' = ForeignWaker 7 \<and> ew_events ew' = EPOLLIN"
proof -
  let ?e = "\<lparr>ev_events = EPOLLIN, ev_data = 2\<rparr>"
  have ew: "w_ews (demo_waiting (ForeignWaker 7)) (ev_data ?e) = Some \<lparr>ew_waker = ForeignWaker 7, ew_events = 0, ew_burst = 0\<rparr>"
    using demo_waiting_state(3) by simp
  from foreign_waker_is_not_woken [OF ew] show ?thesis by (simp add: is_task_waker_def)
qed

theorem epoll_wait_errors_and_slots_witness:
  "\<exists>r w'. epoll_wait demo TimeoutZero demo_idle = Ok (r, w') \<and> length (x_events (w_exec w')) = 1"
proof -
  have a: "x_events (w_exec demo_idle) \<noteq> []" "length (x_events (w_exec demo_idle)) = 1"
    "sys_epoll_wait demo (x_epoll (w_exec demo_idle)) (length (x_events (w_exec demo_idle))) TimeoutZero (w_kernel demo_idle)
       = (WaitEvents [], w_kernel demo_idle)"
    "\<exists>r w'. epoll_wait demo TimeoutZero demo_idle = Ok (r, w')"
    by (simp_all add: demo_idle_def eval_simps cong: eval_congs)
  from epoll_wait_errors_and_slots [OF a(1,3)] a(2,4) show ?thesis by auto
qed

theorem fd_slots_stay_balanced_witness:
  "slots_balanced (snd (fd_new demo 101 EPOLLIN (demo_waiting (TaskWaker 4)))) \<and>
   slots_balanced (fd_drop demo 3 (demo_waiting (TaskWaker 4)))"
  by (rule fd_slots_stay_balanced [OF demo_waiting_inv demo_waiting_state(4)])

theorem failed_fd_new_deregisters_witness:
  "\<exists>e w'. fd_new demo 100 EPOLLIN (demo_waiting (TaskWaker 4)) = (Inl e, w') \<and>
     demo_reg (w_kernel (demo_waiting (TaskWaker 4))) (x_epoll (w_exec (demo_waiting (TaskWaker 4)))) 100 = Some 2 \<and>
     demo_reg (w_kernel w') (x_epoll (w_exec w')) 100 = None \<and> w_fds w' 3 = Some \<lparr>fd_inner = 100, fd_ew = 2\<rparr>"
proof -
  let ?w = "demo_waiting (TaskWaker 4)"
  have f: "\<exists>e w'. fd_new demo 100 EPOLLIN ?w = (Inl e, w')"
    "demo_reg (w_kernel ?w) (x_epoll (w_exec ?w)) 100 = Some 2" "w_fds ?w 3 = Some \<lparr>fd_inner = 100, fd_ew = 2\<rparr>"
    by (simp_all add: demo_waiting_state(5-7) demo_reg_def fd_new_def epoll_add_def demo_def Let_def)
  obtain e w' where e: "fd_new demo 100 EPOLLIN ?w = (Inl e, w')" using f(1) by blast
  have s: "sys_getfl demo 100 (w_kernel ?w) = (Inr 0, w_kernel ?w)"
    "sys_setfl demo 100 (0 OR O_NONBLOCK) (w_kernel ?w) = (Inr (), w_kernel ?w)" by (simp_all add: demo_def)
  from failed_fd_new_deregisters [OF demo_ok s e] f e show ?thesis by auto
qed

end
