(* ===== verification/Epox_Queue_Refinement.thy ===== *)
theory Epox_Queue_Refinement
  imports Epox_Queue
begin

text \<open>
  Refinement of the intrusive queues as a whole: any sequence of queue operations that
  respects the ownership of references has, on the pointers of \<^verbatim>\<open>src/queue.rs\<close>, exactly the
  results it has on a family of lists, and never faults.
\<close>

section \<open>Sequences of operations\<close>

datatype 'p qop = QPush 'p 'p | QPop 'p | QRelease 'p | QIsQueued 'p | QIsEmpty 'p | QClone 'p

datatype 'p qreply = QDone | QPopped "'p option" | QAnswer bool

fun exec_op :: "'p qop \<Rightarrow> 'p qmem \<Rightarrow> ('p qreply \<times> 'p qmem) res" where
  "exec_op (QPush h e) m = bind_res (push h e m) (\<lambda>m1. Ok (QDone, m1))"
| "exec_op (QPop h) m = bind_res (pop h m) (\<lambda>(r, m1). Ok (QPopped r, m1))"
| "exec_op (QRelease e) m = bind_res (release e m) (\<lambda>m1. Ok (QDone, m1))"
| "exec_op (QIsQueued e) m = bind_res (entry_is_queued e m) (\<lambda>b. Ok (QAnswer b, m))"
| "exec_op (QIsEmpty h) m = bind_res (queue_is_empty h m) (\<lambda>b. Ok (QAnswer b, m))"
| "exec_op (QClone e) m = Ok (QDone, arc_inc e m)"

fun exec_ops :: "'p qop list \<Rightarrow> 'p qmem \<Rightarrow> ('p qreply list \<times> 'p qmem) res" where
  "exec_ops [] m = Ok ([], m)"
| "exec_ops (x # xs) m = bind_res (exec_op x m) (\<lambda>(r, m1).
     bind_res (exec_ops xs m1) (\<lambda>(rs, m2). Ok (r # rs, m2)))"

text \<open>The same on lists, with the strong counts of the entries.\<close>

type_synonym 'p qspec = "'p queues \<times> ('p \<Rightarrow> nat)"

definition refs_used :: "'p queues \<Rightarrow> 'p \<Rightarrow> nat" where
  "refs_used Q e = (if queued Q e then 2 else 1)"

fun spec_op :: "'p qop \<Rightarrow> 'p qspec \<Rightarrow> 'p qreply \<times> 'p qspec" where
  "spec_op (QPush h e) (Q, c) = (QDone, qpush h e Q, if queued Q e then c(e := c e - 1) else c)"
| "spec_op (QPop h) (Q, c) = (case Q h of Some (e # _) \<Rightarrow> (QPopped (Some e), qtail h Q, c) | _ \<Rightarrow> (QPopped None, Q, c))"
| "spec_op (QRelease e) (Q, c) = (QDone, qremove e Q, c(e := c e - refs_used Q e))"
| "spec_op (QIsQueued e) (Q, c) = (QAnswer (queued Q e), Q, c)"
| "spec_op (QIsEmpty h) (Q, c) = (QAnswer (Q h = Some []), Q, c)"
| "spec_op (QClone e) (Q, c) = (QDone, Q, c(e := Suc (c e)))"

fun spec_ops :: "'p qop list \<Rightarrow> 'p qspec \<Rightarrow> 'p qreply list \<times> 'p qspec" where
  "spec_ops [] s = ([], s)"
| "spec_ops (x # xs) s = (let (r, s1) = spec_op x s; (rs, s2) = spec_ops xs s1 in (r # rs, s2))"

text \<open>
  What the callers guarantee: they name allocated entries of \<open>A\<close> and existing queues, and own
  the references that the operation consumes.
\<close>

fun permitted :: "'p set \<Rightarrow> 'p qop \<Rightarrow> 'p qspec \<Rightarrow> bool" where
  "permitted A (QPush h e) (Q, c) \<longleftrightarrow> Q h \<noteq> None \<and> e \<in> A \<and> Q e = None \<and> 0 < c e"
| "permitted A (QPop h) (Q, c) \<longleftrightarrow> Q h \<noteq> None"
| "permitted A (QRelease e) (Q, c) \<longleftrightarrow> e \<in> A \<and> Q e = None \<and> refs_used Q e \<le> c e"
| "permitted A (QIsQueued e) (Q, c) \<longleftrightarrow> e \<in> A \<and> Q e = None"
| "permitted A (QIsEmpty h) (Q, c) \<longleftrightarrow> Q h \<noteq> None"
| "permitted A (QClone e) (Q, c) \<longleftrightarrow> e \<in> A"

fun permitted_ops :: "'p set \<Rightarrow> 'p qop list \<Rightarrow> 'p qspec \<Rightarrow> bool" where
  "permitted_ops A [] s \<longleftrightarrow> True"
| "permitted_ops A (x # xs) s \<longleftrightarrow> permitted A x s \<and> permitted_ops A xs (snd (spec_op x s))"

section \<open>Refinement\<close>

definition refines :: "'p qmem \<Rightarrow> 'p set \<Rightarrow> 'p qspec \<Rightarrow> bool" where
  "refines m A s \<longleftrightarrow> repr m (fst s) \<and> strong m = snd s \<and> dom (links m) = A"

lemma exec_op_refines:
  assumes R: "refines m A s" and p: "permitted A x s"
  shows "\<exists>m1. exec_op x m = Ok (fst (spec_op x s), m1) \<and> refines m1 A (snd (spec_op x s))"
proof -
  obtain Q c where s: "s = (Q, c)" by (cases s)
  with R have R': "repr m Q" "strong m = c" "dom (links m) = A" by (simp_all add: refines_def)
  show ?thesis
  proof (cases x)
    case (QPush h e)
    with p s R' iq.push_law [OF R'(1), of h e] show ?thesis by (fastforce simp: refines_def domIff)
  next
    case (QPop h)
    with p s obtain xs where "Q h = Some xs" by auto
    with QPop s R' iq.pop_empty_law [OF R'(1), of h] iq.pop_law [OF R'(1), of h "hd xs" "tl xs"]
    show ?thesis by (cases xs) (auto simp: refines_def)
  next
    case (QRelease e)
    with p s R' iq.release_law [OF R'(1), of e] show ?thesis
      by (fastforce simp: refines_def refs_used_def domIff)
  next
    case (QIsQueued e)
    with p s R' iq.is_queued_law [OF R'(1), of e] show ?thesis by (auto simp: refines_def domIff)
  next
    case (QIsEmpty h)
    with p s R' iq.is_empty_law [OF R'(1), of h] show ?thesis by (auto simp: refines_def)
  next
    case (QClone e)
    with s R' show ?thesis by (simp add: refines_def arc_inc_def)
  qed
qed

text \<open>
  C4: the pointer queues refine lists. A permitted sequence of operations - pushes, pops,
  releases, tests and clones on any number of queues that share entries - never dereferences
  a bad pointer or drops a reference too many, returns what it returns on lists, and leaves
  a memory that represents the resulting lists and reference counts.
\<close>

theorem queue_refines_lists:
  assumes "refines m A s" and "permitted_ops A ops s"
  shows "\<exists>m'. exec_ops ops m = Ok (fst (spec_ops ops s), m') \<and> refines m' A (snd (spec_ops ops s))"
  using assms
proof (induction ops arbitrary: m s)
  case (Cons x xs)
  then obtain m1 where m1: "exec_op x m = Ok (fst (spec_op x s), m1)" "refines m1 A (snd (spec_op x s))"
    using exec_op_refines by fastforce
  from Cons.IH [OF m1(2)] Cons.prems m1(1) show ?case by (auto simp: split_def Let_def)
qed simp

text \<open>A memory with the head 0 of an empty queue and the entries 1 and 2.\<close>

definition demo_memory :: "nat qmem" where
  "demo_memory = entry_alloc 2 (entry_alloc 1 \<lparr>links = [0 \<mapsto> \<lparr>qe_prev = Some 0, qe_next = Some 0\<rparr>], strong = (\<lambda>_. 0)\<rparr>)"

lemma demo_memory_refines: "refines demo_memory {0, 1, 2} ([0 \<mapsto> []], (\<lambda>_. 0)(1 := 1, 2 := 1))"
proof -
  have "repr \<lparr>links = [0 \<mapsto> \<lparr>qe_prev = Some 0, qe_next = Some 0\<rparr>], strong = (\<lambda>_. 0)\<rparr> [0 :: nat \<mapsto> []]"
    by (auto simp: repr_def link_def queued_iff)
  then have "repr demo_memory [0 \<mapsto> []]"
    unfolding demo_memory_def by (intro alloc_repr) (simp_all add: entry_alloc_def)
  then show ?thesis by (auto simp: refines_def demo_memory_def entry_alloc_def)
qed

theorem queue_refines_lists_witness:
  "\<exists>m'. exec_ops [QClone 1, QPush 0 1, QPush 0 2, QRelease 1, QIsQueued 1, QPop 0, QPop 0] demo_memory =
     Ok ([QDone, QDone, QDone, QDone, QAnswer False, QPopped (Some 2), QPopped None], m')"
proof -
  let ?ops = "[QClone 1, QPush 0 1, QPush 0 2, QRelease 1, QIsQueued 1, QPop 0, QPop 0]"
  let ?s = "([0 \<mapsto> []], (\<lambda>_. 0)(1 := 1, 2 := 1)) :: nat qspec"
  have r: "qremove e [0 :: nat \<mapsto> xs] = [0 \<mapsto> filter (\<lambda>x. x \<noteq> e) xs]" for e xs by (auto simp: qremove_def)
  have q: "queued [0 :: nat \<mapsto> xs] e \<longleftrightarrow> e \<in> set xs" for e xs by (simp add: queued_iff)
  have t: "qtail 0 [0 :: nat \<mapsto> xs] = [0 \<mapsto> tl xs]" for xs by (simp add: qtail_def)
  have "permitted_ops {0, 1, 2} ?ops ?s" "fst (spec_ops ?ops ?s) =
      [QDone, QDone, QDone, QDone, QAnswer False, QPopped (Some 2), QPopped None]"
    by (simp_all add: qpush_def r q t refs_used_def)
  with queue_refines_lists [OF demo_memory_refines, of ?ops] show ?thesis by auto
qed

end
