(* ===== verification/Epox_Os.thy ===== *)
theory Epox_Os
  imports Epox_Fd_Theorems
begin

text \<open>
  The layer between the crate's own I/O types (timers, signals, readers and writers) and
  the rest: system calls and \<open>Fd\<close> operations as programs, and the interpreter's value of
  each.

  The record \<open>os_calls\<close> gives the numbers of the system calls in the kernel's
  \<open>sys_other\<close>; it is a parameter, as the kernel is.
\<close>

section \<open>System calls\<close>

type_synonym sigset = "64 word"

datatype expiration = OneShot nat | IntervalDelayed nat nat | Interval nat

record os_calls =
  os_close :: "raw_fd \<Rightarrow> nat"
  os_read :: "raw_fd \<Rightarrow> nat \<Rightarrow> nat"
  os_write :: "raw_fd \<Rightarrow> 8 word list \<Rightarrow> nat"
  os_timerfd_create :: nat
  os_timerfd_settime :: "raw_fd \<Rightarrow> expiration \<Rightarrow> nat"
  os_signalfd :: "sigset \<Rightarrow> nat"
  os_get_sigmask :: nat
  os_block_signals :: "sigset \<Rightarrow> nat"
  os_unblock_signals :: "sigset \<Rightarrow> nat"
  os_fstat_mode :: "raw_fd \<Rightarrow> nat"
  os_isatty :: "raw_fd \<Rightarrow> nat"

text \<open>
  Each call is answered by the reply of its kind (\<open>interp_sys\<close> and the lemmas after it).
  An \<open>Fd\<close> that the caller does not own has no reply; Rust does not allow it.
\<close>

definition sys :: "nat \<Rightarrow> (io_error + nat, 'f, 'v) prog" where
  "sys m = Call (CSys m) (\<lambda>x. case x of RSys r \<Rightarrow> Ret r | _ \<Rightarrow> UserPanics)"

definition new_fd :: "raw_fd \<Rightarrow> epoll_flags \<Rightarrow> (io_error + nat, 'f, 'v) prog" where
  "new_fd fd events = Call (CFdNew fd events) (\<lambda>x. case x of RFd r \<Rightarrow> Ret r | _ \<Rightarrow> UserPanics)"

definition poll_fd :: "nat \<Rightarrow> waker \<Rightarrow> nat \<Rightarrow> ((io_error + nat) poll, 'f, 'v) prog" where
  "poll_fd i wk m = Call (CFdPollWith i wk (\<lambda>_. m)) (\<lambda>x. case x of RFdPoll r \<Rightarrow> Ret r | _ \<Rightarrow> UserPanics)"

text \<open>
  \<open>FdWithMutFuture\<close> with its descriptor and function; the operations of the crate itself do
  not look at the flags.
\<close>

record fd_with_future =
  fw_fd :: nat
  fw_func :: "epoll_flags \<Rightarrow> nat"

definition fd_with_poll :: "fd_with_future \<Rightarrow> waker \<Rightarrow> ((io_error + nat) poll, 'f, 'v) prog" where
  "fd_with_poll x wk = Call (CFdPollWith (fw_fd x) wk (fw_func x)) (\<lambda>z. case z of RFdPoll r \<Rightarrow> Ret r | _ \<Rightarrow> UserPanics)"

lemma poll_fd_with: "poll_fd i wk m = fd_with_poll \<lparr>fw_fd = i, fw_func = (\<lambda>_. m)\<rparr> wk"
  by (simp add: poll_fd_def fd_with_poll_def)

definition drop_fd :: "nat \<Rightarrow> (unit, 'f, 'v) prog" where
  "drop_fd i = Call (CFdDrop i) (\<lambda>_. Ret ())"

section \<open>Descriptors the crate opens itself\<close>

text \<open>
  An \<open>Fd\<close> around an owned descriptor closes it when it is dropped, after the \<open>Fd\<close> has
  deregistered it; the error path of \<open>Fd::new\<close> closes it as well.
\<close>

record owned_fd =
  of_fd :: raw_fd
  of_obj :: nat

definition open_owned :: "os_calls \<Rightarrow> raw_fd \<Rightarrow> epoll_flags \<Rightarrow> (io_error + owned_fd, 'f, 'v) prog" where
  "open_owned oc fd events = bind_prog (new_fd fd events) (\<lambda>r. case r of
     Inl e \<Rightarrow> bind_prog (sys (os_close oc fd)) (\<lambda>_. Ret (Inl e))
   | Inr i \<Rightarrow> Ret (Inr \<lparr>of_fd = fd, of_obj = i\<rparr>))"

definition close_owned :: "os_calls \<Rightarrow> owned_fd \<Rightarrow> (unit, 'f, 'v) prog" where
  "close_owned oc f = bind_prog (drop_fd (of_obj f)) (\<lambda>_.
     bind_prog (sys (os_close oc (of_fd f))) (\<lambda>_. Ret ()))"

section \<open>Their interpretation\<close>

lemma interp_sys:
  "interp (do_call S u (Suc n)) (sys m) w =
     Ok (fst (sys_other S m (w_kernel w)), w\<lparr>w_kernel := snd (sys_other S m (w_kernel w))\<rparr>)"
  by (simp add: sys_def split_def Let_def)

lemma interp_new_fd:
  "interp (do_call S u (Suc n)) (new_fd fd ev) w = Ok (fd_new S fd ev w)"
  by (simp add: new_fd_def split_def Let_def)

lemma interp_drop_fd:
  "interp (do_call S u (Suc n)) (drop_fd i) w = Ok ((), fd_drop S i w)"
  by (simp add: drop_fd_def)

lemma interp_poll_fd:
  assumes "w_fds w i = Some f"
  shows "interp (do_call S u (Suc n)) (poll_fd i wk m) w = fd_poll_with S (\<lambda>_. sys_other S m) f wk w"
  using assms by (cases "fd_poll_with S (\<lambda>_. sys_other S m) f wk w") (auto simp: poll_fd_def split_def)

lemma interp_open_owned:
  "interp (do_call S u (Suc n)) (open_owned oc fd ev) w = (case fd_new S fd ev w of
     (Inl e, w1) \<Rightarrow> Ok (Inl e, w1\<lparr>w_kernel := snd (sys_other S (os_close oc fd) (w_kernel w1))\<rparr>)
   | (Inr i, w1) \<Rightarrow> Ok (Inr \<lparr>of_fd = fd, of_obj = i\<rparr>, w1))"
  by (simp add: open_owned_def interp_bind_prog interp_new_fd interp_sys split: prod.split sum.split del: do_call.simps)

lemma interp_close_owned:
  "interp (do_call S u (Suc n)) (close_owned oc f) w = (let w1 = fd_drop S (of_obj f) w
     in Ok ((), w1\<lparr>w_kernel := snd (sys_other S (os_close oc (of_fd f)) (w_kernel w1))\<rparr>))"
  by (simp add: close_owned_def interp_bind_prog interp_drop_fd interp_sys Let_def del: do_call.simps)

lemmas interp_os = interp_bind_prog interp_sys interp_new_fd interp_drop_fd interp_open_owned interp_close_owned

section \<open>What polling leaves alone\<close>

text \<open>The \<open>Fd\<close>s of the thread and the number of its event slots.\<close>

definition fd_frame :: "('k, 't, 'v) world \<Rightarrow> (nat \<rightharpoonup> fd_object) \<times> nat" where
  "fd_frame w = (w_fds w, length (x_events (w_exec w)))"

lemma fd_frame_simps [simp]:
  "fd_frame (w\<lparr>w_kernel := k\<rparr>) = fd_frame w" "fd_frame (w\<lparr>w_queue := q\<rparr>) = fd_frame w"
  "fd_frame (w\<lparr>w_ews := e\<rparr>) = fd_frame w" "fd_frame (w\<lparr>w_foreign := l\<rparr>) = fd_frame w"
  "fd_frame (arc_clone t w) = fd_frame w"
  by (simp_all add: fd_frame_def arc_clone_def)

lemma with_queue_frame: "with_queue r w = Ok w' \<Longrightarrow> fd_frame w' = fd_frame w"
  by (auto simp: with_queue_def res_simps)

lemma enqueue_fd_frame: "enqueue t w = Ok w' \<Longrightarrow> fd_frame w' = fd_frame w"
  by (auto simp: enqueue_def res_simps arc_forget_def split: if_splits dest: with_queue_frame)

lemma weak_upgrade_frame: "weak_upgrade t w = Some w' \<Longrightarrow> fd_frame w' = fd_frame w"
  by (auto simp: weak_upgrade_def split: if_splits)

lemma wake_from_pipe_frame: "wake_from_pipe S w = Ok (r, w') \<Longrightarrow> fd_frame w' = fd_frame w"
  by (auto simp: wake_from_pipe_def Let_def res_simps dest!: enqueue_fd_frame weak_upgrade_frame
      split: prod.splits sum.splits if_splits option.splits)

lemma wake_from_event_frame: "wake_from_event e w = Ok w' \<Longrightarrow> fd_frame w' = fd_frame w"
  by (auto simp: wake_from_event_def Let_def dest!: enqueue_fd_frame weak_upgrade_frame
      split: option.splits if_splits waker.splits)

lemma handle_events_frame: "handle_events S es w = Ok (r, w') \<Longrightarrow> fd_frame w' = fd_frame w"
proof (induction es arbitrary: w)
  case (Cons e es)
  show ?case
  proof (cases "ev_data e = 0")
    case True
    with Cons.prems obtain z w1 where z: "wake_from_pipe S w = Ok (z, w1)" by (auto simp: res_simps)
    with True Cons.prems Cons.IH [of w1] wake_from_pipe_frame [OF z] show ?thesis by (cases z) auto
  next
    case False
    with Cons show ?thesis by (auto simp: res_simps dest: wake_from_event_frame)
  qed
qed simp

lemma epoll_wait_frame: "epoll_wait S tmo w = Ok (r, w') \<Longrightarrow> fd_frame w' = fd_frame w"
  by (auto simp: epoll_wait_def Let_def fd_frame_def dest!: handle_events_frame
      split: if_splits prod.splits wait_result.splits errno.splits)

lemma wake_task_frame: "wake_task S t w = Ok w' \<Longrightarrow> fd_frame w' = fd_frame w"
  by (auto simp: wake_task_def res_simps arc_forget_def dest!: enqueue_fd_frame weak_upgrade_frame epoll_wait_frame with_queue_frame
      split: option.splits if_splits prod.splits sum.splits errno.splits)

lemma wake_by_ref_frame: "wake_by_ref S wk w = Ok w' \<Longrightarrow> fd_frame w' = fd_frame w"
  by (auto simp: wake_by_ref_def block_on_wake_def dest: wake_task_frame
      split: waker.splits if_splits prod.splits sum.splits errno.splits)

lemma fd_poll_with_frame: "fd_poll_with S f x wk w = Ok (r, w') \<Longrightarrow> fd_frame w' = fd_frame w"
  by (auto simp: fd_poll_with_def Let_def res_simps dest!: wake_by_ref_frame
      split: option.splits prod.splits control_flow.splits)

lemma fd_drop_frame:
  assumes "w_fds w i = Some f"
  shows "fd_frame (fd_drop S i w) = ((w_fds w)(i := None), length (x_events (w_exec w)) - 1)"
  using assms fd_release_length [of S "fd_inner f" "fd_ew f" w]
  by (simp add: fd_frame_def fd_drop_def Let_def)

lemma fd_new_frame:
  assumes "fd_new S fd ev w = (r, w')"
  shows "case r of Inl _ \<Rightarrow> fd_frame w' = fd_frame w
    | Inr i \<Rightarrow> i = Suc (w_next w) \<and>
        fd_frame w' = ((w_fds w)(i \<mapsto> \<lparr>fd_inner = fd, fd_ew = w_next w\<rparr>), Suc (length (x_events (w_exec w))))"
proof -
  have add: "length (x_events (w_exec w2)) = Suc (length (x_events (w_exec w1))) \<and> w_fds w2 = w_fds w1"
    if "epoll_add S fd e d w1 = (z, w2)" for e d z and w1 w2 :: "('a, 'b, 'c) world"
    using epoll_add_length [of S fd e d w1] that by simp
  show ?thesis
    using assms
    by (auto simp: fd_new_def Let_def fd_frame_def fd_release_length dest!: add split: prod.splits sum.splits)
qed

end
