(* ===== verification/Epox_Time.thy ===== *)
theory Epox_Time
  imports Epox_Os
begin

text \<open>
  Timers: \<^verbatim>\<open>src/timer.rs\<close>, and \<open>sleep\<close> and \<open>timeout\<close> of \<^verbatim>\<open>src/time.rs\<close>.

  The lemmas show which descriptors and event slots a sleep holds at each point of its
  life, that a pending sleep or timeout has left its waker with its timer, and which of the
  future and the timer decides a timeout.
\<close>

section \<open>\<open>Timer\<close>\<close>

definition timer_new :: "os_calls \<Rightarrow> (io_error + owned_fd, 'f, 'v) prog" where
  "timer_new oc = bind_prog (sys (os_timerfd_create oc)) (\<lambda>r. case r of
     Inl e \<Rightarrow> Ret (Inl e) | Inr fd \<Rightarrow> open_owned oc (int fd) EPOLLIN)"

definition timer_set :: "os_calls \<Rightarrow> owned_fd \<Rightarrow> expiration \<Rightarrow> (io_error + unit, 'f, 'v) prog" where
  "timer_set oc t x = bind_prog (sys (os_timerfd_settime oc (of_fd t) x)) (\<lambda>r. case r of
     Inl e \<Rightarrow> Ret (Inl e) | Inr _ \<Rightarrow> Ret (Inr ()))"

text \<open>One poll of the future that \<open>tick\<close> returns: the read of an eight-byte counter.\<close>

definition timer_tick :: "os_calls \<Rightarrow> owned_fd \<Rightarrow> waker \<Rightarrow> ((io_error + nat) poll, 'f, 'v) prog" where
  "timer_tick oc t wk = poll_fd (of_obj t) wk (os_read oc (of_fd t) 8)"

text \<open>A new timer that expires once; on an error of \<open>set\<close> it is dropped again.\<close>

definition one_shot :: "os_calls \<Rightarrow> nat \<Rightarrow> (io_error + owned_fd, 'f, 'v) prog" where
  "one_shot oc d = bind_prog (timer_new oc) (\<lambda>r. case r of
     Inl e \<Rightarrow> Ret (Inl e)
   | Inr t \<Rightarrow> bind_prog (timer_set oc t (OneShot d)) (\<lambda>z. case z of
       Inl e \<Rightarrow> bind_prog (close_owned oc t) (\<lambda>_. Ret (Inl e))
     | Inr _ \<Rightarrow> Ret (Inr t)))"

section \<open>\<open>sleep\<close>\<close>

text \<open>The states of the \<open>async\<close> function: not started, at its \<open>await\<close> and returned.\<close>

datatype sleep_state = SleepNew nat | SleepTick owned_fd | SleepDone

definition sleep_tick :: "os_calls \<Rightarrow> owned_fd \<Rightarrow> waker
    \<Rightarrow> (sleep_state \<times> (io_error + unit) poll, 'f, 'v) prog" where
  "sleep_tick oc t wk = bind_prog (timer_tick oc t wk) (\<lambda>r. case r of
     Pending \<Rightarrow> Ret (SleepTick t, Pending)
   | Ready (Inl e) \<Rightarrow> bind_prog (close_owned oc t) (\<lambda>_. Ret (SleepDone, Ready (Inl e)))
   | Ready (Inr _) \<Rightarrow> bind_prog (close_owned oc t) (\<lambda>_. Ret (SleepDone, Ready (Inr ()))))"

definition sleep_poll :: "os_calls \<Rightarrow> sleep_state \<Rightarrow> waker
    \<Rightarrow> (sleep_state \<times> (io_error + unit) poll, 'f, 'v) prog" where
  "sleep_poll oc s wk = (case s of
     SleepNew d \<Rightarrow> bind_prog (one_shot oc d) (\<lambda>r. case r of
         Inl e \<Rightarrow> Ret (SleepDone, Ready (Inl e))
       | Inr t \<Rightarrow> sleep_tick oc t wk)
   | SleepTick t \<Rightarrow> sleep_tick oc t wk
   | SleepDone \<Rightarrow> UserPanics)"

definition sleep_drop :: "os_calls \<Rightarrow> sleep_state \<Rightarrow> (unit, 'f, 'v) prog" where
  "sleep_drop oc s = (case s of SleepTick t \<Rightarrow> close_owned oc t | _ \<Rightarrow> Ret ())"

section \<open>\<open>timeout\<close>\<close>

record 'f timeout =
  to_future :: 'f
  to_timer :: owned_fd

definition timeout_new :: "os_calls \<Rightarrow> ('f, 'v) user \<Rightarrow> nat \<Rightarrow> 'f \<Rightarrow> (io_error + 'f timeout, 'f, 'v) prog" where
  "timeout_new oc u d f = bind_prog (one_shot oc d) (\<lambda>r. case r of
     Inl e \<Rightarrow> bind_prog (u_drop u f) (\<lambda>_. Ret (Inl e))
   | Inr t \<Rightarrow> Ret (Inr \<lparr>to_future = f, to_timer = t\<rparr>))"

text \<open>\<open>Inl ()\<close> is \<open>Err(())\<close>: the time is over.\<close>

definition timeout_poll :: "os_calls \<Rightarrow> ('f, 'v) user \<Rightarrow> 'f timeout \<Rightarrow> waker
    \<Rightarrow> ('f timeout \<times> (unit + 'v) poll, 'f, 'v) prog" where
  "timeout_poll oc u x wk = bind_prog (u_poll u (to_future x) wk) (\<lambda>(f1, r).
     let x1 = x\<lparr>to_future := f1\<rparr> in (case r of
       Ready v \<Rightarrow> Ret (x1, Ready (Inr v))
     | Pending \<Rightarrow> bind_prog (timer_tick oc (to_timer x) wk) (\<lambda>z. case z of
         Ready _ \<Rightarrow> Ret (x1, Ready (Inl ()))
       | Pending \<Rightarrow> Ret (x1, Pending))))"

definition timeout_drop :: "os_calls \<Rightarrow> ('f, 'v) user \<Rightarrow> 'f timeout \<Rightarrow> (unit, 'f, 'v) prog" where
  "timeout_drop oc u x = bind_prog (u_drop u (to_future x)) (\<lambda>_. close_owned oc (to_timer x))"

section \<open>What a sleep holds\<close>

text \<open>The \<open>Fd\<close>s and event slots of a thread that has the \<open>Fd\<close> of a timer, or has it no more.\<close>

definition owns_timer :: "owned_fd \<Rightarrow> ('k, 't, 'v) world \<Rightarrow> bool" where
  "owns_timer t w \<longleftrightarrow> (\<exists>d. w_fds w (of_obj t) = Some \<lparr>fd_inner = of_fd t, fd_ew = d\<rparr>)"

definition without_timer :: "owned_fd \<Rightarrow> ('k, 't, 'v) world \<Rightarrow> (nat \<rightharpoonup> fd_object) \<times> nat" where
  "without_timer t w = ((w_fds w)(of_obj t := None), length (x_events (w_exec w)) - 1)"

lemma fresh_fd: "winv reg E G w \<Longrightarrow> w_fds w (Suc (w_next w)) = None"
proof (rule ccontr)
  assume I: "winv reg E G w" and n: "w_fds w (Suc (w_next w)) \<noteq> None"
  then have "Suc (w_next w) < w_next w"
    unfolding winv_def ewf_def by (metis UnI2 domIff epoll_ok_fresh)
  then show False by simp
qed

lemma close_owned_frame:
  assumes "interp (do_call S u (Suc n)) (close_owned oc t) w = Ok ((), w')" and "owns_timer t w"
  shows "fd_frame w' = without_timer t w"
  using assms fd_drop_frame [of w "of_obj t" _ S]
  by (auto simp: interp_close_owned owns_timer_def without_timer_def Let_def simp del: do_call.simps)

lemma interp_one_shot:
  assumes "interp (do_call S u (Suc n)) (one_shot oc d) w = Ok (r, w')" and "w_fds w (Suc (w_next w)) = None"
  shows "case r of Inl _ \<Rightarrow> fd_frame w' = fd_frame w
    | Inr t \<Rightarrow> owns_timer t w' \<and> without_timer t w' = fd_frame w"
proof -
  let ?w1 = "w\<lparr>w_kernel := snd (sys_other S (os_timerfd_create oc) (w_kernel w))\<rparr>"
  show ?thesis
  proof (cases "fst (sys_other S (os_timerfd_create oc) (w_kernel w))")
    case (Inl e)
    with assms(1) show ?thesis
      by (auto simp: one_shot_def timer_new_def interp_os simp del: do_call.simps)
  next
    case fd: (Inr fd)
    obtain z w2 where z: "fd_new S (int fd) EPOLLIN ?w1 = (z, w2)" by force
    note fr = fd_new_frame [OF z]
    show ?thesis
    proof (cases z)
      case (Inl e)
      with assms(1) fd z fr show ?thesis
        by (auto simp: one_shot_def timer_new_def interp_os simp del: do_call.simps)
    next
      case (Inr i)
      let ?t = "\<lparr>of_fd = int fd, of_obj = i\<rparr>"
      from Inr fr have own: "owns_timer ?t w2" "without_timer ?t w2 = fd_frame w"
        using assms(2) by (auto simp: owns_timer_def without_timer_def fd_frame_def)
      then have own': "owns_timer ?t (w2\<lparr>w_kernel := k\<rparr>)" "without_timer ?t (w2\<lparr>w_kernel := k\<rparr>) = fd_frame w" for k
        by (simp_all add: owns_timer_def without_timer_def)
      show ?thesis
      proof (cases "fst (sys_other S (os_timerfd_settime oc (int fd) (OneShot d)) (w_kernel w2))")
        case e: (Inl e)
        let ?w3 = "w2\<lparr>w_kernel := snd (sys_other S (os_timerfd_settime oc (int fd) (OneShot d)) (w_kernel w2))\<rparr>"
        from assms(1) fd z Inr e have "r = Inl e" "interp (do_call S u (Suc n)) (close_owned oc ?t) ?w3 = Ok ((), w')"
          by (auto simp: one_shot_def timer_new_def timer_set_def interp_os Let_def simp del: do_call.simps)
        with close_owned_frame [OF _ own'(1)] own'(2) show ?thesis by simp
      next
        case s: (Inr m)
        with assms(1) fd z Inr own' show ?thesis
          by (auto simp: one_shot_def timer_new_def timer_set_def interp_os simp del: do_call.simps)
      qed
    qed
  qed
qed

lemma interp_sleep_tick:
  assumes r: "interp (do_call S u (Suc n)) (sleep_tick oc t wk) w = Ok ((s', r), w')" and t: "owns_timer t w"
  shows "case r of Pending \<Rightarrow> s' = SleepTick t \<and> owns_timer t w' \<and> fd_frame w' = fd_frame w
    | Ready _ \<Rightarrow> s' = SleepDone \<and> fd_frame w' = without_timer t w"
proof -
  obtain f where f: "w_fds w (of_obj t) = Some f" using t by (auto simp: owns_timer_def)
  let ?p = "fd_poll_with S (\<lambda>_. sys_other S (os_read oc (of_fd t) 8)) f wk w"
  have tick: "interp (do_call S u (Suc n)) (timer_tick oc t wk) w = ?p"
    unfolding timer_tick_def by (rule interp_poll_fd [OF f])
  with r obtain z w1 where z: "?p = Ok (z, w1)"
    by (auto simp: sleep_tick_def interp_bind_prog res_simps simp del: do_call.simps)
  have fr: "fd_frame w1 = fd_frame w" by (rule fd_poll_with_frame [OF z])
  then have own: "owns_timer t w1" "without_timer t w1 = without_timer t w"
    using t by (simp_all add: fd_frame_def owns_timer_def without_timer_def)
  show ?thesis
  proof (cases z)
    case Pending
    with r z tick fr own show ?thesis
      by (auto simp: sleep_tick_def interp_bind_prog simp del: do_call.simps)
  next
    case (Ready y)
    with r z tick have "interp (do_call S u (Suc n)) (close_owned oc t) w1 = Ok ((), w')" "s' = SleepDone" "\<exists>v. r = Ready v"
      by (auto simp: sleep_tick_def interp_bind_prog res_simps simp del: do_call.simps split: sum.splits)
    with close_owned_frame [OF _ own(1)] own(2) show ?thesis by auto
  qed
qed

text \<open>
  C25: a sleep holds one \<open>Fd\<close> and one event slot exactly while it is pending. However a poll
  ends - a timer that cannot be created, registered or set, a read error, or the end of the
  time - a sleep that has returned has given both back, and a pending one keeps its timer.
\<close>

theorem sleep_releases_timer:
  assumes "winv reg E G w" and "interp (do_call S u (Suc n)) (sleep_poll oc s wk) w = Ok ((s', r), w')"
    and "case s of SleepTick t \<Rightarrow> owns_timer t w | _ \<Rightarrow> True"
  shows "case r of
      Pending \<Rightarrow> \<exists>t. s' = SleepTick t \<and> owns_timer t w' \<and>
        (case s of SleepNew _ \<Rightarrow> without_timer t w' = fd_frame w | _ \<Rightarrow> s' = s \<and> fd_frame w' = fd_frame w)
    | Ready _ \<Rightarrow> s' = SleepDone \<and>
        fd_frame w' = (case s of SleepTick t \<Rightarrow> without_timer t w | _ \<Rightarrow> fd_frame w)"
proof (cases s)
  case (SleepNew d)
  with assms(2) obtain z w1 where z: "interp (do_call S u (Suc n)) (one_shot oc d) w = Ok (z, w1)"
    by (auto simp: sleep_poll_def interp_bind_prog res_simps simp del: do_call.simps)
  note one = interp_one_shot [OF z fresh_fd [OF assms(1)]]
  show ?thesis
  proof (cases z)
    case (Inl e)
    with assms(2) SleepNew z one show ?thesis
      by (auto simp: sleep_poll_def interp_bind_prog simp del: do_call.simps)
  next
    case (Inr t)
    with assms(2) SleepNew z have tick: "interp (do_call S u (Suc n)) (sleep_tick oc t wk) w1 = Ok ((s', r), w')"
      by (auto simp: sleep_poll_def interp_bind_prog simp del: do_call.simps)
    from one Inr have own: "owns_timer t w1" "without_timer t w1 = fd_frame w" by simp_all
    from interp_sleep_tick [OF tick own(1)] own(2) SleepNew show ?thesis
      by (auto simp: without_timer_def fd_frame_def split: poll.splits)
  qed
next
  case (SleepTick t)
  with assms(2,3) interp_sleep_tick [of S u n oc t wk w s' r w'] show ?thesis
    by (auto simp: sleep_poll_def simp del: do_call.simps split: poll.splits)
next
  case SleepDone
  with assms(2) show ?thesis by (simp add: sleep_poll_def)
qed

section \<open>Waiting for a timer\<close>

definition would_block :: "io_error + nat \<Rightarrow> bool" where
  "would_block z = (case z of Inl e \<Rightarrow> kind e = WouldBlock | Inr _ \<Rightarrow> False)"

text \<open>A poll that looks at the timer: its flags are set and its burst is not exhausted.\<close>

lemma interp_timer_tick:
  assumes "w_fds w (of_obj t) = Some f" and "w_ews w (fd_ew f) = Some ew" and "ew_events ew \<noteq> 0"
    and "ew_burst ew < BURST_LIMIT" and "retry_interrupted (sys_other S (os_read oc (of_fd t) 8)) (w_kernel w) = Some (z, k2)"
  shows "\<exists>ew'. interp (do_call S u (Suc n)) (timer_tick oc t wk) w =
      Ok (if would_block z then Pending else Ready z, w\<lparr>w_ews := (w_ews w)(fd_ew f \<mapsto> ew'), w_kernel := k2\<rparr>) \<and>
    (would_block z \<longrightarrow> ew' = \<lparr>ew_waker = waker_clone_from wk w (ew_waker ew), ew_events = 0, ew_burst = 0\<rparr>)"
  using assms unfolding timer_tick_def interp_poll_fd [OF assms(1)]
  by (cases ew) (auto simp: fd_poll_with_def poll_with_def would_block_def split: sum.splits)

text \<open>
  The first poll of a sleep leaves it waiting for its timer. It creates and sets the
  timer, finds that the time is not over, and leaves the waker of the poll in the epoll
  waker of the timer, with no readiness flag, where the event of the timer will find it.
\<close>

theorem sleep_leaves_waker_with_timer:
  assumes "sys_other S (os_timerfd_create oc) (w_kernel w) = (Inr fd, k1)"
    and "fd_new S (int fd) EPOLLIN (w\<lparr>w_kernel := k1\<rparr>) = (Inr i, w2)"
    and "sys_other S (os_timerfd_settime oc (int fd) (OneShot d)) (w_kernel w2) = (Inr m, k3)"
    and "sys_other S (os_read oc (int fd) 8) k3 = (Inl (OsError EAGAIN), k4)"
  shows "\<exists>w' a. interp (do_call S u (Suc n)) (sleep_poll oc (SleepNew d) wk) w =
      Ok ((SleepTick \<lparr>of_fd = int fd, of_obj = i\<rparr>, Pending), w') \<and> w_kernel w' = k4 \<and>
    w_fds w' i = Some \<lparr>fd_inner = int fd, fd_ew = a\<rparr> \<and>
    w_ews w' a = Some \<lparr>ew_waker = waker_clone_from wk w2 NoopWaker, ew_events = 0, ew_burst = 0\<rparr>"
proof -
  let ?t = "\<lparr>of_fd = int fd, of_obj = i\<rparr>" and ?w3 = "w2\<lparr>w_kernel := k3\<rparr>"
  have new: "w_fds w2 i = Some \<lparr>fd_inner = int fd, fd_ew = w_next w\<rparr>"
    "w_ews w2 (w_next w) = Some (epoll_waker_new EPOLLIN)"
    using assms(2)
    by (auto simp: fd_new_def Let_def epoll_add_def EPOLLIN_def EPOLLOUT_def split: prod.splits sum.splits)
  have "retry_interrupted (sys_other S (os_read oc (of_fd ?t) 8)) (w_kernel ?w3) = Some (Inl (OsError EAGAIN), k4)"
    using retry_stop [of "sys_other S (os_read oc (int fd) 8)" k3] assms(4) by simp
  from interp_timer_tick [OF _ _ _ _ this, of "\<lparr>fd_inner = int fd, fd_ew = w_next w\<rparr>" "epoll_waker_new EPOLLIN" u n wk] new
  obtain w' where w': "interp (do_call S u (Suc n)) (timer_tick oc ?t wk) ?w3 = Ok (Pending, w')"
    "w_kernel w' = k4" "w_fds w' = w_fds w2"
    "w_ews w' (w_next w) = Some \<lparr>ew_waker = waker_clone_from wk w2 NoopWaker, ew_events = 0, ew_burst = 0\<rparr>"
    by (auto simp: epoll_waker_new_def EPOLLIN_def BURST_LIMIT_def would_block_def waker_clone_from_def waker_clone_def
        simp del: do_call.simps cong: waker.case_cong)
  have "interp (do_call S u (Suc n)) (sleep_poll oc (SleepNew d) wk) w = Ok ((SleepTick ?t, Pending), w')"
    using assms(1-3) w'(1)
    by (simp add: sleep_poll_def one_shot_def timer_new_def timer_set_def sleep_tick_def interp_os del: do_call.simps)
  with w' new(1) show ?thesis by auto
qed

text \<open>
  C26: a timeout gives the result of its future when the future is ready, even when the
  time is over as well, and does not look at the timer then. While the future is pending
  the read of the timer decides: one that would block leaves the timeout pending with its
  waker at the timer; anything else, an error of the read included, ends it with \<open>Err(())\<close>.
\<close>

theorem timeout_outcomes:
  assumes "interp (do_call S u (Suc n)) (u_poll u (to_future x) wk) w = Ok ((f1, r1), w1)"
    and "w_fds w1 (of_obj (to_timer x)) = Some f" and "w_ews w1 (fd_ew f) = Some ew" and "ew_events ew \<noteq> 0"
    and "ew_burst ew < BURST_LIMIT"
    and "retry_interrupted (sys_other S (os_read oc (of_fd (to_timer x)) 8)) (w_kernel w1) = Some (z, k2)"
  shows "\<exists>w'. interp (do_call S u (Suc n)) (timeout_poll oc u x wk) w = Ok ((x\<lparr>to_future := f1\<rparr>,
      case r1 of Ready v \<Rightarrow> Ready (Inr v) | Pending \<Rightarrow> if would_block z then Pending else Ready (Inl ())), w') \<and>
    (case r1 of Ready _ \<Rightarrow> w' = w1
     | Pending \<Rightarrow> w_kernel w' = k2 \<and> (would_block z \<longrightarrow> w_ews w' (fd_ew f) =
         Some \<lparr>ew_waker = waker_clone_from wk w1 (ew_waker ew), ew_events = 0, ew_burst = 0\<rparr>))"
proof (cases r1)
  case (Ready v)
  with assms(1) show ?thesis by (simp add: timeout_poll_def interp_bind_prog Let_def del: do_call.simps)
next
  case Pending
  from interp_timer_tick [OF assms(2-6), of u n wk] obtain ew' where tick:
    "interp (do_call S u (Suc n)) (timer_tick oc (to_timer x) wk) w1 =
      Ok (if would_block z then Pending else Ready z, w1\<lparr>w_ews := (w_ews w1)(fd_ew f \<mapsto> ew'), w_kernel := k2\<rparr>)"
    "would_block z \<longrightarrow> ew' = \<lparr>ew_waker = waker_clone_from wk w1 (ew_waker ew), ew_events = 0, ew_burst = 0\<rparr>"
    by blast
  with assms(1) Pending show ?thesis
    by (simp add: timeout_poll_def interp_bind_prog Let_def del: do_call.simps)
qed

section \<open>Witnesses\<close>

text \<open>System call numbers for \<open>demo\<close>, which answers any call from its script.\<close>

definition demo_os :: os_calls where
  "demo_os = \<lparr>os_close = (\<lambda>_. 0), os_read = (\<lambda>_ _. 0), os_write = (\<lambda>_ _. 0), os_timerfd_create = 0,
     os_timerfd_settime = (\<lambda>_ _. 0), os_signalfd = (\<lambda>_. 0), os_get_sigmask = 0, os_block_signals = (\<lambda>_. 0),
     os_unblock_signals = (\<lambda>_. 0), os_fstat_mode = (\<lambda>_. 0), os_isatty = (\<lambda>_. 0)\<rparr>"

text \<open>A thread whose system calls will be answered by the script \<open>rs\<close>.\<close>

definition demo_scripted :: "(io_error + nat) list \<Rightarrow> (demo, nat, nat) sched" where
  "demo_scripted rs = (case thread_start demo (demo_start\<lparr>d_script := rs\<rparr>) of
     Ok w \<Rightarrow> w | Fault _ \<Rightarrow> empty_world demo_start)"

lemma demo_scripted_start: "thread_start demo (demo_start\<lparr>d_script := rs\<rparr>) = Ok (demo_scripted rs)"
  by (simp add: demo_scripted_def eval_simps cong: eval_congs)

lemma demo_scripted_inv: "winv demo_reg (\<lambda>_. 0) ({}, {}) (demo_scripted rs)"
  using thread_start_inv [OF demo_ok, of "demo_start\<lparr>d_script := rs\<rparr>"] demo_scripted_start by (metis safe_OkD)

lemma demo_scripted_state:
  "w_kernel (demo_scripted rs) = \<lparr>d_next = 6, d_reg = [((5, 3), 0)], d_pipes = [((3, 4), [])], d_schedule = [], d_script = rs\<rparr>"
  "w_fds (demo_scripted rs) = Map.empty" "w_ews (demo_scripted rs) = Map.empty" "w_next (demo_scripted rs) = 2"
  "x_epoll (w_exec (demo_scripted rs)) = 5"
  by (simp_all add: demo_scripted_def eval_simps cong: eval_congs)

lemmas eval_os = interp_os timer_new_def timer_set_def one_shot_def sleep_poll_def demo_os_def
  fd_new_def fd_drop_def fd_release_def epoll_add_def epoll_del_def demo_def demo_scripted_state Let_def

lemma sleep_releases_timer_witness:
  "\<exists>w'. interp (do_call demo demo_user 1) (sleep_poll demo_os (SleepNew 5) (BlockOnWaker 4))
       (demo_scripted [Inr 100, Inl (OsError (Errno 22)), Inr 0]) = Ok ((SleepDone, Ready (Inl (OsError (Errno 22)))), w') \<and>
     fd_frame w' = fd_frame (demo_scripted [Inr 100, Inl (OsError (Errno 22)), Inr 0])"
proof -
  let ?w = "demo_scripted [Inr 100, Inl (OsError (Errno 22)), Inr 0]"
  have "\<exists>s' r w'. interp (do_call demo demo_user (Suc 0)) (sleep_poll demo_os (SleepNew 5) (BlockOnWaker 4)) ?w =
      Ok ((s', r), w') \<and> r = Ready (Inl (OsError (Errno 22)))"
    by (simp add: eval_os del: do_call.simps)
  then obtain s' r w' where w': "interp (do_call demo demo_user (Suc 0)) (sleep_poll demo_os (SleepNew 5) (BlockOnWaker 4)) ?w =
      Ok ((s', r), w')" "r = Ready (Inl (OsError (Errno 22)))" by blast
  from sleep_releases_timer [OF demo_scripted_inv w'(1)] w' show ?thesis by simp
qed

lemma demo_sleep_calls:
  "sys_other demo (os_timerfd_create demo_os) (w_kernel (demo_scripted (r # rs))) =
     (r, (w_kernel (demo_scripted (r # rs)))\<lparr>d_script := rs\<rparr>)"
  by (simp add: demo_def demo_scripted_state)

theorem sleep_leaves_waker_with_timer_witness:
  "\<exists>w' a. interp (do_call demo demo_user 1) (sleep_poll demo_os (SleepNew 5) (BlockOnWaker 4))
       (demo_scripted [Inr 100, Inr 0, Inl (OsError EAGAIN)]) = Ok ((SleepTick \<lparr>of_fd = 100, of_obj = 3\<rparr>, Pending), w') \<and>
     w_fds w' 3 = Some \<lparr>fd_inner = 100, fd_ew = a\<rparr> \<and>
     w_ews w' a = Some \<lparr>ew_waker = BlockOnWaker 4, ew_events = 0, ew_burst = 0\<rparr>"
proof -
  let ?rs = "[Inr 0, Inl (OsError EAGAIN)]" and ?w = "demo_scripted [Inr 100, Inr 0, Inl (OsError EAGAIN)]"
  let ?k = "(w_kernel ?w)\<lparr>d_script := ?rs\<rparr>"
  obtain r w2 where w2: "fd_new demo (int 100) EPOLLIN (?w\<lparr>w_kernel := ?k\<rparr>) = (r, w2)" by force
  have r: "r = Inr 3" "w_kernel w2 = \<lparr>d_next = 6, d_reg = [((5, 100), 2), ((5, 3), 0)], d_pipes = [((3, 4), [])],
      d_schedule = [], d_script = ?rs\<rparr>"
    using w2 by (auto simp: demo_scripted_state fd_new_def epoll_add_def demo_def Let_def)
  have a: "sys_other demo (os_timerfd_settime demo_os (int 100) (OneShot 5)) (w_kernel w2) =
      (Inr 0, (w_kernel w2)\<lparr>d_script := [Inl (OsError EAGAIN)]\<rparr>)" by (simp add: r(2) demo_def)
  have b: "sys_other demo (os_read demo_os (int 100) 8) ((w_kernel w2)\<lparr>d_script := [Inl (OsError EAGAIN)]\<rparr>) =
      (Inl (OsError EAGAIN), (w_kernel w2)\<lparr>d_script := []\<rparr>)" by (simp add: r(2) demo_def)
  from sleep_leaves_waker_with_timer [OF demo_sleep_calls w2 [unfolded r(1)] a b, of demo_user 0 "BlockOnWaker 4"]
  show ?thesis by (auto simp: waker_clone_from_def waker_clone_def simp del: do_call.simps)
qed

text \<open>A thread with a timer, before the read of the timer fails.\<close>

definition demo_timer :: "(demo, nat, nat) sched" where
  "demo_timer = (case interp (do_call demo demo_user 1) (one_shot demo_os 5)
       (demo_scripted [Inr 100, Inr 0, Inl (OsError (Errno 5))]) of
     Ok (_, w) \<Rightarrow> w | Fault _ \<Rightarrow> empty_world demo_start)"

lemma demo_timer_state: "w_fds demo_timer 3 = Some \<lparr>fd_inner = 100, fd_ew = 2\<rparr>"
  "w_ews demo_timer 2 = Some \<lparr>ew_waker = NoopWaker, ew_events = 1, ew_burst = 0\<rparr>"
  "d_script (w_kernel demo_timer) = [Inl (OsError (Errno 5))]"
  by (simp_all add: demo_timer_def eval_os epoll_waker_new_def EPOLLIN_def EPOLLOUT_def del: do_call.simps)

theorem timeout_outcomes_witness:
  "\<exists>w'. interp (do_call demo demo_user 1) (timeout_poll demo_os demo_user
       \<lparr>to_future = 4, to_timer = \<lparr>of_fd = 100, of_obj = 3\<rparr>\<rparr> (BlockOnWaker 4)) demo_timer =
     Ok ((\<lparr>to_future = 4, to_timer = \<lparr>of_fd = 100, of_obj = 3\<rparr>\<rparr>, Ready (Inl ())), w')"
proof -
  let ?x = "\<lparr>to_future = 4, to_timer = \<lparr>of_fd = 100, of_obj = 3\<rparr>\<rparr> :: nat timeout"
  have f: "interp (do_call demo demo_user (Suc 0)) (u_poll demo_user (to_future ?x) (BlockOnWaker 4)) demo_timer =
      Ok ((4, Pending), demo_timer)"
    by (simp add: demo_user_def demo_poll_def)
  have k: "sys_other demo (os_read demo_os (of_fd (to_timer ?x)) 8) (w_kernel demo_timer) =
      (Inl (OsError (Errno 5)), (w_kernel demo_timer)\<lparr>d_script := []\<rparr>)"
    by (simp add: demo_def demo_timer_state)
  have r: "retry_interrupted (sys_other demo (os_read demo_os (of_fd (to_timer ?x)) 8)) (w_kernel demo_timer) =
      Some (Inl (OsError (Errno 5)), (w_kernel demo_timer)\<lparr>d_script := []\<rparr>)"
    using retry_stop [of "sys_other demo (os_read demo_os (of_fd (to_timer ?x)) 8)" "w_kernel demo_timer"] k by simp
  from timeout_outcomes [OF f _ _ _ _ r, of "\<lparr>fd_inner = 100, fd_ew = 2\<rparr>"] demo_timer_state show ?thesis
    by (auto simp: would_block_def BURST_LIMIT_def simp del: do_call.simps)
qed

end
