(* ===== verification/Epox_Signal.thy ===== *)
theory Epox_Signal
  imports Epox_Os
begin

text \<open>
  Signals as events: \<^verbatim>\<open>src/signal.rs\<close>. An \<open>AsyncSignal\<close> blocks its signals for the thread
  while it lives and reads them from a signalfd.

  The signal mask of the thread is part of the kernel's state. The lemmas show when a new
  \<open>AsyncSignal\<close> is refused, that dropping one restores the mask, and when the mask is left
  changed.
\<close>

section \<open>Signal sets\<close>

text \<open>
  The signal \<open>n\<close> is the bit \<open>n - 1\<close>. A \<open>SigSet\<close> is iterated over the values of \<open>Signal\<close>, 1 to
  31; a full set has further bits.
\<close>

definition sigset_contains :: "sigset \<Rightarrow> nat \<Rightarrow> bool" where
  "sigset_contains m s \<longleftrightarrow> bit m (s - 1)"

definition sigset_signals :: "sigset \<Rightarrow> nat list" where
  "sigset_signals m = filter (sigset_contains m) [1..<32]"

definition only_signals :: "sigset \<Rightarrow> bool" where
  "only_signals m \<longleftrightarrow> m AND mask 31 = m"

section \<open>\<open>AsyncSignal\<close>\<close>

record async_signal =
  as_fd :: owned_fd
  as_sigset :: sigset

definition signal_new :: "os_calls \<Rightarrow> sigset \<Rightarrow> (io_error + async_signal, 'f, 'v) prog" where
  "signal_new oc m =
     (if m = 0 then Ret (Inl (SimpleError OtherKind))
      else bind_prog (sys (os_get_sigmask oc)) (\<lambda>r. case r of
        Inl e \<Rightarrow> Ret (Inl e)
      | Inr oldset \<Rightarrow>
          if \<exists>s \<in> set (sigset_signals m). sigset_contains (of_nat oldset) s
          then Ret (Inl (SimpleError OtherKind))
          else bind_prog (sys (os_signalfd oc m)) (\<lambda>r. case r of
            Inl e \<Rightarrow> Ret (Inl e)
          | Inr fd \<Rightarrow> bind_prog (sys (os_block_signals oc m)) (\<lambda>r. case r of
              Inl e \<Rightarrow> bind_prog (sys (os_close oc (int fd))) (\<lambda>_. Ret (Inl e))
            | Inr _ \<Rightarrow> bind_prog (open_owned oc (int fd) EPOLLIN) (\<lambda>r. case r of
                Inl e \<Rightarrow> Ret (Inl e)
              | Inr f \<Rightarrow> Ret (Inr \<lparr>as_fd = f, as_sigset = m\<rparr>))))))"

text \<open>One poll of \<open>receive\<close>, which reads a \<open>signalfd_siginfo\<close> of 128 bytes.\<close>

definition signal_receive :: "os_calls \<Rightarrow> async_signal \<Rightarrow> waker \<Rightarrow> ((io_error + nat) poll, 'f, 'v) prog" where
  "signal_receive oc s wk = poll_fd (of_obj (as_fd s)) wk (os_read oc (of_fd (as_fd s)) 128)"

text \<open>The signals are unblocked before the signalfd is closed.\<close>

definition signal_drop :: "os_calls \<Rightarrow> async_signal \<Rightarrow> (unit, 'f, 'v) prog" where
  "signal_drop oc s = bind_prog (sys (os_unblock_signals oc (as_sigset s))) (\<lambda>_. close_owned oc (as_fd s))"

section \<open>The kernel's promises about the signal mask\<close>

text \<open>
  \<open>sigmask k\<close> is the mask of the thread; \<open>B\<close> are the signals that can be blocked. The
  documented behaviour of pthread_sigmask(3): reading the mask does not change it, blocking
  adds the signals of \<open>B\<close> among those of its argument or changes nothing, unblocking removes
  its argument. No other call used here changes the mask.
\<close>

definition sigmask_ok :: "('k \<Rightarrow> sigset) \<Rightarrow> sigset \<Rightarrow> os_calls \<Rightarrow> 'k kernel \<Rightarrow> bool" where
  "sigmask_ok sigmask B oc S \<longleftrightarrow>
     (\<forall>k. sigmask (snd (sys_other S (os_get_sigmask oc) k)) = sigmask k) \<and>
     (\<forall>k n. fst (sys_other S (os_get_sigmask oc) k) = Inr n \<longrightarrow> n = unat (sigmask k)) \<and>
     (\<forall>m k. sigmask (snd (sys_other S (os_block_signals oc m) k)) =
        (case fst (sys_other S (os_block_signals oc m) k) of Inl _ \<Rightarrow> sigmask k | Inr _ \<Rightarrow> sigmask k OR (m AND B))) \<and>
     (\<forall>m k. sigmask (snd (sys_other S (os_unblock_signals oc m) k)) = sigmask k AND NOT m) \<and>
     (\<forall>m k. sigmask (snd (sys_other S (os_signalfd oc m) k)) = sigmask k) \<and>
     (\<forall>fd k. sigmask (snd (sys_other S (os_close oc fd) k)) = sigmask k) \<and>
     (\<forall>fd k. sigmask (snd (sys_getfl S fd k)) = sigmask k) \<and>
     (\<forall>fd f k. sigmask (snd (sys_setfl S fd f k)) = sigmask k) \<and>
     (\<forall>ep fd ev k. sigmask (snd (sys_epoll_add S ep fd ev k)) = sigmask k) \<and>
     (\<forall>ep fd k. sigmask (snd (sys_epoll_del S ep fd k)) = sigmask k)"

lemma sigmask_okD:
  assumes "sigmask_ok sigmask B oc S"
  shows "sigmask (snd (sys_other S (os_get_sigmask oc) k)) = sigmask k"
    "fst (sys_other S (os_get_sigmask oc) k) = Inr n \<Longrightarrow> n = unat (sigmask k)"
    "fst (sys_other S (os_block_signals oc m) k) = Inr x \<Longrightarrow>
      sigmask (snd (sys_other S (os_block_signals oc m) k)) = sigmask k OR (m AND B)"
    "fst (sys_other S (os_block_signals oc m) k) = Inl e \<Longrightarrow>
      sigmask (snd (sys_other S (os_block_signals oc m) k)) = sigmask k"
    "sigmask (snd (sys_other S (os_unblock_signals oc m) k)) = sigmask k AND NOT m"
    "sigmask (snd (sys_other S (os_signalfd oc m) k)) = sigmask k"
    "sigmask (snd (sys_other S (os_close oc fd) k)) = sigmask k"
    "sigmask (snd (sys_getfl S fd k)) = sigmask k" "sigmask (snd (sys_setfl S fd f k)) = sigmask k"
    "sigmask (snd (sys_epoll_add S ep fd ev k)) = sigmask k" "sigmask (snd (sys_epoll_del S ep fd k)) = sigmask k"
  using assms by (simp_all add: sigmask_ok_def)

lemma sigmask_fd_release:
  assumes "sigmask_ok sigmask B oc S"
  shows "sigmask (w_kernel (fd_release S fd d w)) = sigmask (w_kernel w)"
  using sigmask_okD(11) [OF assms, of "x_epoll (w_exec w)" fd "w_kernel w"]
  by (auto simp: fd_release_def epoll_del_def Let_def split: prod.splits sum.splits)

lemma sigmask_fd_drop:
  assumes "sigmask_ok sigmask B oc S" shows "sigmask (w_kernel (fd_drop S i w)) = sigmask (w_kernel w)"
  by (simp add: fd_drop_def Let_def sigmask_fd_release [OF assms] split: option.splits)

lemma sigmask_epoll_add:
  assumes "sigmask_ok sigmask B oc S" shows "sigmask (w_kernel (snd (epoll_add S fd ev d w))) = sigmask (w_kernel w)"
  using sigmask_okD(10) [OF assms, of "x_epoll (w_exec w)" fd "\<lparr>ev_events = ev, ev_data = d\<rparr>" "w_kernel w"]
  by (auto simp: epoll_add_def Let_def split: prod.splits sum.splits)

lemma sigmask_fd_new:
  assumes K: "sigmask_ok sigmask B oc S" shows "sigmask (w_kernel (snd (fd_new S fd ev w))) = sigmask (w_kernel w)"
proof -
  obtain r1 k1 where 1: "sys_getfl S fd (w_kernel w) = (r1, k1)" by force
  then have m1: "sigmask k1 = sigmask (w_kernel w)" using sigmask_okD(8) [OF K, of fd "w_kernel w"] by simp
  show ?thesis
  proof (cases r1)
    case (Inl e)
    with 1 m1 show ?thesis by (simp add: fd_new_def)
  next
    case (Inr fl)
    obtain r2 k2 where 2: "sys_setfl S fd (fl OR O_NONBLOCK) k1 = (r2, k2)" by force
    then have m2: "sigmask k2 = sigmask k1" using sigmask_okD(9) [OF K, of fd "fl OR O_NONBLOCK" k1] by simp
    obtain r3 w3 where 3: "epoll_add S fd (ev OR EPOLLET) (w_next w) (w\<lparr>w_kernel := k2,
        w_ews := (w_ews w)(w_next w \<mapsto> epoll_waker_new (ev AND (EPOLLIN OR EPOLLOUT))), w_next := Suc (Suc (w_next w))\<rparr>) = (r3, w3)"
      by force
    then have m3: "sigmask (w_kernel w3) = sigmask k2"
      using sigmask_epoll_add [OF K, of fd "ev OR EPOLLET" "w_next w" "w\<lparr>w_kernel := k2,
        w_ews := (w_ews w)(w_next w \<mapsto> epoll_waker_new (ev AND (EPOLLIN OR EPOLLOUT))), w_next := Suc (Suc (w_next w))\<rparr>"] by simp
    from 1 2 3 m1 m2 m3 Inr sigmask_fd_release [OF K, of fd "w_next w" w3] show ?thesis
      by (cases r2; cases r3) (simp_all add: fd_new_def Let_def)
  qed
qed

section \<open>Creating and dropping\<close>

lemma blocked_signal_iff:
  "(\<exists>s \<in> set (sigset_signals m). sigset_contains b s) \<longleftrightarrow> b AND m AND mask 31 \<noteq> 0"
proof -
  have "(\<exists>s \<in> set (sigset_signals m). sigset_contains b s) \<longleftrightarrow> (\<exists>i < 31. bit m i \<and> bit b i)"
  proof
    assume "\<exists>s \<in> set (sigset_signals m). sigset_contains b s"
    then obtain s where "1 \<le> s" "s < 32" "bit m (s - 1)" "bit b (s - 1)"
      by (auto simp: sigset_signals_def sigset_contains_def)
    then show "\<exists>i < 31. bit m i \<and> bit b i" by (intro exI [of _ "s - 1"]) auto
  next
    assume "\<exists>i < 31. bit m i \<and> bit b i"
    then obtain i where "i < 31" "bit m i" "bit b i" by blast
    then show "\<exists>s \<in> set (sigset_signals m). sigset_contains b s"
      by (intro bexI [of _ "Suc i"]) (auto simp: sigset_signals_def sigset_contains_def)
  qed
  also have "\<dots> \<longleftrightarrow> (\<exists>i. bit (b AND m AND mask 31) i)"
    by (auto simp: bit_simps dest: bit_imp_le_length)
  also have "\<dots> \<longleftrightarrow> b AND m AND mask 31 \<noteq> 0"
    by (metis bit_0_eq bit_eqI bot_apply bot_bool_def)
  finally show ?thesis .
qed

text \<open>A successful \<open>new\<close>, and the ways in which it can be refused.\<close>

lemma signal_new_Inr:
  assumes K: "sigmask_ok sigmask B oc S"
    and r: "interp (do_call S u (Suc n)) (signal_new oc m) w = Ok (Inr s, w')"
  shows "sigmask (w_kernel w) AND m AND mask 31 = 0 \<and> as_sigset s = m \<and> m \<noteq> 0 \<and>
    sigmask (w_kernel w') = sigmask (w_kernel w) OR (m AND B)"
proof -
  have m: "m \<noteq> 0" using r by (auto simp: signal_new_def)
  obtain g k1 where g: "sys_other S (os_get_sigmask oc) (w_kernel w) = (g, k1)" by force
  with r m obtain old where "g = Inr old"
    by (cases g) (auto simp: signal_new_def interp_os simp del: do_call.simps)
  with r m g have old: "sys_other S (os_get_sigmask oc) (w_kernel w) = (Inr old, k1)"
    "\<not> (\<exists>s \<in> set (sigset_signals m). sigset_contains (of_nat old) s)"
    by (auto simp: signal_new_def interp_os simp del: do_call.simps split: if_splits)
  then have b: "sigmask (w_kernel w) AND m AND mask 31 = 0" "sigmask k1 = sigmask (w_kernel w)"
    using sigmask_okD(1,2) [OF K, of "w_kernel w"] by (simp_all add: blocked_signal_iff)
  obtain fd k2 where fd: "sys_other S (os_signalfd oc m) k1 = (Inr fd, k2)"
    using r m old by (cases "sys_other S (os_signalfd oc m) k1")
      (auto simp: signal_new_def interp_os simp del: do_call.simps split: sum.splits)
  have k2: "sigmask k2 = sigmask k1" using sigmask_okD(6) [OF K, of m k1] fd by simp
  obtain x k3 where bl: "sys_other S (os_block_signals oc m) k2 = (Inr x, k3)"
    using r m old fd by (cases "sys_other S (os_block_signals oc m) k2")
      (auto simp: signal_new_def interp_os simp del: do_call.simps split: sum.splits)
  have k3: "sigmask k3 = sigmask k2 OR (m AND B)" using sigmask_okD(3) [OF K, of m k2 x] bl by simp
  obtain z w4 where z: "fd_new S (int fd) EPOLLIN (w\<lparr>w_kernel := k3\<rparr>) = (z, w4)" by force
  then have w4: "sigmask (w_kernel w4) = sigmask k3"
    using sigmask_fd_new [OF K, of "int fd" EPOLLIN "w\<lparr>w_kernel := k3\<rparr>"] by simp
  have "as_sigset s = m" "w' = w4"
    using r m old fd bl z by (auto simp: signal_new_def interp_os simp del: do_call.simps split: sum.splits)
  with b m k2 k3 w4 show ?thesis by simp
qed

lemma signal_drop_sigmask:
  assumes K: "sigmask_ok sigmask B oc S"
    and r: "interp (do_call S u (Suc n)) (signal_drop oc s) w = Ok ((), w')"
  shows "sigmask (w_kernel w') = sigmask (w_kernel w) AND NOT (as_sigset s)"
  using r by (auto simp: signal_drop_def interp_os Let_def sigmask_okD(5,7) [OF K] sigmask_fd_drop [OF K]
      simp del: do_call.simps)

lemma word_restored: "b AND m AND mask 31 = 0 \<Longrightarrow> only_signals m \<Longrightarrow> (b OR (m AND B)) AND NOT m = b" for b m B :: sigset
  unfolding only_signals_def by (auto simp: bit_eq_iff bit_simps)

text \<open>
  C27: an \<open>AsyncSignal\<close> blocks its signals while it lives, and dropping it restores the
  thread's signal mask exactly as it was before, whatever else the thread has done with its
  kernel between, as long as it left the mask alone.
\<close>

theorem signal_mask_restored:
  assumes "sigmask_ok sigmask B oc S" and "only_signals m"
    and "interp (do_call S u (Suc n)) (signal_new oc m) w = Ok (Inr s, w1)"
    and "sigmask (w_kernel w2) = sigmask (w_kernel w1)"
    and "interp (do_call S u' (Suc n')) (signal_drop oc s) w2 = Ok ((), w3)"
  shows "sigmask (w_kernel w1) = sigmask (w_kernel w) OR (m AND B) \<and> sigmask (w_kernel w3) = sigmask (w_kernel w)"
  using signal_new_Inr [OF assms(1,3)] signal_drop_sigmask [OF assms(1,5)] assms(2,4)
  by (simp add: word_restored)

lemma signal_new_blocked:
  assumes K: "sigmask_ok sigmask B oc S" and b: "sigmask (w_kernel w) AND m AND mask 31 \<noteq> 0"
    and old: "fst (sys_other S (os_get_sigmask oc) (w_kernel w)) = Inr old"
  shows "interp (do_call S u (Suc n)) (signal_new oc m) w = Ok (Inl (SimpleError OtherKind),
    w\<lparr>w_kernel := snd (sys_other S (os_get_sigmask oc) (w_kernel w))\<rparr>)"
proof -
  have "\<exists>s \<in> set (sigset_signals m). sigset_contains (of_nat old) s"
    using b sigmask_okD(2) [OF K old] by (simp add: blocked_signal_iff)
  moreover have "m \<noteq> 0" using b by auto
  ultimately show ?thesis using old by (auto simp: signal_new_def interp_os simp del: do_call.simps)
qed

text \<open>
  An empty set is refused without a system call. A set with a signal that is blocked
  is refused before anything is opened or blocked; so a second \<open>AsyncSignal\<close> for a signal
  that a live one receives is refused, and the first one keeps its mask.
\<close>

theorem overlapping_signals_are_refused:
  assumes "sigmask_ok sigmask B oc S" and "interp (do_call S u (Suc n)) (signal_new oc m) w = Ok (Inr s, w1)"
    and "m AND m' AND B AND mask 31 \<noteq> 0" and "fst (sys_other S (os_get_sigmask oc) (w_kernel w1)) = Inr old"
  shows "interp cs (signal_new oc 0) w1 = Ok (Inl (SimpleError OtherKind), w1) \<and>
    (\<exists>w2. interp (do_call S u (Suc n)) (signal_new oc m') w1 = Ok (Inl (SimpleError OtherKind), w2) \<and>
      sigmask (w_kernel w2) = sigmask (w_kernel w1) \<and> fd_frame w2 = fd_frame w1)"
proof
  have "sigmask (w_kernel w1) AND m' AND mask 31 \<noteq> 0"
    using signal_new_Inr [OF assms(1,2)] assms(3) by (auto simp: bit_eq_iff bit_simps)
  from signal_new_blocked [OF assms(1) this assms(4), of u n] sigmask_okD(1) [OF assms(1), of "w_kernel w1"]
  show "\<exists>w2. interp (do_call S u (Suc n)) (signal_new oc m') w1 = Ok (Inl (SimpleError OtherKind), w2) \<and>
      sigmask (w_kernel w2) = sigmask (w_kernel w1) \<and> fd_frame w2 = fd_frame w1"
    by auto
qed (simp add: signal_new_def)

text \<open>
  When the registration of the signalfd fails, \<open>new\<close> returns the error but leaves the
  signals blocked, with no \<open>AsyncSignal\<close> whose drop would unblock them; the next attempt is
  refused because they are.
\<close>

theorem failed_signal_new_leaves_signals_blocked:
  assumes "sigmask_ok sigmask B oc S" and "m AND B AND mask 31 \<noteq> 0"
    and "sys_other S (os_get_sigmask oc) (w_kernel w) = (Inr old, k1)" and "sigmask (w_kernel w) AND m AND mask 31 = 0"
    and "sys_other S (os_signalfd oc m) k1 = (Inr fd, k2)" and "sys_other S (os_block_signals oc m) k2 = (Inr x, k3)"
    and "fd_new S (int fd) EPOLLIN (w\<lparr>w_kernel := k3\<rparr>) = (Inl e, w4)"
    and "\<And>k. \<exists>y. fst (sys_other S (os_get_sigmask oc) k) = Inr y"
  shows "\<exists>w'. interp (do_call S u (Suc n)) (signal_new oc m) w = Ok (Inl e, w') \<and>
    sigmask (w_kernel w') = sigmask (w_kernel w) OR (m AND B) \<and>
    (\<exists>w2. interp (do_call S u (Suc n)) (signal_new oc m) w' = Ok (Inl (SimpleError OtherKind), w2))"
proof -
  have m: "m \<noteq> 0" using assms(2) by auto
  have old: "\<not> (\<exists>s \<in> set (sigset_signals m). sigset_contains (of_nat old) s)"
    using sigmask_okD(2) [OF assms(1), of "w_kernel w" old] assms(3,4) by (simp add: blocked_signal_iff)
  let ?w' = "w4\<lparr>w_kernel := snd (sys_other S (os_close oc (int fd)) (w_kernel w4))\<rparr>"
  have i: "interp (do_call S u (Suc n)) (signal_new oc m) w = Ok (Inl e, ?w')"
    using m old assms(3,5-7) by (simp add: signal_new_def interp_os del: do_call.simps)
  have k: "sigmask (w_kernel ?w') = sigmask (w_kernel w) OR (m AND B)"
    using sigmask_okD(1) [OF assms(1), of "w_kernel w"] sigmask_okD(6) [OF assms(1), of m k1]
      sigmask_okD(3) [OF assms(1), of m k2 x] sigmask_okD(7) [OF assms(1), of "int fd" "w_kernel w4"]
      sigmask_fd_new [OF assms(1), of "int fd" EPOLLIN "w\<lparr>w_kernel := k3\<rparr>"] assms(3,5-7) by simp
  then have "sigmask (w_kernel ?w') AND m AND mask 31 \<noteq> 0"
    using assms(2) by (auto simp: bit_eq_iff bit_simps)
  with signal_new_blocked [OF assms(1)] assms(8) i k show ?thesis by blast
qed

section \<open>Witnesses\<close>

text \<open>
  A kernel whose state is the signal mask of the thread, and its system call numbers:
  0 reads the mask, 1 opens a descriptor or does nothing, and the others block or unblock
  signals. SIGKILL and SIGSTOP cannot be blocked. \<open>refuse\<close> makes epoll refuse the signalfd.
\<close>

definition can_block :: sigset where "can_block = NOT 262400"

definition mask_other :: "nat \<Rightarrow> sigset \<Rightarrow> (io_error + nat) \<times> sigset" where
  "mask_other n k =
     (if n = 0 then (Inr (unat k), k) else if n = 1 then (Inr 9, k)
      else if n mod 4 = 2 then (Inr 0, k OR (of_nat (n div 4 - 1) AND can_block))
      else (Inr 0, k AND NOT (of_nat (n div 4 - 1))))"

definition mask_os :: os_calls where
  "mask_os = \<lparr>os_close = (\<lambda>_. 1), os_read = (\<lambda>_ _. 1), os_write = (\<lambda>_ _. 1), os_timerfd_create = 1,
     os_timerfd_settime = (\<lambda>_ _. 1), os_signalfd = (\<lambda>_. 1), os_get_sigmask = 0,
     os_block_signals = (\<lambda>m. 6 + 4 * unat m), os_unblock_signals = (\<lambda>m. 7 + 4 * unat m),
     os_fstat_mode = (\<lambda>_. 1), os_isatty = (\<lambda>_. 1)\<rparr>"

definition mask_kernel :: "bool \<Rightarrow> sigset kernel" where
  "mask_kernel refuse = \<lparr>sys_pipe2 = (\<lambda>k. (Inr (3, 4), k)), sys_epoll_create = (\<lambda>k. (Inr 5, k)),
     sys_epoll_add = (\<lambda>ep fd ev k. (if refuse \<and> fd = 9 then Inl (Errno 12) else Inr (), k)),
     sys_epoll_del = (\<lambda>ep fd k. (Inr (), k)), sys_epoll_wait = (\<lambda>ep n tmo k. (WaitForever, k)),
     sys_read_ptr = (\<lambda>fd k. (Inl EAGAIN, k)), sys_write_ptr = (\<lambda>fd p k. (Inr (), k)), sys_close = (\<lambda>fd k. k),
     sys_getfl = (\<lambda>fd k. (Inr 0, k)), sys_setfl = (\<lambda>fd f k. (Inr (), k)), sys_other = mask_other\<rparr>"

definition mask_world :: "(sigset, nat, nat) sched" where
  "mask_world = empty_world 0"

lemma mask_other_calls:
  "mask_other (6 + 4 * unat m) k = (Inr 0, k OR (m AND can_block))"
  "mask_other (7 + 4 * unat m) k = (Inr 0, k AND NOT m)"
proof -
  have "(6 + 4 * unat m) mod 4 = 2" "(6 + 4 * unat m) div 4 = Suc (unat m)"
    "(7 + 4 * unat m) mod 4 = 3" "(7 + 4 * unat m) div 4 = Suc (unat m)" by presburger+
  then show "mask_other (6 + 4 * unat m) k = (Inr 0, k OR (m AND can_block))"
    "mask_other (7 + 4 * unat m) k = (Inr 0, k AND NOT m)" by (simp_all add: mask_other_def)
qed

lemma mask_kernel_ok: "sigmask_ok id can_block mask_os (mask_kernel refuse)"
  by (simp add: sigmask_ok_def mask_os_def mask_kernel_def mask_other_calls mask_other_def [of 0] mask_other_def [of "Suc 0"])

lemmas eval_mask = mask_other_calls mask_os_def mask_kernel_def mask_world_def empty_world_def interp_os
  signal_new_def signal_drop_def fd_new_def fd_drop_def fd_release_def epoll_add_def epoll_del_def Let_def

text \<open>SIGINT is the set 2.\<close>

lemma mask_new:
  "\<exists>w1. interp (do_call (mask_kernel False) demo_user (Suc 0)) (signal_new mask_os 2) mask_world =
     Ok (Inr \<lparr>as_fd = \<lparr>of_fd = 9, of_obj = 2\<rparr>, as_sigset = 2\<rparr>, w1)"
  by (simp add: eval_mask mask_other_def blocked_signal_iff del: do_call.simps)

theorem signal_mask_restored_witness:
  "\<exists>w1 w3. interp (do_call (mask_kernel False) demo_user 1) (signal_new mask_os 2) mask_world =
       Ok (Inr \<lparr>as_fd = \<lparr>of_fd = 9, of_obj = 2\<rparr>, as_sigset = 2\<rparr>, w1) \<and> w_kernel w1 = 2 \<and>
     interp (do_call (mask_kernel False) demo_user 1) (signal_drop mask_os
       \<lparr>as_fd = \<lparr>of_fd = 9, of_obj = 2\<rparr>, as_sigset = 2\<rparr>) w1 = Ok ((), w3) \<and> w_kernel w3 = 0"
proof -
  obtain w1 where w1: "interp (do_call (mask_kernel False) demo_user (Suc 0)) (signal_new mask_os 2) mask_world =
     Ok (Inr \<lparr>as_fd = \<lparr>of_fd = 9, of_obj = 2\<rparr>, as_sigset = 2\<rparr>, w1)" using mask_new by blast
  obtain w3 where w3: "interp (do_call (mask_kernel False) demo_user (Suc 0)) (signal_drop mask_os
      \<lparr>as_fd = \<lparr>of_fd = 9, of_obj = 2\<rparr>, as_sigset = 2\<rparr>) w1 = Ok ((), w3)"
    by (simp add: signal_drop_def interp_os Let_def del: do_call.simps)
  have "only_signals 2" by (simp add: only_signals_def mask_eq_exp_minus_1)
  from signal_mask_restored [OF mask_kernel_ok this w1 refl w3] w1 w3 show ?thesis
    by (auto simp: mask_world_def empty_world_def can_block_def simp del: do_call.simps)
qed

theorem overlapping_signals_are_refused_witness:
  "\<exists>w1 w2. interp (do_call (mask_kernel False) demo_user 1) (signal_new mask_os 2) mask_world =
       Ok (Inr \<lparr>as_fd = \<lparr>of_fd = 9, of_obj = 2\<rparr>, as_sigset = 2\<rparr>, w1) \<and>
     interp (do_call (mask_kernel False) demo_user 1) (signal_new mask_os 6) w1 = Ok (Inl (SimpleError OtherKind), w2) \<and>
     w_kernel w2 = w_kernel w1"
proof -
  obtain w1 where w1: "interp (do_call (mask_kernel False) demo_user (Suc 0)) (signal_new mask_os 2) mask_world =
     Ok (Inr \<lparr>as_fd = \<lparr>of_fd = 9, of_obj = 2\<rparr>, as_sigset = 2\<rparr>, w1)" using mask_new by blast
  have a: "(2 :: sigset) AND 6 AND can_block AND mask 31 \<noteq> 0"
    by (simp add: can_block_def mask_eq_exp_minus_1)
  have b: "fst (sys_other (mask_kernel False) (os_get_sigmask mask_os) (w_kernel w1)) = Inr (unat (w_kernel w1))"
    by (simp add: mask_kernel_def mask_os_def mask_other_def)
  from overlapping_signals_are_refused [OF mask_kernel_ok w1 a b] w1 show ?thesis by auto
qed

theorem failed_signal_new_leaves_signals_blocked_witness:
  "\<exists>w'. interp (do_call (mask_kernel True) demo_user 1) (signal_new mask_os 2) mask_world =
       Ok (Inl (OsError (Errno 12)), w') \<and> w_kernel mask_world = 0 \<and> w_kernel w' = 2"
proof -
  have m: "(2 :: sigset) AND can_block AND mask 31 \<noteq> 0" "id (w_kernel mask_world) AND 2 AND mask 31 = 0"
    by (simp_all add: can_block_def mask_world_def empty_world_def mask_eq_exp_minus_1)
  have g: "sys_other (mask_kernel True) (os_get_sigmask mask_os) (w_kernel mask_world) = (Inr 0, 0)"
    and f: "sys_other (mask_kernel True) (os_signalfd mask_os 2) 0 = (Inr 9, 0)"
    and b: "sys_other (mask_kernel True) (os_block_signals mask_os 2) 0 = (Inr 0, 2)"
    and y: "\<exists>y. fst (sys_other (mask_kernel True) (os_get_sigmask mask_os) k) = Inr y" for k
    using mask_other_calls(1) [of 2 0]
    by (simp_all add: mask_kernel_def mask_os_def mask_world_def empty_world_def mask_other_def can_block_def)
  have "\<exists>w4. fd_new (mask_kernel True) (int 9) EPOLLIN (mask_world\<lparr>w_kernel := 2\<rparr>) = (Inl (OsError (Errno 12)), w4)"
    by (simp add: fd_new_def epoll_add_def mask_kernel_def Let_def)
  then obtain w4 where w4: "fd_new (mask_kernel True) (int 9) EPOLLIN (mask_world\<lparr>w_kernel := 2\<rparr>) =
    (Inl (OsError (Errno 12)), w4)" by blast
  from failed_signal_new_leaves_signals_blocked [OF mask_kernel_ok m(1) g m(2) f b w4 y, of demo_user 0]
  show ?thesis by (auto simp: mask_world_def empty_world_def can_block_def)
qed

end
