(* ===== verification/Epox_Thread.thy ===== *)
theory Epox_Thread
  imports Epox_Task
begin

text \<open>
  Native threads that tasks can await: \<^verbatim>\<open>src/thread.rs\<close>. The spawned thread and the task
  that joins it share a mutex with the state \<open>Running waker\<close> or \<open>Complete\<close>. Every access
  to it is one critical section, so the two sides interleave at the steps of \<open>thread_step\<close>.

  The function of the thread is a parameter: it returns a value or panics, at any time.
  The lemmas show that a join never misses the end of a thread that returns, and that it
  never hears of one that panics.
\<close>

section \<open>State\<close>

datatype thread_state = Running waker | Complete

text \<open>
  Where the spawned thread is: in the user's function, before the update of the shared
  state, before the wake-up of the waker it found there, or at its end with the result that
  \<open>JoinHandle::join\<close> reports (\<open>None\<close> for a panic).
\<close>

datatype 'v thread_pc = InFunction | Returned 'v | Waking waker 'v | Exited "'v option"

text \<open>\<open>th_join\<close>: the join handle has not been taken. \<open>th_woken\<close>: the wakers woken so far.\<close>

record 'v thread =
  th_state :: thread_state
  th_pc :: "'v thread_pc"
  th_join :: bool
  th_woken :: "waker list"

definition thread_spawn :: "'v thread" where
  "thread_spawn = \<lparr>th_state = Running NoopWaker, th_pc = InFunction, th_join = True, th_woken = []\<rparr>"

definition spawn_with_builder :: "(errno + unit) \<Rightarrow> io_error + 'v thread" where
  "spawn_with_builder os = (case os of Inl e \<Rightarrow> Inl (OsError e) | Inr _ \<Rightarrow> Inr thread_spawn)"

text \<open>\<open>thread::spawn\<close> expects the system to have a thread left.\<close>

definition thread_spawn_or_panic :: "(errno + unit) \<Rightarrow> 'v thread res" where
  "thread_spawn_or_panic os = (case spawn_with_builder os of
     Inl _ \<Rightarrow> Fault (Panic UnwrapErr) | Inr th \<Rightarrow> Ok th)"

section \<open>The spawned thread\<close>

definition thread_return :: "'v option \<Rightarrow> 'v thread \<Rightarrow> 'v thread" where
  "thread_return r th = th\<lparr>th_pc := (case r of Some v \<Rightarrow> Returned v | None \<Rightarrow> Exited None)\<rparr>"

text \<open>The state is replaced by \<open>Complete\<close>; finding it so already is a panic.\<close>

definition thread_publish :: "'v \<Rightarrow> 'v thread \<Rightarrow> 'v thread" where
  "thread_publish v th = (case th_state th of
     Running wk \<Rightarrow> th\<lparr>th_state := Complete, th_pc := Waking wk v\<rparr>
   | Complete \<Rightarrow> th\<lparr>th_pc := Exited None\<rparr>)"

text \<open>Waking can panic, when the pipe of the woken executor cannot be written (\<open>ok\<close> is false).\<close>

definition thread_wake :: "bool \<Rightarrow> waker \<Rightarrow> 'v \<Rightarrow> 'v thread \<Rightarrow> 'v thread" where
  "thread_wake ok wk v th = (if ok then th\<lparr>th_woken := th_woken th @ [wk], th_pc := Exited (Some v)\<rparr>
     else th\<lparr>th_pc := Exited None\<rparr>)"

section \<open>The joining task\<close>

definition is_finished :: "'v thread \<Rightarrow> bool res" where
  "is_finished th = (if th_join th then Ok (\<exists>r. th_pc th = Exited r) else Fault (Panic ExpectNone))"

text \<open>
  \<open>JoinFuture::poll\<close> with the (cloned) waker of the task. In the state \<open>Complete\<close> it joins
  the thread, which blocks until the thread has exited.
\<close>

definition join_poll :: "waker \<Rightarrow> 'v thread \<Rightarrow> ('v option poll \<times> 'v thread) res" where
  "join_poll wk th = (case th_state th of
     Running _ \<Rightarrow> Ok (Pending, th\<lparr>th_state := Running wk\<rparr>)
   | Complete \<Rightarrow>
       if \<not> th_join th then Fault (Panic ExpectNone)
       else (case th_pc th of
           Exited r \<Rightarrow> Ok (Ready r, th\<lparr>th_join := False\<rparr>)
         | _ \<Rightarrow> Fault Blocked))"

section \<open>Interleavings\<close>

text \<open>
  \<open>thread_step p th p' th'\<close>: one step of either side. \<open>p\<close> is the waker of the last poll that
  was pending, if the task is waiting.
\<close>

inductive thread_step :: "waker option \<Rightarrow> 'v thread \<Rightarrow> waker option \<Rightarrow> 'v thread \<Rightarrow> bool" where
  return: "th_pc th = InFunction \<Longrightarrow> thread_step p th p (thread_return r th)"
| publish: "th_pc th = Returned v \<Longrightarrow> thread_step p th p (thread_publish v th)"
| wake: "th_pc th = Waking wk v \<Longrightarrow> thread_step p th p (thread_wake ok wk v th)"
| pending: "join_poll wk th = Ok (Pending, th') \<Longrightarrow> thread_step p th (Some wk) th'"
| ready: "join_poll wk th = Ok (Ready r, th') \<Longrightarrow> thread_step p th None th'"

inductive thread_run :: "waker option \<Rightarrow> 'v thread \<Rightarrow> bool" where
  start: "thread_run None thread_spawn"
| step: "thread_run p th \<Longrightarrow> thread_step p th p' th' \<Longrightarrow> thread_run p' th'"

inductive_cases thread_stepE [elim!]: "thread_step p th p' th'"

inductive_simps thread_run_start: "thread_run p th"

text \<open>
  What the two sides keep: the state is \<open>Complete\<close> exactly when the thread has published
  its value, and a waiting task's waker is where the thread will find it, or has found it.
\<close>

definition thread_inv :: "waker option \<Rightarrow> 'v thread \<Rightarrow> bool" where
  "thread_inv p th \<longleftrightarrow> (case th_pc th of
     InFunction \<Rightarrow> (\<exists>wk. th_state th = Running wk \<and> (p = None \<or> p = Some wk)) \<and> th_join th \<and> th_woken th = []
   | Returned v \<Rightarrow> (\<exists>wk. th_state th = Running wk \<and> (p = None \<or> p = Some wk)) \<and> th_join th \<and> th_woken th = []
   | Waking wk v \<Rightarrow> th_state th = Complete \<and> (p = None \<or> p = Some wk) \<and> th_join th \<and> th_woken th = []
   | Exited (Some v) \<Rightarrow> th_state th = Complete \<and> (\<exists>wk. th_woken th = [wk] \<and> (p = None \<or> p = Some wk))
   | Exited None \<Rightarrow> th_woken th = [] \<and>
       (th_state th = Complete \<or> (\<exists>wk. th_state th = Running wk \<and> (p = None \<or> p = Some wk) \<and> th_join th)))"

lemma thread_inv_start: "thread_inv None thread_spawn"
  by (simp add: thread_inv_def thread_spawn_def)

lemma join_poll_pending: "join_poll wk th = Ok (Pending, th') \<longleftrightarrow>
    (\<exists>w. th_state th = Running w) \<and> th' = th\<lparr>th_state := Running wk\<rparr>"
  by (auto simp: join_poll_def split: thread_state.splits thread_pc.splits)

lemma join_poll_ready: "join_poll wk th = Ok (Ready r, th') \<longleftrightarrow>
    th_state th = Complete \<and> th_join th \<and> th_pc th = Exited r \<and> th' = th\<lparr>th_join := False\<rparr>"
  by (auto simp: join_poll_def split: thread_state.splits thread_pc.splits)

lemma thread_step_inv:
  assumes "thread_step p th p' th'" and "thread_inv p th"
  shows "thread_inv p' th'"
  using assms
proof cases
  case (pending wk)
  with assms(2) show ?thesis
    by (auto simp: join_poll_pending thread_inv_def split: thread_pc.splits option.splits)
next
  case (ready wk r)
  with assms(2) show ?thesis
    by (auto simp: join_poll_ready thread_inv_def split: thread_pc.splits option.splits)
qed (use assms(2) in \<open>auto simp: thread_inv_def thread_return_def thread_publish_def thread_wake_def
       split: option.splits thread_state.splits\<close>)

lemma thread_run_inv: "thread_run p th \<Longrightarrow> thread_inv p th"
  by (induction rule: thread_run.induct) (simp_all add: thread_inv_start thread_step_inv)

section \<open>What a join observes\<close>

text \<open>
  C23: no wake-up is lost. However the thread and the task interleave, once the thread
  has exited with a value, the waker of the last pending poll is the one that was woken,
  and the next poll is ready with that value.
\<close>

theorem join_never_misses_return:
  assumes "thread_run p th" and "th_pc th = Exited (Some v)"
  shows "(case p of Some wk \<Rightarrow> th_woken th = [wk] | None \<Rightarrow> True) \<and>
    (th_join th \<longrightarrow> (\<forall>wk. join_poll wk th = Ok (Ready (Some v), th\<lparr>th_join := False\<rparr>)))"
  using thread_run_inv [OF assms(1)] assms(2)
  by (auto simp: thread_inv_def join_poll_def split: option.splits)

theorem join_never_misses_return_witness:
  "\<exists>th. thread_run (Some (TaskWaker 2)) th \<and> th_pc th = Exited (Some (7 :: nat)) \<and> th_woken th = [TaskWaker 2] \<and>
     join_poll NoopWaker th = Ok (Ready (Some 7), th\<lparr>th_join := False\<rparr>)"
proof -
  let ?t1 = "thread_spawn\<lparr>th_state := Running (TaskWaker 2)\<rparr> :: nat thread"
  let ?t2 = "thread_return (Some 7) ?t1"
  let ?t3 = "thread_publish 7 ?t2"
  let ?t4 = "thread_wake True (TaskWaker 2) 7 ?t3"
  have "thread_run (Some (TaskWaker 2)) ?t1"
    by (rule thread_run.step [OF thread_run.start thread_step.pending]) (simp add: join_poll_pending thread_spawn_def)
  then have "thread_run (Some (TaskWaker 2)) ?t2"
    by (rule thread_run.step [OF _ thread_step.return]) (simp add: thread_spawn_def)
  then have "thread_run (Some (TaskWaker 2)) ?t3"
    by (rule thread_run.step [OF _ thread_step.publish]) (simp add: thread_return_def)
  then have r: "thread_run (Some (TaskWaker 2)) ?t4"
    by (rule thread_run.step [OF _ thread_step.wake]) (simp add: thread_return_def thread_publish_def)
  have e: "th_pc ?t4 = Exited (Some 7)" "th_join ?t4"
    by (simp_all add: thread_wake_def thread_publish_def thread_return_def thread_spawn_def)
  from join_never_misses_return [OF r e(1)] r e show ?thesis by (intro exI [of _ ?t4]) simp
qed

text \<open>Any number of further steps.\<close>

inductive thread_steps :: "waker option \<Rightarrow> 'v thread \<Rightarrow> waker option \<Rightarrow> 'v thread \<Rightarrow> bool" where
  none: "thread_steps p th p th"
| more: "thread_steps p th p1 th1 \<Longrightarrow> thread_step p1 th1 p2 th2 \<Longrightarrow> thread_steps p th p2 th2"

lemma panicked_step:
  assumes "thread_step p th p' th'" and "th_pc th = Exited None" and "th_state th = Running wk" and "th_woken th = []"
  shows "th_pc th' = Exited None \<and> (\<exists>wk'. th_state th' = Running wk') \<and> th_woken th' = []"
  using assms by cases (auto simp: join_poll_pending join_poll_ready)

lemma panicked_steps:
  assumes "thread_steps p th p' th'" and "th_pc th = Exited None" and "th_state th = Running wk" and "th_woken th = []"
  shows "th_pc th' = Exited None \<and> (\<exists>wk'. th_state th' = Running wk') \<and> th_woken th' = []"
  using assms
proof (induction rule: thread_steps.induct)
  case (more p th p1 th1 p2 th2)
  then obtain w where "th_pc th1 = Exited None" "th_state th1 = Running w" "th_woken th1 = []" by blast
  with more.hyps(2) show ?case by (rule panicked_step)
qed blast

text \<open>
  C40: a thread whose function panics never completes: its state stays \<open>Running\<close>, so
  every later poll is pending and no waker is woken, whatever steps follow.
\<close>

theorem panicked_thread_never_completes:
  assumes "thread_run p th" and "th_pc th = InFunction" and "thread_steps p (thread_return None th) p' th'"
  shows "join_poll wk th' = Ok (Pending, th'\<lparr>th_state := Running wk\<rparr>) \<and> th_woken th' = []"
proof -
  have "thread_inv p th" by (rule thread_run_inv [OF assms(1)])
  with assms(2) obtain w where "th_state th = Running w" "th_woken th = []" by (auto simp: thread_inv_def)
  with panicked_steps [OF assms(3), of w] show ?thesis
    by (auto simp: thread_return_def join_poll_def)
qed

theorem panicked_thread_never_completes_witness:
  "join_poll NoopWaker (thread_return None (thread_spawn :: nat thread)) =
     Ok (Pending, (thread_return None thread_spawn)\<lparr>th_state := Running NoopWaker\<rparr>)"
  using panicked_thread_never_completes [OF thread_run.start _ thread_steps.none, of NoopWaker, where 'a = nat]
  by (simp add: thread_spawn_def)

text \<open>
  A join future that has returned must not be polled again: the handle was taken, and
  the second poll panics.
\<close>

theorem join_result_taken_once:
  assumes "join_poll wk th = Ok (Ready r, th')"
  shows "join_poll wk' th' = Fault (Panic ExpectNone) \<and> is_finished th' = Fault (Panic ExpectNone) \<and>
    is_finished th = Ok True"
  using assms unfolding join_poll_ready by (auto simp: join_poll_def is_finished_def)

theorem join_result_taken_once_witness:
  "let th = thread_wake True NoopWaker (7 :: nat) (thread_publish 7 (thread_return (Some 7) thread_spawn))
   in join_poll NoopWaker th = Ok (Ready (Some 7), th\<lparr>th_join := False\<rparr>) \<and>
      join_poll NoopWaker (th\<lparr>th_join := False\<rparr>) = Fault (Panic ExpectNone)"
proof -
  let ?th = "thread_wake True NoopWaker (7 :: nat) (thread_publish 7 (thread_return (Some 7) thread_spawn))"
  have p: "join_poll NoopWaker ?th = Ok (Ready (Some 7), ?th\<lparr>th_join := False\<rparr>)"
    by (simp add: join_poll_ready thread_wake_def thread_publish_def thread_return_def thread_spawn_def)
  from join_result_taken_once [OF p, of NoopWaker] p show ?thesis by (simp add: Let_def)
qed

end
