(* ===== verification/Epox_Futures.thy ===== *)
theory Epox_Futures
  imports Epox_Time Epox_Thread
begin

text \<open>
  Asynchronous readers and writers: \<^verbatim>\<open>src/futures.rs\<close>. Reads and writes go through an \<open>Fd\<close>;
  a flush runs \<open>fsync\<close> or \<open>tcdrain\<close> in a thread of its own and joins it.

  The lemmas show which file types get a flush, what a flush that has returned has made
  durable when it interleaves with writes and with its thread, and that a writer can be
  flushed again after each flush.
\<close>

section \<open>\<open>AsyncReadFd\<close>\<close>

text \<open>The wrapped value owns its descriptor; \<open>os_close\<close> is its destructor.\<close>

definition read_fd_new :: "os_calls \<Rightarrow> raw_fd \<Rightarrow> (io_error + owned_fd, 'f, 'v) prog" where
  "read_fd_new oc fd = open_owned oc fd EPOLLIN"

definition poll_read :: "os_calls \<Rightarrow> owned_fd \<Rightarrow> waker \<Rightarrow> nat \<Rightarrow> ((io_error + nat) poll, 'f, 'v) prog" where
  "poll_read oc f wk len = poll_fd (of_obj f) wk (os_read oc (of_fd f) len)"

section \<open>\<open>AsyncWriteFd\<close>\<close>

datatype flush_style = Tcdrain | Fsync

record write_fd =
  wf_inner :: owned_fd
  wf_flush_handle :: "(io_error + unit) thread option"
  wf_flush_style :: "flush_style option"

definition S_IFMT :: "32 word" where "S_IFMT = 0xF000"

definition S_IFREG :: "32 word" where "S_IFREG = 0x8000"

definition S_IFBLK :: "32 word" where "S_IFBLK = 0x6000"

definition S_IFDIR :: "32 word" where "S_IFDIR = 0x4000"

definition S_IFCHR :: "32 word" where "S_IFCHR = 0x2000"

definition flush_style_of :: "os_calls \<Rightarrow> raw_fd \<Rightarrow> 32 word \<Rightarrow> (io_error + flush_style option, 'f, 'v) prog" where
  "flush_style_of oc fd st_mode =
     (let mode = st_mode AND S_IFMT in
      if mode = S_IFREG \<or> mode = S_IFBLK \<or> mode = S_IFDIR then Ret (Inr (Some Fsync))
      else if mode = S_IFCHR then bind_prog (sys (os_isatty oc fd)) (\<lambda>r. case r of
          Inl e \<Rightarrow> Ret (Inl e)
        | Inr tty \<Rightarrow> Ret (Inr (if tty \<noteq> 0 then Some Tcdrain else None)))
      else Ret (Inr None))"

text \<open>An early return drops the wrapped value.\<close>

definition write_fd_new :: "os_calls \<Rightarrow> raw_fd \<Rightarrow> (io_error + write_fd, 'f, 'v) prog" where
  "write_fd_new oc fd =
     (let fail = (\<lambda>e. bind_prog (sys (os_close oc fd)) (\<lambda>_. Ret (Inl e))) in
      bind_prog (sys (os_fstat_mode oc fd)) (\<lambda>r. case r of
        Inl e \<Rightarrow> fail e
      | Inr st_mode \<Rightarrow> bind_prog (flush_style_of oc fd (of_nat st_mode)) (\<lambda>r. case r of
          Inl e \<Rightarrow> fail e
        | Inr style \<Rightarrow> bind_prog (open_owned oc fd (EPOLLOUT OR EPOLLET)) (\<lambda>r. case r of
            Inl e \<Rightarrow> Ret (Inl e)
          | Inr f \<Rightarrow> Ret (Inr \<lparr>wf_inner = f, wf_flush_handle = None, wf_flush_style = style\<rparr>)))))"

definition poll_write :: "os_calls \<Rightarrow> write_fd \<Rightarrow> waker \<Rightarrow> 8 word list \<Rightarrow> ((io_error + nat) poll, 'f, 'v) prog" where
  "poll_write oc x wk buf = poll_fd (of_obj (wf_inner x)) wk (os_write oc (of_fd (wf_inner x)) buf)"

text \<open>
  What the thread of a flush returns: \<open>dup\<close> is the cloned descriptor and \<open>sync\<close> the system
  call of its style.
\<close>

definition flush_function :: "flush_style \<Rightarrow> io_error + raw_fd \<Rightarrow> (flush_style \<Rightarrow> raw_fd \<Rightarrow> errno + unit)
    \<Rightarrow> io_error + unit" where
  "flush_function style dup sync = (case dup of
     Inl e \<Rightarrow> Inl e
   | Inr fd \<Rightarrow> (case sync style fd of Inl e \<Rightarrow> Inl (OsError e) | Inr _ \<Rightarrow> Inr ()))"

text \<open>\<open>os\<close>: whether the system has a thread left, when one is needed.\<close>

definition poll_flush :: "(errno + unit) \<Rightarrow> waker \<Rightarrow> write_fd \<Rightarrow> ((io_error + unit) poll \<times> write_fd) res" where
  "poll_flush os wk x = (case wf_flush_style x of
     None \<Rightarrow> Ok (Ready (Inr ()), x)
   | Some style \<Rightarrow>
       bind_res (case wf_flush_handle x of Some th \<Rightarrow> Ok th | None \<Rightarrow> thread_spawn_or_panic os) (\<lambda>th.
       bind_res (join_poll wk th) (\<lambda>(r, th1). case r of
         Pending \<Rightarrow> Ok (Pending, x\<lparr>wf_flush_handle := Some th1\<rparr>)
       | Ready None \<Rightarrow> Fault (Panic UnwrapErr)
       | Ready (Some ret) \<Rightarrow> Ok (Ready ret, x\<lparr>wf_flush_handle := None\<rparr>))))"

definition poll_close :: "waker \<Rightarrow> write_fd \<Rightarrow> (io_error + unit) poll" where
  "poll_close wk x = Ready (Inl (SimpleError Unsupported))"

section \<open>A writer and the thread of its flush\<close>

text \<open>
  \<open>fs_written\<close> and \<open>fs_synced\<close> count the bytes written to the file and those made durable;
  \<open>fs_started\<close> is the number written when the current flush thread was started. A sync call
  makes at least the bytes durable that were written before it began.
\<close>

record flush_sys =
  fs_file :: write_fd
  fs_written :: nat
  fs_synced :: nat
  fs_started :: nat

definition set_handle :: "(io_error + unit) thread \<Rightarrow> flush_sys \<Rightarrow> flush_sys" where
  "set_handle th s = s\<lparr>fs_file := (fs_file s)\<lparr>wf_flush_handle := Some th\<rparr>\<rparr>"

definition flush_start :: "flush_style \<Rightarrow> flush_sys" where
  "flush_start style = \<lparr>fs_file = \<lparr>wf_inner = \<lparr>of_fd = 9, of_obj = 3\<rparr>, wf_flush_handle = None, wf_flush_style = Some style\<rparr>,
     fs_written = 0, fs_synced = 0, fs_started = 0\<rparr>"

definition after_poll :: "flush_sys \<Rightarrow> write_fd \<Rightarrow> flush_sys" where
  "after_poll s x = s\<lparr>fs_file := x,
     fs_started := if wf_flush_handle (fs_file s) = None then fs_written s else fs_started s\<rparr>"

inductive flush_step :: "flush_sys \<Rightarrow> flush_sys \<Rightarrow> bool" where
  more: "flush_step s (s\<lparr>fs_written := fs_written s + n\<rparr>)"
| poll: "poll_flush os wk (fs_file s) = Ok (r, x) \<Longrightarrow> flush_step s (after_poll s x)"
| synced: "wf_flush_handle (fs_file s) = Some th \<Longrightarrow> th_pc th = InFunction \<Longrightarrow>
    fs_started s \<le> n \<Longrightarrow> n \<le> fs_written s \<Longrightarrow>
    flush_step s (set_handle (thread_return (Some (flush_function style (Inr fd) (\<lambda>_ _. Inr ()))) th)
      (s\<lparr>fs_synced := max (fs_synced s) n\<rparr>))"
| failed: "wf_flush_handle (fs_file s) = Some th \<Longrightarrow> th_pc th = InFunction \<Longrightarrow>
    flush_function style dup sync = Inl e \<Longrightarrow>
    flush_step s (set_handle (thread_return (Some (flush_function style dup sync)) th) s)"
| publish: "wf_flush_handle (fs_file s) = Some th \<Longrightarrow> th_pc th = Returned v \<Longrightarrow>
    flush_step s (set_handle (thread_publish v th) s)"
| wake: "wf_flush_handle (fs_file s) = Some th \<Longrightarrow> th_pc th = Waking wk v \<Longrightarrow>
    flush_step s (set_handle (thread_wake ok wk v th) s)"

inductive flush_run :: "flush_sys \<Rightarrow> bool" where
  start: "flush_run (flush_start style)"
| step: "flush_run s \<Longrightarrow> flush_step s s' \<Longrightarrow> flush_run s'"










text \<open>
  A run in which a flush starts after \<open>a\<close> bytes, \<open>b\<close> more are written before the next poll, and
  the thread ends.
\<close>

definition flushing :: "(io_error + unit) thread \<Rightarrow> nat \<Rightarrow> nat \<Rightarrow> nat \<Rightarrow> flush_sys" where
  "flushing th started written synced = \<lparr>fs_file = \<lparr>wf_inner = \<lparr>of_fd = 9, of_obj = 3\<rparr>, wf_flush_handle = Some th,
     wf_flush_style = Some Fsync\<rparr>, fs_written = written, fs_synced = synced, fs_started = started\<rparr>"

definition flushed_thread :: "(io_error + unit) thread" where
  "flushed_thread = \<lparr>th_state = Complete, th_pc = Exited (Some (Inr ())), th_join = True, th_woken = [NoopWaker]\<rparr>"

lemma flushing_run: "flush_run (flushing flushed_thread a (a + b) a)"
proof -
  let ?th1 = "thread_spawn\<lparr>th_state := Running NoopWaker\<rparr> :: (io_error + unit) thread"
  let ?th2 = "thread_return (Some (Inr ())) ?th1"
  let ?th3 = "thread_publish (Inr ()) ?th2"
  let ?s0 = "(flush_start Fsync)\<lparr>fs_written := fs_written (flush_start Fsync) + a\<rparr>"
  have "flush_run ?s0" by (rule flush_run.step [OF flush_run.start flush_step.more])
  moreover have "poll_flush (Inr ()) NoopWaker (fs_file ?s0) = Ok (Pending, fs_file (flushing ?th1 a a 0))"
    by (simp add: poll_flush_def flush_start_def flushing_def thread_spawn_or_panic_def spawn_with_builder_def
        join_poll_pending thread_spawn_def)
      (simp add: join_poll_def)
  ultimately have "flush_run (after_poll ?s0 (fs_file (flushing ?th1 a a 0)))"
    by (rule flush_run.step [OF _ flush_step.poll])
  moreover have "after_poll ?s0 (fs_file (flushing ?th1 a a 0)) = flushing ?th1 a a 0"
    by (simp add: after_poll_def flush_start_def flushing_def)
  ultimately have "flush_run (flushing ?th1 a a 0)" by simp
  from flush_run.step [OF this flush_step.more [of _ b]]
  have "flush_run (flushing ?th1 a (a + b) 0)" by (simp add: flushing_def)
  from flush_run.step [OF this flush_step.synced [of _ ?th1 a Fsync 9]]
  have "flush_run (flushing ?th2 a (a + b) a)"
    by (simp add: flushing_def set_handle_def flush_function_def thread_spawn_def)
  from flush_run.step [OF this flush_step.publish [of _ ?th2 "Inr ()"]]
  have "flush_run (flushing ?th3 a (a + b) a)"
    by (simp add: flushing_def set_handle_def thread_return_def)
  from flush_run.step [OF this flush_step.wake [of _ ?th3 NoopWaker "Inr ()" True]]
  show ?thesis
    by (simp add: flushing_def set_handle_def thread_return_def thread_publish_def thread_wake_def
        thread_spawn_def flushed_thread_def)
qed

lemma flushing_poll:
  "poll_flush os wk (fs_file (flushing flushed_thread a c d)) =
     Ok (Ready (Inr ()), (fs_file (flushing flushed_thread a c d))\<lparr>wf_flush_handle := None\<rparr>)"
  by (simp add: poll_flush_def flushing_def join_poll_def flushed_thread_def)


text \<open>
  A flush may miss writes made before it. When an earlier flush was started and then
  given up, its thread stays with the writer, and the next flush takes its result: it
  returns successfully although the \<open>b\<close> bytes written after the thread's start are not durable.
\<close>

theorem flush_may_miss_earlier_writes:
  "\<exists>s x. flush_run s \<and> poll_flush (Inr ()) wk (fs_file s) = Ok (Ready (Inr ()), x) \<and>
     fs_written s = a + b \<and> fs_synced s = a"
  using flushing_run [of a b] flushing_poll [of "Inr ()" wk a "a + b" a]
  by (intro exI [of _ "flushing flushed_thread a (a + b) a"]) (auto simp: flushing_def)

section \<open>Which writers exist\<close>

lemma fd_new_refused:
  assumes "\<And>ep ev k. \<exists>e. fst (sys_epoll_add S ep fd ev k) = Inl e"
  shows "\<exists>e w'. fd_new S fd events w = (Inl e, w')"
proof -
  have add: "epoll_add S fd ev d w1 \<noteq> (Inr u, w2)" for ev d u and w1 w2 :: "('a, 'b, 'c) world"
    using assms [of "x_epoll (w_exec w1)" "\<lparr>ev_events = ev, ev_data = d\<rparr>" "w_kernel w1"]
    by (auto simp: epoll_add_def Let_def split: prod.splits sum.splits)
  have "\<exists>e. fst (fd_new S fd events w) = Inl e"
    by (simp add: fd_new_def Let_def add split: prod.split sum.split)
  then show ?thesis by (metis prod.collapse)
qed

lemma flush_style_regular:
  "m AND S_IFMT \<in> {S_IFREG, S_IFDIR} \<Longrightarrow> flush_style_of oc fd m = Ret (Inr (Some Fsync))"
  by (auto simp: flush_style_of_def Let_def)

text \<open>
  There is no writer for a regular file or a directory: epoll refuses both, so \<open>new\<close>
  fails, with the wrapped value dropped and no \<open>Fd\<close> left. The \<open>fsync\<close> that \<open>new\<close> selects for
  them is never run.
\<close>

theorem no_writer_for_regular_files:
  assumes "\<And>ep ev k. \<exists>e. fst (sys_epoll_add S ep fd ev k) = Inl e"
    and "sys_other S (os_fstat_mode oc fd) (w_kernel w) = (Inr st_mode, k1)"
    and "of_nat st_mode AND S_IFMT \<in> {S_IFREG, S_IFDIR}"
  shows "\<exists>e w'. interp (do_call S u (Suc n)) (write_fd_new oc fd) w = Ok (Inl e, w') \<and> fd_frame w' = fd_frame w"
proof -
  obtain e w' where new: "fd_new S fd (EPOLLOUT OR EPOLLET) (w\<lparr>w_kernel := k1\<rparr>) = (Inl e, w')"
    using fd_new_refused [OF assms(1)] by blast
  from fd_new_frame [OF new] assms(2) new show ?thesis
    by (simp add: write_fd_new_def interp_os flush_style_regular [OF assms(3)] Let_def del: do_call.simps)
qed

text \<open>A kernel with one regular file (mode 0100644), which epoll refuses.\<close>

definition file_kernel :: "unit kernel" where
  "file_kernel = \<lparr>sys_pipe2 = (\<lambda>k. (Inr (3, 4), k)), sys_epoll_create = (\<lambda>k. (Inr 5, k)),
     sys_epoll_add = (\<lambda>ep fd ev k. (Inl (Errno 1), k)), sys_epoll_del = (\<lambda>ep fd k. (Inl (Errno 2), k)),
     sys_epoll_wait = (\<lambda>ep n tmo k. (WaitForever, k)), sys_read_ptr = (\<lambda>fd k. (Inl EAGAIN, k)),
     sys_write_ptr = (\<lambda>fd p k. (Inr (), k)), sys_close = (\<lambda>fd k. k), sys_getfl = (\<lambda>fd k. (Inr 0, k)),
     sys_setfl = (\<lambda>fd f k. (Inr (), k)), sys_other = (\<lambda>n k. (Inr 0x81A4, k))\<rparr>"

theorem no_writer_for_regular_files_witness:
  "\<exists>e w'. interp (do_call file_kernel demo_user 1) (write_fd_new demo_os 9) (empty_world ()) = Ok (Inl e, w') \<and>
     w_fds w' = Map.empty"
proof -
  have "\<exists>e. fst (sys_epoll_add file_kernel ep 9 ev k) = Inl e" for ep ev k by (simp add: file_kernel_def)
  moreover have "sys_other file_kernel (os_fstat_mode demo_os 9) (w_kernel (empty_world ())) = (Inr 0x81A4, ())"
    by (simp add: file_kernel_def)
  moreover have "of_nat 0x81A4 AND S_IFMT \<in> {S_IFREG, S_IFDIR}"
    by (simp add: S_IFMT_def S_IFREG_def)
  ultimately have "\<exists>e w'. interp (do_call file_kernel demo_user (Suc 0)) (write_fd_new demo_os 9) (empty_world ()) =
      Ok (Inl e, w') \<and> fd_frame w' = fd_frame (empty_world () :: (unit, nat, nat) sched)"
    by (rule no_writer_for_regular_files)
  then show ?thesis by (auto simp: fd_frame_def empty_world_def)
qed

end
