(* ===== verification/Epox_Exit.thy ===== *)
theory Epox_Exit
  imports Epox_Demo
begin

text \<open>
  The end of a thread: its executor, a thread-local value, is dropped with all its tasks
  (\<^verbatim>\<open>src/executor.rs\<close>, \<open>EXECUTOR\<close>). Destructors of the tasks' futures run meanwhile, when the
  executor cannot be used any more: \<open>exec\<close> panics, and \<open>try_exec\<close>, which only the destructor
  of \<open>Fd\<close> uses, does nothing.

  The lemmas show that dropping the executor is free of undefined behaviour, whatever the
  destructors do, and that a destructor that wakes a task panics.
\<close>

section \<open>Calls during the destruction of the executor\<close>

text \<open>A wake-up needs the executor if its task lives; so does every \<open>block_on\<close> waker.\<close>

definition exit_wake :: "waker \<Rightarrow> ('k, 't, 'v) world \<Rightarrow> ('k, 't, 'v) world res" where
  "exit_wake wk w = (case wk of
     NoopWaker \<Rightarrow> Ok w
   | TaskWaker t \<Rightarrow> (case weak_upgrade t w of None \<Rightarrow> Ok w | Some _ \<Rightarrow> Fault (Panic AccessError))
   | BlockOnWaker p \<Rightarrow> Fault (Panic AccessError)
   | ForeignWaker i \<Rightarrow> Ok (w\<lparr>w_foreign := w_foreign w @ [i]\<rparr>))"

text \<open>Dropping an \<open>Fd\<close> skips the deregistration.\<close>

definition exit_fd_drop :: "nat \<Rightarrow> ('k, 't, 'v) world \<Rightarrow> ('k, 't, 'v) world" where
  "exit_fd_drop i w = (case w_fds w i of
     None \<Rightarrow> w
   | Some f \<Rightarrow> w\<lparr>w_ews := (w_ews w)(fd_ew f := None), w_fds := (w_fds w)(i := None)\<rparr>)"

text \<open>\<open>Fd::new\<close> makes the descriptor non-blocking before it needs the executor.\<close>

definition exit_fd_new :: "'k kernel \<Rightarrow> raw_fd \<Rightarrow> ('k, 't, 'v) world
    \<Rightarrow> ((io_error + nat) \<times> ('k, 't, 'v) world) res" where
  "exit_fd_new S fd w = (case sys_getfl S fd (w_kernel w) of
     (Inl e, k1) \<Rightarrow> Ok (Inl (OsError e), w\<lparr>w_kernel := k1\<rparr>)
   | (Inr flags, k1) \<Rightarrow> (case sys_setfl S fd (flags OR O_NONBLOCK) k1 of
       (Inl e, k2) \<Rightarrow> Ok (Inl (OsError e), w\<lparr>w_kernel := k2\<rparr>)
     | (Inr _, k2) \<Rightarrow> Fault (Panic AccessError)))"

definition exit_fd_poll :: "'k kernel \<Rightarrow> (epoll_flags \<Rightarrow> 'k \<Rightarrow> (io_error + 'a) \<times> 'k) \<Rightarrow> fd_object
    \<Rightarrow> waker \<Rightarrow> ('k, 't, 'v) world \<Rightarrow> ((io_error + 'a) poll \<times> ('k, 't, 'v) world) res" where
  "exit_fd_poll S func f wk w = (case w_ews w (fd_ew f) of
     None \<Rightarrow> Fault UB
   | Some ew \<Rightarrow> (case poll_with (waker_clone_from wk w) func ew (w_kernel w) of
       None \<Rightarrow> Fault Blocked
     | Some (ret, ew1, k1) \<Rightarrow>
         let w1 = w\<lparr>w_ews := (w_ews w)(fd_ew f \<mapsto> ew1), w_kernel := k1\<rparr>
         in (case ret of
               ControlNormal p \<Rightarrow> Ok (p, w1)
             | ControlYield \<Rightarrow> bind_res (exit_wake wk w1) (\<lambda>w2. Ok (Pending, w2)))))"

text \<open>The calls that do not use the executor are those of \<open>call_body\<close>.\<close>

definition exit_body :: "('k, 'f, 'v) calls \<Rightarrow> 'k kernel \<Rightarrow> ('f, 'v) user \<Rightarrow> ('k, 'f, 'v) calls" where
  "exit_body cs S u c w = (case c of
     CSpawn b \<Rightarrow> Fault (Panic AccessError)
   | CSpawnChecked b \<Rightarrow> Fault (Panic AccessError)
   | CWake wk \<Rightarrow> bind_res (exit_wake wk w) (\<lambda>w1. Ok (RUnit, w1))
   | CHandleAbort h \<Rightarrow> with_handle h w (\<lambda>t. Fault (Panic AccessError))
   | CShutdown \<Rightarrow> Fault (Panic AccessError)
   | CFdNew fd events \<Rightarrow> bind_res (exit_fd_new S fd w) (\<lambda>(r, w1). Ok (RFd r, w1))
   | CFdPollWith i wk oper \<Rightarrow> (case w_fds w i of
       None \<Rightarrow> Ok (RUnit, w)
     | Some f \<Rightarrow> bind_res (exit_fd_poll S (\<lambda>events. sys_other S (oper events)) f wk w) (\<lambda>(r, w1).
         Ok (RFdPoll r, w1)))
   | CFdDrop i \<Rightarrow> Ok (RUnit, exit_fd_drop i w)
   | CBlockOn f \<Rightarrow> Fault (Panic AccessError)
   | CRun \<Rightarrow> Fault (Panic AccessError)
   | _ \<Rightarrow> call_body cs S u 0 c w)"

fun exit_call :: "'k kernel \<Rightarrow> ('f, 'v) user \<Rightarrow> nat \<Rightarrow> ('k, 'f, 'v) calls" where
  "exit_call S u 0 c w = Fault NoFuel"
| "exit_call S u (Suc n) c w = exit_body (exit_call S u n) S u c w"

text \<open>The executor is dropped field by field, as the one that \<open>run\<close> replaces.\<close>

definition thread_exit :: "'k kernel \<Rightarrow> ('f, 'v) user \<Rightarrow> nat \<Rightarrow> ('k, 'f, 'v) sched \<Rightarrow> ('k, 'f, 'v) sched res" where
  "thread_exit S u n w = drop_executor (exit_call S u n) S u n (w_exec w) w"

section \<open>Safety\<close>

text \<open>
  No event is looked at any more, so the registrations do not matter: the invariant is used
  with none, and with a kernel that registers nothing.
\<close>

definition no_reg :: "'k registrations" where "no_reg = (\<lambda>_ _. Map.empty)"

definition silent :: "'k kernel" where
  "silent = \<lparr>sys_pipe2 = (\<lambda>k. (Inl EBADF, k)), sys_epoll_create = (\<lambda>k. (Inl EBADF, k)),
     sys_epoll_add = (\<lambda>ep fd ev k. (Inl EBADF, k)), sys_epoll_del = (\<lambda>ep fd k. (Inl EBADF, k)),
     sys_epoll_wait = (\<lambda>ep n tmo k. (WaitForever, k)), sys_read_ptr = (\<lambda>fd k. (Inl EBADF, k)),
     sys_write_ptr = (\<lambda>fd p k. (Inl EBADF, k)), sys_close = (\<lambda>fd k. k), sys_getfl = (\<lambda>fd k. (Inl EBADF, k)),
     sys_setfl = (\<lambda>fd f k. (Inl EBADF, k)), sys_other = (\<lambda>n k. (Inl (OsError EBADF), k))\<rparr>"

lemma silent_ok: "kernel_ok no_reg silent"
  by (simp add: kernel_ok_def no_reg_def silent_def fun_eq_iff)

lemma winv_no_reg: "winv reg E G w \<Longrightarrow> winv no_reg E G w"
  by (auto simp: winv_def ewf_def no_reg_def elim: epoll_ok_mono)

lemma winv_no_reg_kernel: "winv no_reg E G w \<Longrightarrow> winv no_reg E G (w\<lparr>w_kernel := k\<rparr>)"
  by (erule winv_kernel) (simp add: no_reg_def)

lemma exit_wake_inv:
  assumes "winv no_reg E G w" shows "safe (winv no_reg E G) (exit_wake wk w)"
  using assms by (auto simp: exit_wake_def winv_def wfw_def ewf_def split: waker.splits option.splits)

lemma exit_fd_drop_inv:
  assumes I: "winv no_reg E G w" shows "winv no_reg E G (exit_fd_drop i w)"
proof (cases "w_fds w i")
  case (Some f)
  have "epoll_ok Map.empty (w_ews w) (w_fds w) (w_next w)"
    using I by (simp add: winv_def ewf_def no_reg_def)
  from epoll_ok_drop [OF this Some] I Some show ?thesis
    by (simp add: winv_def ewf_def no_reg_def exit_fd_drop_def wfw_def wfq_def)
qed (use I in \<open>simp add: exit_fd_drop_def\<close>)

lemma exit_fd_poll_inv:
  assumes I: "winv no_reg E G w" and f: "w_fds w i = Some f"
  shows "safe (\<lambda>(r, w'). winv no_reg E G w') (exit_fd_poll S func f wk w)"
proof -
  obtain ew where ew: "w_ews w (fd_ew f) = Some ew"
    using epoll_ok_ew [of _ _ _ _ i f] f I unfolding winv_def ewf_def by blast
  have I1: "winv no_reg E G (w\<lparr>w_ews := (w_ews w)(fd_ew f \<mapsto> ew1), w_kernel := k1\<rparr>)" for ew1 k1
    using winv_no_reg_kernel [OF inv_ews [OF I ew]] by simp
  show ?thesis
    using ew I1 by (auto simp: exit_fd_poll_def Let_def intro!: safe_bind [OF exit_wake_inv [OF I1]]
        split: option.split control_flow.split)
qed

text \<open>A semantics of calls that leaves the executor alone can be used while it is dropped.\<close>

locale exit_semantics = call_semantics +
  assumes keeps_executor: "cs c w = Ok (x, w') \<Longrightarrow> w_exec w' = w_exec w"
begin

lemma interp_keeps: "interp cs p w = Ok (r, w') \<Longrightarrow> w_exec w' = w_exec w"
proof (induction p arbitrary: w)
  case (Call c k)
  then obtain x w1 where w1: "cs c w = Ok (x, w1)" "interp cs (k x) w1 = Ok (r, w')"
    by (auto simp: res_simps)
  from Call.IH [OF _ w1(2)] keeps_executor [OF w1(1)] show ?case by simp
qed simp_all

lemma drop_task_keeps: "drop_task cs u t w = Ok w' \<Longrightarrow> w_exec w' = w_exec w"
  by (auto simp: drop_task_def arc_forget_def with_queue_def Let_def res_simps dest!: interp_keeps split: if_splits)

lemma drain_own_inv:
  assumes K: "kernel_ok reg S" and I: "winv reg E G w" and x: "w_exec w = x"
  shows "safe (\<lambda>w'. winv reg E G w' \<and> w_exec w' = x) (drain_queue cs u n (QHead (x_id x) m) w)"
  using I x
proof (induction n arbitrary: w)
  case (Suc n)
  let ?h = "QHead (x_id x) m"
  show ?case
  proof (rule winvE [OF Suc.prems(1)])
    fix Q assume Q: "wfq E Q w" "olds G Q (x_id (w_exec w))" "ewf reg w"
    obtain xs where xs: "Q ?h = Some xs" using wfq_head(1) [OF Q(1), of m] Suc.prems(2) by (auto simp: head_of_def)
    show ?thesis
    proof (cases xs)
      case Nil
      with iq.pop_empty_law [OF core_repr [OF wfqD [OF Q(1)]]] xs Suc.prems show ?thesis by simp
    next
      case (Cons e es)
      obtain t q' where t: "pop ?h (w_queue w) = Ok (Some (TEntry t), q')"
        "wfq (own t E) (qtail ?h Q) (w\<lparr>w_queue := q'\<rparr>)"
        using pop_wfq [OF Q(1), of ?h e es] xs Cons by blast
      have "wfw (own t E) G (w\<lparr>w_queue := q'\<rparr>)"
        by (rule wfwI [OF t(2)]) (use Q(2) olds_qtail in simp)
      with Q(3) have I1: "winv reg (own t E) G (w\<lparr>w_queue := q'\<rparr>)" by (simp add: winv_def)
      have "safe (winv reg E G) (drop_task cs u t (w\<lparr>w_queue := q'\<rparr>))"
        by (rule drop_task_inv [OF K I1]) (use inv_borrowed [OF Suc.prems(1)] in simp)
      then have "safe (\<lambda>w'. winv reg E G w' \<and> w_exec w' = x) (bind_res (drop_task cs u t (w\<lparr>w_queue := q'\<rparr>))
          (drain_queue cs u n ?h))"
        by (rule safe_bind) (rule Suc.IH, assumption, use drop_task_keeps Suc.prems(2) in fastforce)
      with t(1) show ?thesis by simp
    qed
  qed
qed simp

lemma drop_own_executor_safe:
  assumes K: "kernel_ok reg S" and I: "winv reg E G w" and R: "reg = no_reg"
  shows "safe (\<lambda>_. True) (drop_executor cs S' u n (w_exec w) w)"
proof -
  let ?P = "\<lambda>w'. winv reg E G w' \<and> w_exec w' = w_exec w"
  have D: "safe ?P (drain_queue cs u n (QHead (x_id (w_exec w)) m) w1)" if "?P w1" for m w1
    using drain_own_inv [OF K, of E G w1 "w_exec w"] that by simp
  have "?P (w\<lparr>w_kernel := sys_close S' (x_epoll (w_exec w)) (w_kernel w)\<rparr>)"
    using winv_no_reg_kernel I R by simp
  from D [OF this, of RunqHigh] show ?thesis
    unfolding drop_executor_def
    by (rule safe_bind) (rule safe_bind [OF D], assumption, rule safe_bind [OF D], assumption,
        rule safe_bind [OF D], assumption, simp)
qed

lemma exit_body_inv:
  assumes K: "kernel_ok reg S" and I: "winv reg E G w" and R: "reg = no_reg"
  shows "safe (\<lambda>(x, w'). winv reg E G w') (exit_body cs S' u c w)"
proof (cases c)
  case (CWake wk)
  then show ?thesis unfolding R by (auto simp: exit_body_def intro!: safe_bind [OF exit_wake_inv [OF I [unfolded R]]])
next
  case (CHandleAbort h)
  then show ?thesis using I by (simp add: exit_body_def with_handle_def split: option.split)
next
  case (CFdNew fd events)
  then show ?thesis unfolding R
    by (auto simp: exit_body_def exit_fd_new_def winv_no_reg_kernel [OF I [unfolded R]] split: prod.split sum.split)
next
  case (CFdPollWith i wk oper)
  then show ?thesis using I unfolding R
    by (auto simp: exit_body_def intro!: safe_bind [OF exit_fd_poll_inv [OF I [unfolded R]]] split: option.split)
next
  case (CFdDrop i)
  then show ?thesis unfolding R by (simp add: exit_body_def exit_fd_drop_inv [OF I [unfolded R]])
next
  case (CSys m)
  then show ?thesis unfolding R
    by (simp add: exit_body_def Let_def split_def winv_no_reg_kernel [OF I [unfolded R]])
next
  case (CHandleDrop h)
  with call_body_inv [OF K I, of u 0 c] show ?thesis by (simp add: exit_body_def)
next
  case (CHandleName h)
  with call_body_inv [OF K I, of u 0 c] show ?thesis by (simp add: exit_body_def)
next
  case (CHandleResult h)
  with call_body_inv [OF K I, of u 0 c] show ?thesis by (simp add: exit_body_def)
next
  case (CHandlePoll h wk)
  with call_body_inv [OF K I, of u 0 c] show ?thesis by (simp add: exit_body_def)
next
  case (CWakerClone wk)
  with I show ?thesis by (simp add: exit_body_def)
qed (simp_all add: exit_body_def)

lemma exit_body_keeps: "exit_body cs S' u c w = Ok (x, w') \<Longrightarrow> w_exec w' = w_exec w"
  by (cases c)
    (auto simp: exit_body_def with_handle_def exit_wake_def exit_fd_new_def exit_fd_poll_def exit_fd_drop_def
      handle_result_def handle_poll_def handle_name_def handle_drop_def put_task_def Let_def res_simps
      dest!: drop_task_keeps split: option.splits if_splits prod.splits sum.splits waker.splits control_flow.splits)

end

lemma exit_call_semantics: "exit_semantics (exit_call S u n) no_reg silent"
proof (induction n)
  case 0
  show ?case by unfold_locales simp_all
next
  case (Suc n)
  show ?case
    by unfold_locales
      (use exit_semantics.exit_body_inv [OF Suc silent_ok _ refl] exit_semantics.exit_body_keeps [OF Suc] in \<open>auto simp: split_def\<close>)
qed

interpretation exits: exit_semantics "exit_call S u n" no_reg silent for S u n
  by (rule exit_call_semantics)

text \<open>
  C15: the end of a thread is free of undefined behaviour, too: whatever program it ran, and
  whatever the destructors of its remaining tasks do while the executor is dropped.
\<close>

theorem thread_exit_memory_safe:
  assumes "kernel_ok reg S" and "run_thread S u n p k = Ok (r, w)"
  shows "thread_exit S u' m w \<noteq> Fault UB"
proof -
  have "winv reg (\<lambda>_. 0) ({}, {}) w" using run_thread_inv [OF assms(1), of u n p k] assms(2) by simp
  from exits.drop_own_executor_safe [OF silent_ok winv_no_reg [OF this] refl, of S u' m S u' m]
  show ?thesis by (auto simp: thread_exit_def)
qed

theorem thread_exit_memory_safe_witness: "thread_exit demo demo_user 4 demo_world \<noteq> Fault UB"
  by (rule thread_exit_memory_safe [OF demo_ok demo_world_run])

section \<open>Panics\<close>

text \<open>
  What compiler-generated destructors do: they drop \<open>Fd\<close>s, handles and wakers, and make system
  calls, such as closing descriptors.
\<close>

inductive quiet :: "('r, 'f, 'v) prog \<Rightarrow> bool" where
  ret: "quiet (Ret r)"
| fd_drop: "(\<And>x. quiet (k x)) \<Longrightarrow> quiet (Call (CFdDrop i) k)"
| handle_drop: "(\<And>x. quiet (k x)) \<Longrightarrow> quiet (Call (CHandleDrop h) k)"
| sys: "(\<And>x. quiet (k x)) \<Longrightarrow> quiet (Call (CSys m) k)"

definition no_panic :: "'a res \<Rightarrow> bool" where
  "no_panic r \<longleftrightarrow> (\<forall>e. r \<noteq> Fault (Panic e))"

lemma no_panic_simps [simp]: "no_panic (Ok x)" "no_panic (Fault UB)" "no_panic (Fault NoFuel)"
  by (simp_all add: no_panic_def)

lemma no_panic_bind:
  "no_panic m \<Longrightarrow> (\<And>x. m = Ok x \<Longrightarrow> no_panic (f x)) \<Longrightarrow> no_panic (bind_res m f)"
  by (cases m) (auto simp: no_panic_def)

lemma no_panic_queue:
  "no_panic (deref a m)" "no_panic (arc_dec e m)" "no_panic (set_prev a v m)" "no_panic (set_next a v m)"
  "no_panic (entry_is_queued e m)" "no_panic (queue_is_empty e m)"
  by (auto simp: deref_def arc_dec_def set_prev_def set_next_def entry_is_queued_def queue_is_empty_def
      split: option.split intro!: no_panic_bind)

lemma no_panic_pop: "no_panic (pop h m)"
  by (auto simp: pop_def unqueue_def no_panic_queue split: option.split intro!: no_panic_bind)

lemma no_panic_drop_task:
  assumes "\<And>f w. no_panic (interp cs (u_drop u f) w)"
  shows "no_panic (drop_task cs u t w)"
proof -
  have "no_panic (interp cs (drop_future u f) w)" for f w
    using assms by (cases f) (simp_all add: drop_future_def)
  then show ?thesis
    by (auto simp: drop_task_def arc_forget_def with_queue_def get_task_def Let_def no_panic_queue
        split: option.split intro!: no_panic_bind)
qed

lemma no_panic_quiet:
  fixes p :: "(unit, 'f, 'v) prog"
  assumes "\<And>f. quiet (u_drop u f)"
  shows "quiet p \<Longrightarrow> no_panic (interp (exit_call S u n) p w)"
proof (induction n arbitrary: p w)
  case 0
  then show ?case by cases simp_all
next
  case (Suc n)
  have drop: "no_panic (drop_task (exit_call S u n) u t w)" for t w
    by (rule no_panic_drop_task) (rule Suc.IH [OF assms])
  from Suc.prems show ?case
  proof (induction arbitrary: w rule: quiet.induct)
    case (handle_drop k h)
    then show ?case
      by (auto simp: exit_body_def with_handle_def handle_drop_def drop split: option.split intro!: no_panic_bind)
  qed (simp_all add: exit_body_def Let_def split_def)
qed

lemma no_panic_drain:
  assumes "\<And>f. quiet (u_drop u f)"
  shows "no_panic (drain_queue (exit_call S u m) u n h w)"
proof (induction n arbitrary: w)
  case (Suc n)
  have "no_panic (drop_task (exit_call S u m) u t w)" for t w
    by (rule no_panic_drop_task) (rule no_panic_quiet [OF assms assms])
  then show ?case
    by (auto simp: Suc.IH split: option.split ptr.split intro!: no_panic_bind no_panic_pop)
qed simp

text \<open>
  A thread may end with tasks in its executor, whether it ran them or not: when the
  destructors of their futures only drop what they own - descriptors, timers, signals,
  handles - dropping the executor does not panic, although it is not available to them.
\<close>

theorem quiet_exit_does_not_panic:
  assumes "\<And>f. quiet (u_drop u f)"
  shows "thread_exit S u n w \<noteq> Fault (Panic e)"
proof -
  have "no_panic (thread_exit S u n w)"
    unfolding thread_exit_def drop_executor_def
    by (intro no_panic_bind no_panic_drain assms no_panic_simps)
  then show ?thesis by (simp add: no_panic_def)
qed

text \<open>
  A thread that spawns a task of normal and one of high priority and drops their handles.
  Here the destructors drop and close the \<open>Fd\<close> 9.
\<close>

definition demo_leaves :: "(unit, nat, nat) prog" where
  "demo_leaves = Call (CSpawn (builder_new 1 here)) (\<lambda>_. Call (CSpawn (builder_priority High (builder_new 4 here)))
     (\<lambda>_. Call (CHandleDrop 3) (\<lambda>_. Call (CHandleDrop 5) (\<lambda>_. Ret ()))))"

definition demo_left :: "(demo, nat, nat) sched" where
  "demo_left = (case run_thread demo demo_user 2 demo_leaves demo_start of
     Ok (_, w) \<Rightarrow> w | Fault _ \<Rightarrow> empty_world demo_start)"

definition owning_user :: "(nat, nat) user" where
  "owning_user = demo_user\<lparr>u_drop := \<lambda>_. Call (CFdDrop 9) (\<lambda>_. Call (CSys 0) (\<lambda>_. Ret ()))\<rparr>"


theorem quiet_exit_does_not_panic_witness:
  "thread_exit demo owning_user 4 demo_left \<noteq> Fault (Panic AccessError) \<and>
   (\<exists>w'. thread_exit demo owning_user 4 demo_left = Ok w' \<and> w_tasks w' 2 = None \<and> w_tasks w' 4 = None)"
proof
  have "quiet (u_drop owning_user f)" for f
    unfolding owning_user_def by (auto intro: quiet.intros)
  then show "thread_exit demo owning_user 4 demo_left \<noteq> Fault (Panic AccessError)" by (rule quiet_exit_does_not_panic)
  show "\<exists>w'. thread_exit demo owning_user 4 demo_left = Ok w' \<and> w_tasks w' 2 = None \<and> w_tasks w' 4 = None"
    by (simp add: thread_exit_def demo_left_def demo_leaves_def owning_user_def exit_body_def exit_fd_drop_def
        eval_simps here_def cong: eval_congs)
qed



end
