(* ===== verification/Epox_Remote.thy ===== *)
theory Epox_Remote
  imports Epox_Loop_Theorems
begin

text \<open>
  Wake-ups between threads. A waker may be woken on any thread; on another one than that of
  its executor it writes the address of its task to the pipe of that executor, whose next
  \<open>epoll_wait\<close> reads it. The lemmas put the two ends together: from the wakes, on any threads
  and in any order, to the run queues.

  \<open>remote_wake\<close> is \<open>task_waker::wake\<close> on a thread with the executor \<open>x\<close>; tasks are shared memory,
  so it works on the tasks of the thread \<open>w\<close> that it wakes. \<open>pipe_ok\<close> states what pipe(7) and
  epoll(7) promise about the pipe.
\<close>

section \<open>Tasks that are ready to run\<close>

definition ready :: "(nat \<Rightarrow> nat) \<Rightarrow> ('k, 't, 'v) world \<Rightarrow> nat \<Rightarrow> bool" where
  "ready E w t \<longleftrightarrow> (\<exists>Q. wfq E Q w \<and> TEntry t \<in> set (runnable Q w))"

lemma ready_frame [simp]:
  "ready E (w\<lparr>w_kernel := k\<rparr>) = ready E w" "ready E (w\<lparr>w_ews := e\<rparr>) = ready E w"
  "ready E (w\<lparr>w_exec := w_exec w\<lparr>x_events := v\<rparr>\<rparr>) = ready E w"
  "ready E (w\<lparr>w_kernel := k, w_exec := w_exec w\<lparr>x_events := v\<rparr>\<rparr>) = ready E w"
  by (simp_all add: ready_def wfq_def runnable_def runq_head fun_eq_iff)

lemma runnable_qpush:
  assumes "wfq E Q w"
  shows "set (runnable (qpush (runq p w) e Q) w) = insert e (set (runnable Q w))"
proof -
  obtain xs where "Q (runq p w) = Some xs" using wfq_head(2) [OF assms] by blast
  have "set (members (qpush (runq p w) e Q) h) =
      (if h = runq p w then insert e (set (members Q h)) else set (members Q h) - {e})" for h
    using members_qpush [where Q = Q and a = "runq p w", OF \<open>Q (runq p w) = Some xs\<close>, of e h] by auto
  then show ?thesis unfolding runnable_def set_append by (cases p) (auto simp: runq_head)
qed

lemma upgraded_enqueue_ready:
  assumes I: "winv reg E G w" and u: "weak_upgrade s w = Some w1"
  shows "\<exists>q'. enqueue s w1 = Ok (w\<lparr>w_queue := q'\<rparr>) \<and> winv reg E G (w\<lparr>w_queue := q'\<rparr>) \<and>
    (\<forall>t. ready E w t \<longrightarrow> ready E (w\<lparr>w_queue := q'\<rparr>) t) \<and>
    (\<forall>k. w_tasks w s = Some k \<longrightarrow> \<not> t_has_completed k \<longrightarrow> ready E (w\<lparr>w_queue := q'\<rparr>) s)"
proof -
  note U = upgrade_inv [OF I u]
  obtain k where k: "w_tasks w1 s = Some k" using own_task [OF U(1)] .
  have bor: "t_borrowed k \<Longrightarrow> 0 < E s" using inv_borrowed [OF I] k U(4) by simp
  have step: "\<exists>q'. enqueue s w1 = Ok (w\<lparr>w_queue := q'\<rparr>) \<and>
      wfq E (if t_has_completed k then Q else qpush (runq (t_priority k) w) (TEntry s) Q) (w\<lparr>w_queue := q'\<rparr>)"
    if Q: "wfq E Q w" for Q
  proof -
    have "0 < strong (w_queue w) (TEntry s)" using u by (simp add: weak_upgrade_def split: if_splits)
    from clone_wfq [OF Q this] have W1: "wfq (own s E) Q w1" using U(2) by simp
    obtain q' where "enqueue s w1 = Ok (w1\<lparr>w_queue := q'\<rparr>)"
      "wfq E (if t_has_completed k then Q else qpush (runq (t_priority k) w1) (TEntry s) Q) (w1\<lparr>w_queue := q'\<rparr>)"
      by (rule enqueue_wfq [OF W1 k U(3)]) (erule bor, assumption)
    then show ?thesis by (auto simp: U(2) arc_clone_def runq_head)
  qed
  obtain Q0 where Q0: "wfq E Q0 w" using I by (auto elim: winvE)
  obtain q' where q': "enqueue s w1 = Ok (w\<lparr>w_queue := q'\<rparr>)" using step [OF Q0] by auto
  have run: "set (runnable (qpush (runq p w) e Q) (w\<lparr>w_queue := q'\<rparr>)) = insert e (set (runnable Q w))"
    "runnable Q (w\<lparr>w_queue := q'\<rparr>) = runnable Q w" if "wfq E Q w" for p e Q
    using runnable_qpush [OF that] by (simp_all add: runnable_def runq_head)
  show ?thesis
  proof (intro exI conjI allI impI, rule q')
    show "winv reg E G (w\<lparr>w_queue := q'\<rparr>)" using upgraded_enqueue [OF I u] q' by simp
    show "ready E (w\<lparr>w_queue := q'\<rparr>) t" if r: "ready E w t" for t
    proof -
      obtain Q where Q: "wfq E Q w" "TEntry t \<in> set (runnable Q w)" using r by (auto simp: ready_def)
      from step [OF Q(1)] q' Q(2) run [OF Q(1)] show ?thesis unfolding ready_def
        by (auto split: if_splits)
    qed
    show "ready E (w\<lparr>w_queue := q'\<rparr>) s" if k': "w_tasks w s = Some k'" "\<not> t_has_completed k'" for k'
      using step [OF Q0] q' run [OF Q0] k' k U(4) unfolding ready_def by auto
  qed
qed

section \<open>The pipe\<close>

text \<open>
  \<open>pipes k rd wr\<close> is what the pipe with the ends \<open>rd\<close> and \<open>wr\<close> holds. A write succeeds on both
  ends open unless the pipe is full; a read takes the oldest address; while the pipe holds
  one, epoll reports its read end, once, and returns no other registration's data for it,
  if there are slots for all registrations.
\<close>

definition pipe_ok :: "'k registrations \<Rightarrow> ('k \<Rightarrow> raw_fd \<Rightarrow> raw_fd \<Rightarrow> nat list option) \<Rightarrow> 'k kernel \<Rightarrow> bool" where
  "pipe_ok reg pipes S \<longleftrightarrow>
     (\<forall>k rd wr ps p. pipes k rd wr = Some ps \<longrightarrow> fst (sys_write_ptr S wr p k) \<noteq> Inl EBADF) \<and>
     (\<forall>k rd wr ps p k'. pipes k rd wr = Some ps \<longrightarrow> sys_write_ptr S wr p k = (Inr (), k') \<longrightarrow>
        pipes k' rd wr = Some (ps @ [p])) \<and>
     (\<forall>k rd wr p ps. pipes k rd wr = Some (p # ps) \<longrightarrow>
        (\<exists>k'. sys_read_ptr S rd k = (Inr p, k') \<and> pipes k' rd wr = Some ps)) \<and>
     (\<forall>k rd wr p ps ep d n tmo. pipes k rd wr = Some (p # ps) \<longrightarrow> reg k ep rd = Some d \<longrightarrow>
        card (dom (reg k ep)) \<le> n \<longrightarrow>
        (\<exists>k' es1 e es2. sys_epoll_wait S ep n tmo k = (WaitEvents (es1 @ e # es2), k') \<and>
           pipes k' rd wr = Some (p # ps) \<and> ev_data e = d \<and>
           ev_data ` set (es1 @ es2) \<subseteq> ran ((reg k ep)(rd := None))))"

lemmas pipe_ok_conj = pipe_ok_def [THEN iffD1]

lemmas pipe_ok_open = pipe_ok_conj [THEN conjunct1, rule_format]
  and pipe_ok_write = pipe_ok_conj [THEN conjunct2, THEN conjunct1, rule_format]
  and pipe_ok_read = pipe_ok_conj [THEN conjunct2, THEN conjunct2, THEN conjunct1, rule_format]
  and pipe_ok_wait = pipe_ok_conj [THEN conjunct2, THEN conjunct2, THEN conjunct2, rule_format]

text \<open>
  The pipe of an executor is open, the only registration with a null pointer, and the event
  buffer has a slot for each registration.
\<close>

definition pipe_of :: "('k \<Rightarrow> raw_fd \<Rightarrow> raw_fd \<Rightarrow> nat list option) \<Rightarrow> ('k, 't, 'v) world \<Rightarrow> nat list option" where
  "pipe_of pipes w = pipes (w_kernel w) (x_pipe_rd (w_exec w)) (x_pipe_wr (w_exec w))"

definition pipe_registered :: "'k registrations \<Rightarrow> ('k, 't, 'v) world \<Rightarrow> bool" where
  "pipe_registered reg w \<longleftrightarrow>
     (\<forall>fd. reg (w_kernel w) (x_epoll (w_exec w)) fd = Some 0 \<longleftrightarrow> fd = x_pipe_rd (w_exec w)) \<and>
     card (dom (reg (w_kernel w) (x_epoll (w_exec w)))) \<le> length (x_events (w_exec w)) \<and>
     x_events (w_exec w) \<noteq> []"

section \<open>Reading the pipe\<close>

lemma handle_events_append:
  "handle_events S (es1 @ es2) w = bind_res (handle_events S es1 w) (\<lambda>(r, w1). case r of
     Inl err \<Rightarrow> Ok (Inl err, w1) | Inr _ \<Rightarrow> handle_events S es2 w1)"
proof (induction es1 arbitrary: w)
  case (Cons e es1)
  show ?case
    by (cases "wake_from_pipe S w"; cases "wake_from_event e w")
       (auto simp: Cons.IH split_def bind_res_assoc split: sum.split)
qed simp

text \<open>
  What happens between a wake-up and the read of the pipe loses no ready task, and changes
  only queues, readiness flags and events.
\<close>

definition woken_from :: "'k registrations \<Rightarrow> (nat \<Rightarrow> nat) \<Rightarrow> ptr set \<times> ptr set \<Rightarrow> ('k, 't, 'v) world
    \<Rightarrow> ('k, 't, 'v) world \<Rightarrow> bool" where
  "woken_from reg E G w w' \<longleftrightarrow> winv reg E G w' \<and> w_tasks w' = w_tasks w \<and> dom (w_ews w') = dom (w_ews w) \<and>
     w_exec w' = w_exec w \<and> (\<forall>t. ready E w t \<longrightarrow> ready E w' t)"

lemma woken_from_trans:
  "woken_from reg E G a b \<Longrightarrow> woken_from reg E G b c \<Longrightarrow> woken_from reg E G a c"
  by (auto simp: woken_from_def)

lemma wake_from_event_ready:
  assumes I: "winv reg E G w" and d: "ev_data e \<in> dom (w_ews w)"
  shows "\<exists>w'. wake_from_event e w = Ok w' \<and> woken_from reg E G w w' \<and> w_kernel w' = w_kernel w"
proof -
  from d obtain ew where ew: "w_ews w (ev_data e) = Some ew" by auto
  let ?ew = "ew\<lparr>ew_events := ew_events ew OR ev_events e\<rparr>"
  let ?w = "w\<lparr>w_ews := (w_ews w)(ev_data e \<mapsto> ?ew)\<rparr>"
  have I1: "winv reg E G ?w" by (rule inv_ews [OF I ew])
  show ?thesis
  proof (cases "\<exists>t w2. \<not> flags_contains (ew_events ew) (ev_events e) \<and> ew_waker ew = TaskWaker t \<and>
      weak_upgrade t ?w = Some w2")
    case True
    then obtain t w2 where t: "\<not> flags_contains (ew_events ew) (ev_events e)" "ew_waker ew = TaskWaker t"
      "weak_upgrade t ?w = Some w2" by blast
    note upgraded_enqueue_ready [OF I1 t(3)]
    with t ew d show ?thesis by (auto simp: wake_from_event_def Let_def woken_from_def)
  next
    case False
    with ew I I1 d show ?thesis
      by (auto simp: wake_from_event_def Let_def woken_from_def split: waker.splits option.splits)
  qed
qed

lemma device_events_ready:
  "winv reg E G w \<Longrightarrow> ev_data ` set es \<subseteq> dom (w_ews w) - {0} \<Longrightarrow>
   \<exists>w'. handle_events S es w = Ok (Inr (), w') \<and> woken_from reg E G w w' \<and> w_kernel w' = w_kernel w"
proof (induction es arbitrary: w)
  case Nil
  then show ?case by (auto simp: woken_from_def)
next
  case (Cons e es)
  obtain w1 where w1: "wake_from_event e w = Ok w1" "woken_from reg E G w w1" "w_kernel w1 = w_kernel w"
    using wake_from_event_ready [OF Cons.prems(1), of e] Cons.prems(2) by auto
  have "\<exists>w'. handle_events S es w1 = Ok (Inr (), w') \<and> woken_from reg E G w1 w' \<and> w_kernel w' = w_kernel w1"
    by (rule Cons.IH) (use Cons.prems(2) w1(2) in \<open>auto simp: woken_from_def\<close>)
  with w1 Cons.prems(2) show ?case by (auto intro: woken_from_trans)
qed

lemma wake_from_pipe_ready:
  assumes K: "kernel_ok reg S" "pipe_ok reg pipes S" and I: "winv reg E G w"
    and p: "pipe_of pipes w = Some (p # ps)"
  shows "\<exists>w'. wake_from_pipe S w = Ok (Inr (), w') \<and> woken_from reg E G w w' \<and>
    reg (w_kernel w') = reg (w_kernel w) \<and> pipe_of pipes w' = Some ps \<and>
    (\<forall>k. w_tasks w p = Some k \<longrightarrow> \<not> t_has_completed k \<longrightarrow> ready E w' p)"
proof -
  obtain k' where k': "sys_read_ptr S (x_pipe_rd (w_exec w)) (w_kernel w) = (Inr p, k')"
    "pipes k' (x_pipe_rd (w_exec w)) (x_pipe_wr (w_exec w)) = Some ps"
    using pipe_ok_read [OF K(2)] p unfolding pipe_of_def by blast
  have r: "reg k' = reg (w_kernel w)" using kernel_ok_read [OF K(1), of "x_pipe_rd (w_exec w)" "w_kernel w"] k'(1) by simp
  let ?w = "w\<lparr>w_kernel := k'\<rparr>"
  have I1: "winv reg E G ?w" by (rule winv_kernel_eq [OF I r])
  have live: "0 < strong (w_queue w) (TEntry p)" "p \<noteq> 0" if "w_tasks w p = Some k" for k
    using I that core_fresh [OF wfqD, of E _ w p] wfq_live [of E _ w p] by (auto elim!: winvE)
  show ?thesis
  proof (cases "p = 0 \<or> weak_upgrade p ?w = None")
    case True
    then have "w_tasks w p = None" using live by (cases "w_tasks w p") (auto simp: weak_upgrade_def split: if_splits)
    with True k' r I1 show ?thesis
      by (auto simp: wake_from_pipe_def Let_def woken_from_def pipe_of_def)
  next
    case False
    then obtain w2 where u: "weak_upgrade p ?w = Some w2" by auto
    from upgraded_enqueue_ready [OF I1 u] k' r False u show ?thesis
      by (auto simp: wake_from_pipe_def Let_def woken_from_def pipe_of_def)
  qed
qed

lemma epoll_wait_reads_pipe:
  assumes K: "kernel_ok reg S" "pipe_ok reg pipes S" and I: "winv reg E G w"
    and p: "pipe_of pipes w = Some (p # ps)" and r: "pipe_registered reg w"
  shows "\<exists>w'. epoll_wait S tmo w = Ok (Inr (), w') \<and> winv reg E G w' \<and> w_tasks w' = w_tasks w \<and>
    pipe_of pipes w' = Some ps \<and> pipe_registered reg w' \<and> (\<forall>t. ready E w t \<longrightarrow> ready E w' t) \<and>
    (\<forall>k. w_tasks w p = Some k \<longrightarrow> \<not> t_has_completed k \<longrightarrow> ready E w' p)"
proof -
  let ?n = "length (x_events (w_exec w))" and ?ep = "x_epoll (w_exec w)" and ?rd = "x_pipe_rd (w_exec w)"
  have reg: "reg (w_kernel w) ?ep ?rd = Some 0" "card (dom (reg (w_kernel w) ?ep)) \<le> ?n" "x_events (w_exec w) \<noteq> []"
    and only: "\<And>fd. fd \<noteq> ?rd \<Longrightarrow> reg (w_kernel w) ?ep fd \<noteq> Some 0"
    using r unfolding pipe_registered_def by auto
  obtain k' es1 e es2 where z: "sys_epoll_wait S ?ep ?n tmo (w_kernel w) = (WaitEvents (es1 @ e # es2), k')"
    and k': "pipes k' ?rd (x_pipe_wr (w_exec w)) = Some (p # ps)" "ev_data e = 0"
    and es: "ev_data ` set (es1 @ es2) \<subseteq> ran ((reg (w_kernel w) ?ep)(?rd := None))"
    using pipe_ok_wait [OF K(2) p [unfolded pipe_of_def] reg(1,2)] by blast
  have R: "reg k' = reg (w_kernel w)" using kernel_ok_wait [OF K(1), of ?ep ?n tmo "w_kernel w"] z by simp
  have len: "length (es1 @ e # es2) \<le> ?n" using kernel_ok_events [OF K(1)] z by blast
  define w1 where "w1 = w\<lparr>w_kernel := k', w_exec := w_exec w\<lparr>x_events :=
    (es1 @ e # es2) @ drop (length (es1 @ e # es2)) (x_events (w_exec w))\<rparr>\<rparr>"
  have wait: "epoll_wait S tmo w = handle_events S (es1 @ e # es2) w1"
    using epoll_wait_events [OF z reg(3) refl] len by (simp add: w1_def)
  have I1: "winv reg E G w1" using I R by (simp add: w1_def winv_def ewf_def)
  have ewf: "ewf reg w" using I by (simp add: winv_def)
  have "ev_data x \<in> dom (w_ews w) - {0}" if "x \<in> set (es1 @ es2)" for x
  proof -
    have "ev_data x \<in> ran ((reg (w_kernel w) ?ep)(?rd := None))" using es that by blast
    then obtain fd where fd: "fd \<noteq> ?rd" "reg (w_kernel w) ?ep fd = Some (ev_data x)"
      by (auto simp: ran_def split: if_splits)
    with only have "ev_data x \<noteq> 0" by metis
    with fd ewf_data [OF ewf, of "ev_data x"] show ?thesis by (auto intro: ranI)
  qed
  then have dev: "ev_data ` set es1 \<subseteq> dom (w_ews w) - {0}" "ev_data ` set es2 \<subseteq> dom (w_ews w) - {0}" unfolding image_subset_iff set_append by blast+
  have F1: "w_ews w1 = w_ews w" "w_tasks w1 = w_tasks w" "pipe_of pipes w1 = Some (p # ps)" "reg (w_kernel w1) = reg (w_kernel w)"
    "\<And>t. ready E w1 t = ready E w t"
    using k'(1) R by (simp_all add: w1_def pipe_of_def)
  obtain w2 where w2: "handle_events S es1 w1 = Ok (Inr (), w2)" "woken_from reg E G w1 w2" "w_kernel w2 = w_kernel w1"
    using device_events_ready [OF I1, where es = es1 and S = S] dev(1) F1(1) by auto
  have p2: "pipe_of pipes w2 = Some (p # ps)" using w2 F1(3) by (simp add: pipe_of_def woken_from_def)
  have I2: "winv reg E G w2" using w2(2) by (simp add: woken_from_def)
  obtain w3 where w3: "wake_from_pipe S w2 = Ok (Inr (), w3)" "woken_from reg E G w2 w3"
    "reg (w_kernel w3) = reg (w_kernel w2)" "pipe_of pipes w3 = Some ps"
    "\<forall>k. w_tasks w2 p = Some k \<longrightarrow> \<not> t_has_completed k \<longrightarrow> ready E w3 p"
    using wake_from_pipe_ready [OF K I2 p2] by blast
  have I3: "winv reg E G w3" and d3: "dom (w_ews w3) = dom (w_ews w)"
    using w3(2) w2(2) F1(1) by (simp_all add: woken_from_def)
  obtain w4 where w4: "handle_events S es2 w3 = Ok (Inr (), w4)" "woken_from reg E G w3 w4" "w_kernel w4 = w_kernel w3"
    using device_events_ready [OF I3, where es = es2 and S = S] dev(2) d3 by auto
  have "epoll_wait S tmo w = Ok (Inr (), w4)"
    using w2(1) w3(1) w4(1) k'(2) by (simp add: wait handle_events_append)
  moreover have W: "woken_from reg E G w1 w4" using woken_from_trans w2(2) w3(2) w4(2) by blast
  moreover have "ready E w4 p" if "w_tasks w p = Some k" "\<not> t_has_completed k" for k
    using that w3(5) w2(2) w4(2) F1(2) by (simp add: woken_from_def)
  moreover have "pipe_of pipes w4 = Some ps" using w4(2,3) w3(4) by (simp add: pipe_of_def woken_from_def)
  moreover have "pipe_registered reg w4"
    using r W w4(3) w3(3) w2(3) R len unfolding pipe_registered_def woken_from_def
    by (auto simp: w1_def simp flip: length_greater_0_conv)
  ultimately show ?thesis using F1 unfolding woken_from_def by (intro exI [of _ w4]) auto
qed

section \<open>Wakes on other threads\<close>

definition remote_wake :: "'k kernel \<Rightarrow> executor \<Rightarrow> nat \<Rightarrow> ('k, 't, 'v) world \<Rightarrow> ('k, 't, 'v) world res" where
  "remote_wake S x t w = bind_res (wake_task S t (w\<lparr>w_exec := x\<rparr>)) (\<lambda>w1. Ok (w1\<lparr>w_exec := w_exec w\<rparr>))"

fun remote_wakes :: "'k kernel \<Rightarrow> (executor \<times> nat) list \<Rightarrow> ('k, 't, 'v) world \<Rightarrow> ('k, 't, 'v) world res" where
  "remote_wakes S [] w = Ok w"
| "remote_wakes S ((x, t) # xs) w = bind_res (remote_wake S x t w) (remote_wakes S xs)"

text \<open>The thread looks for events \<open>n\<close> times, as \<open>block_on\<close> does between its polls.\<close>

fun epoll_waits :: "'k kernel \<Rightarrow> epoll_timeout \<Rightarrow> nat \<Rightarrow> ('k, 't, 'v) sched \<Rightarrow> ('k, 't, 'v) sched res" where
  "epoll_waits S tmo 0 w = Ok w"
| "epoll_waits S tmo (Suc n) w = bind_res (bind_res (epoll_wait S tmo w) unwrap) (epoll_waits S tmo n)"

text \<open>An executor of another thread, and a task of this one.\<close>

definition remote :: "('k, 't, 'v) world \<Rightarrow> executor \<times> nat \<Rightarrow> bool" where
  "remote w xt \<longleftrightarrow> x_pipe_wr (fst xt) \<noteq> x_pipe_wr (w_exec w) \<and>
     (\<forall>k. w_tasks w (snd xt) = Some k \<longrightarrow> t_pipe_wr k = x_pipe_wr (w_exec w))"

definition live_in :: "('k, 't, 'v) world \<Rightarrow> nat list \<Rightarrow> nat list" where
  "live_in w ts = filter (\<lambda>t. w_tasks w t \<noteq> None) ts"

lemma remote_frame [simp]: "remote (w\<lparr>w_kernel := k\<rparr>) = remote w"
  by (simp add: remote_def fun_eq_iff)

lemma remote_wake_writes:
  assumes K: "kernel_ok reg S" "pipe_ok reg pipes S" and Q: "wfq E Q w" and r: "remote w (x, t)"
    and p: "pipe_of pipes w = Some ps" and w': "remote_wake S x t w = Ok w'"
  shows "\<exists>k'. w' = w\<lparr>w_kernel := k'\<rparr> \<and> reg k' = reg (w_kernel w) \<and> pipe_of pipes w' = Some (ps @ live_in w [t])"
proof (cases "w_tasks w t")
  case None
  then have "strong (w_queue w) (TEntry t) = 0" using wfq_live [OF Q, of t] by simp
  with w' have "w' = w" by (simp add: remote_wake_def wake_task_def weak_upgrade_def)
  with None p show ?thesis by (auto simp: live_in_def intro: exI [of _ "w_kernel w"])
next
  case (Some k)
  let ?wr = "x_pipe_wr (w_exec w)"
  have pw: "t_pipe_wr k = ?wr" "x_pipe_wr x \<noteq> ?wr" using r Some by (auto simp: remote_def)
  have live: "0 < strong (w_queue w) (TEntry t)" using wfq_live [OF Q] Some by blast
  have forget: "arc_forget t ((arc_clone t (w\<lparr>w_exec := x\<rparr>))\<lparr>w_kernel := k1\<rparr>) = Ok (w\<lparr>w_exec := x, w_kernel := k1\<rparr>)" for k1
    using live by (simp add: arc_forget_def with_queue_def arc_dec_def arc_clone_def arc_inc_def fun_upd_idem)
  obtain z k1 where z: "sys_write_ptr S ?wr t (w_kernel w) = (z, k1)" by force
  have nb: "z \<noteq> Inl EBADF" using pipe_ok_open [OF K(2) p [unfolded pipe_of_def], of t] z by simp
  have up: "weak_upgrade t (w\<lparr>w_exec := x\<rparr>) = Some (arc_clone t (w\<lparr>w_exec := x\<rparr>))"
    using live by (simp add: weak_upgrade_def)
  have f: "w_tasks (arc_clone t (w\<lparr>w_exec := x\<rparr>)) t = Some k" "w_exec (arc_clone t (w\<lparr>w_exec := x\<rparr>)) = x"
    "w_kernel (arc_clone t (w\<lparr>w_exec := x\<rparr>)) = w_kernel w"
    using Some by (simp_all add: arc_clone_def)
  have "z = Inr ()" and "w' = w\<lparr>w_kernel := k1\<rparr>"
    using w' nb z pw forget f by (auto simp: remote_wake_def wake_task_def up get_task_def res_simps split: sum.splits errno.splits)
  with pipe_ok_write [OF K(2) p [unfolded pipe_of_def]] z kernel_ok_write [OF K(1), of ?wr t "w_kernel w"] Some
  show ?thesis by (auto simp: pipe_of_def live_in_def)
qed

lemma remote_wakes_write:
  assumes K: "kernel_ok reg S" "pipe_ok reg pipes S"
  shows "wfq E Q w \<Longrightarrow> list_all (remote w) xs \<Longrightarrow> pipe_of pipes w = Some ps \<Longrightarrow> remote_wakes S xs w = Ok w' \<Longrightarrow>
    \<exists>k'. w' = w\<lparr>w_kernel := k'\<rparr> \<and> reg k' = reg (w_kernel w) \<and> pipe_of pipes w' = Some (ps @ live_in w (map snd xs))"
proof (induction xs arbitrary: w ps)
  case Nil
  then show ?case by (auto simp: live_in_def intro: exI [of _ "w_kernel w"])
next
  case (Cons xt xs)
  obtain x t where xt: "xt = (x, t)" by force
  obtain w1 where w1: "remote_wake S x t w = Ok w1" "remote_wakes S xs w1 = Ok w'"
    using Cons.prems(4) xt by (auto simp: res_simps)
  obtain k1 where k1: "w1 = w\<lparr>w_kernel := k1\<rparr>" "reg k1 = reg (w_kernel w)" "pipe_of pipes w1 = Some (ps @ live_in w [t])"
    using remote_wake_writes [OF K Cons.prems(1) _ Cons.prems(3) w1(1)] Cons.prems(2) xt by auto
  have "list_all (remote w1) xs" "wfq E Q w1"
    using Cons.prems(1,2) by (auto simp: k1(1) wfq_def)
  from Cons.IH [OF this(2,1) k1(3) w1(2)] show ?case
    by (auto simp: k1(1) k1(2) [unfolded k1(1)] xt live_in_def)
qed

lemma epoll_waits_read:
  assumes K: "kernel_ok reg S" "pipe_ok reg pipes S"
  shows "winv reg E G w \<Longrightarrow> pipe_of pipes w = Some ps \<Longrightarrow> pipe_registered reg w \<Longrightarrow>
    \<exists>w'. epoll_waits S tmo (length ps) w = Ok w' \<and> winv reg E G w' \<and> w_tasks w' = w_tasks w \<and>
      pipe_of pipes w' = Some [] \<and> (\<forall>t. ready E w t \<longrightarrow> ready E w' t) \<and>
      (\<forall>t k. t \<in> set ps \<longrightarrow> w_tasks w t = Some k \<longrightarrow> \<not> t_has_completed k \<longrightarrow> ready E w' t)"
proof (induction ps arbitrary: w)
  case Nil
  then show ?case by simp
next
  case (Cons p ps)
  obtain w1 where w1: "epoll_wait S tmo w = Ok (Inr (), w1)" "winv reg E G w1" "w_tasks w1 = w_tasks w"
    "pipe_of pipes w1 = Some ps" "pipe_registered reg w1" "\<forall>t. ready E w t \<longrightarrow> ready E w1 t"
    "\<forall>k. w_tasks w p = Some k \<longrightarrow> \<not> t_has_completed k \<longrightarrow> ready E w1 p"
    using epoll_wait_reads_pipe [OF K Cons.prems] by blast
  from Cons.IH [OF w1(2,4,5)] w1 show ?case by (auto simp: unwrap_def)
qed

text \<open>
  C6: no wake-up between threads is lost. Whatever threads wake tasks of this one, in any
  order and any number of times, their wakes change nothing but the pipe; a thread that then
  waits for events is not blocked, and after one \<open>epoll_wait\<close> for each wake every task that was
  woken and has not completed is in its run queue, along with all tasks that already were.
\<close>

theorem remote_wakes_reach_run_queue:
  assumes "kernel_ok reg S" and "pipe_ok reg pipes S" and "winv reg E G w" and "pipe_registered reg w"
    and "pipe_of pipes w = Some []" and "list_all (remote w) xs" and "remote_wakes S xs w = Ok w1"
  shows "w_queue w1 = w_queue w \<and> w_tasks w1 = w_tasks w \<and>
    (\<exists>w2. epoll_waits S tmo (length (live_in w (map snd xs))) w1 = Ok w2 \<and> pipe_of pipes w2 = Some [] \<and>
      (\<forall>t k. t \<in> snd ` set xs \<or> ready E w t \<longrightarrow> w_tasks w t = Some k \<longrightarrow> \<not> t_has_completed k \<longrightarrow> ready E w2 t))"
proof (rule winvE [OF assms(3)])
  fix Q assume "wfq E Q w"
  from remote_wakes_write [OF assms(1,2) this assms(6,5,7)] obtain k' where
    k': "w1 = w\<lparr>w_kernel := k'\<rparr>" "reg k' = reg (w_kernel w)" "pipe_of pipes w1 = Some (live_in w (map snd xs))"
    by auto
  have I1: "winv reg E G w1" unfolding k'(1) by (rule winv_kernel_eq [OF assms(3) k'(2)])
  have r1: "pipe_registered reg w1" using assms(4) by (simp add: pipe_registered_def k'(1,2))
  from epoll_waits_read [OF assms(1,2) I1 k'(3) r1, of tmo] show ?thesis
    by (auto simp: k'(1) live_in_def image_iff)
qed

text \<open>
  The task 4 of \<open>demo_world\<close>, asleep, is woken twice by the thread of another executor.
\<close>

definition demo_pipes :: "demo \<Rightarrow> raw_fd \<Rightarrow> raw_fd \<Rightarrow> nat list option" where
  "demo_pipes k rd wr = (case d_pipes k of
     [((a, b), ps)] \<Rightarrow> if a = rd \<and> b = wr \<and> d_schedule k = [] then Some ps else None
   | _ \<Rightarrow> None)"

lemma demo_pipes_Some: "demo_pipes k rd wr = Some ps \<longleftrightarrow> d_pipes k = [((rd, wr), ps)] \<and> d_schedule k = []"
  by (auto simp: demo_pipes_def split: list.splits if_splits)

lemma demo_pipe_ok: "pipe_ok demo_reg demo_pipes demo"
proof -
  have "finite (dom (demo_reg k ep))" for k ep
  proof (rule finite_subset)
    show "dom (demo_reg k ep) \<subseteq> (\<lambda>(a, _). snd a) ` set (d_reg k)"
      by (force simp: demo_reg_def dest: map_of_SomeD)
  qed simp
  then have pos: "0 < n" if "demo_reg k ep rd = Some d" "card (dom (demo_reg k ep)) \<le> n" for k ep rd d n
    using that card_gt_0_iff [of "dom (demo_reg k ep)"] by fastforce
  show ?thesis
    unfolding pipe_ok_def demo_pipes_Some
  proof (intro conjI allI impI)
    fix k rd wr p ps ep d n tmo
    assume "d_pipes k = [((rd, wr), p # ps)] \<and> d_schedule k = []" "demo_reg k ep rd = Some d"
      "card (dom (demo_reg k ep)) \<le> n"
    with pos [of k ep rd d n] show "\<exists>k' es1 e es2. sys_epoll_wait demo ep n tmo k = (WaitEvents (es1 @ e # es2), k') \<and>
        (d_pipes k' = [((rd, wr), p # ps)] \<and> d_schedule k' = []) \<and> ev_data e = d \<and>
        ev_data ` set (es1 @ es2) \<subseteq> ran ((demo_reg k ep)(rd := None))"
      by (intro exI [of _ "k\<lparr>d_schedule := tl (d_schedule k)\<rparr>"] exI [of _ "[]"] exI [of _ "\<lparr>ev_events = EPOLLIN, ev_data = d\<rparr>"])
         (cases n; simp add: demo_def demo_events_def List.map_filter_def demo_reg_def Let_def)
  qed (auto simp: demo_def)
qed

definition demo_asleep :: "(demo, nat, nat) sched" where
  "demo_asleep = (case run_task (do_call demo demo_user 1) demo demo_user 4 demo_popped of
     Ok w \<Rightarrow> w | Fault _ \<Rightarrow> demo_popped)"

definition demo_other :: executor where
  "demo_other = \<lparr>x_id = 90, x_epoll = 92, x_pipe_rd = 93, x_pipe_wr = 94, x_events = [epoll_event_empty], x_shutdown = False\<rparr>"

lemmas eval_asleep = demo_asleep_def demo_popped_def demo_world_def demo_spawns_def eval_simps eval_user

lemma demo_asleep_run: "run_task (do_call demo demo_user 1) demo demo_user 4 demo_popped = Ok demo_asleep"
  by (simp add: eval_asleep cong: eval_congs)

lemma demo_asleep_inv: "winv demo_reg (\<lambda>_. 0) ({}, {}) demo_asleep"
proof -
  have "winv demo_reg (own 4 (\<lambda>_. 0)) ({}, {}) demo_popped"
    using highest_priority_inv [OF demo_world_inv] demo_popped_run by simp
  from calls.run_task_inv [OF demo_ok this, of demo_user 1 demo_user] show ?thesis
    using demo_asleep_run by simp
qed

lemma demo_asleep_state: "task_is_queued 4 demo_asleep = Ok True" "x_pipe_wr (w_exec demo_asleep) = 4"
  "w_kernel demo_asleep = \<lparr>d_next = 6, d_reg = [((5, 3), 0)], d_pipes = [((3, 4), [])], d_schedule = [], d_script = []\<rparr>"
  "x_pipe_rd (w_exec demo_asleep) = 3" "x_epoll (w_exec demo_asleep) = 5" "length (x_events (w_exec demo_asleep)) = 1"
  "\<exists>k. w_tasks demo_asleep 4 = Some k \<and> t_pipe_wr k = 4 \<and> \<not> t_has_completed k"
  by (simp_all add: eval_asleep cong: eval_congs)

theorem remote_wakes_reach_run_queue_witness:
  "\<exists>w1 w2. remote_wakes demo [(demo_other, 4), (demo_other, 4)] demo_asleep = Ok w1 \<and>
     epoll_waits demo TimeoutNone 2 w1 = Ok w2 \<and> ready (\<lambda>_. 0) w2 4"
proof -
  obtain k where k: "w_tasks demo_asleep 4 = Some k" "t_pipe_wr k = 4" "\<not> t_has_completed k"
    using demo_asleep_state(7) by auto
  have "demo_reg (w_kernel demo_asleep) 5 = [3 \<mapsto> 0]"
    by (simp add: demo_reg_def demo_asleep_state(3) fun_eq_iff)
  then have reg: "pipe_registered demo_reg demo_asleep"
    using demo_asleep_state(6) by (auto simp: pipe_registered_def demo_asleep_state(4,5))
  have p: "pipe_of demo_pipes demo_asleep = Some []"
    by (simp add: pipe_of_def demo_pipes_def demo_asleep_state)
  have r: "list_all (remote demo_asleep) [(demo_other, 4), (demo_other, 4)]"
    using k by (simp add: remote_def demo_asleep_state(2) demo_other_def)
  obtain w1 where w1: "remote_wakes demo [(demo_other, 4), (demo_other, 4)] demo_asleep = Ok w1"
    by (simp add: eval_asleep remote_wake_def demo_other_def cong: eval_congs)
  have n: "length (live_in demo_asleep (map snd [(demo_other, 4), (demo_other, 4)])) = 2"
    using k by (simp add: live_in_def)
  from remote_wakes_reach_run_queue [OF demo_ok demo_pipe_ok demo_asleep_inv reg p r w1, of TimeoutNone, unfolded n]
  obtain w2 where w2: "epoll_waits demo TimeoutNone 2 w1 = Ok w2"
    "\<forall>t k. t \<in> snd ` set [(demo_other, 4), (demo_other, 4)] \<or> ready (\<lambda>_. 0) demo_asleep t \<longrightarrow>
      w_tasks demo_asleep t = Some k \<longrightarrow> \<not> t_has_completed k \<longrightarrow> ready (\<lambda>_. 0) w2 t"
    by auto
  have "ready (\<lambda>_. 0) w2 4" using w2(2) k(1,3) by simp
  with w1 w2(1) show ?thesis by blast
qed

end
