(* ===== verification/Epox_Lost.thy ===== *)
theory Epox_Lost
  imports Epox_Task_Theorems Epox_Loop_Theorems
begin

text \<open>
  No task is lost. A task is lost when it is live, has not completed, is not being polled and
  is in no queue: no loop would poll it again. The lemmas show that no operation of the
  executor, of the wakers, of \<open>Handle\<close> and of \<open>Fd\<close> loses a task, except aborting it and
  shutting the executor down.
\<close>

section \<open>Lost tasks\<close>

definition lost :: "('k, 't, 'v) world \<Rightarrow> nat set" where
  "lost w = {t. \<exists>k. w_tasks w t = Some k \<and> \<not> t_has_completed k \<and> \<not> t_borrowed k \<and>
     task_is_queued t w = Ok False}"

text \<open>
  A thread's executor is settled when it has not been shut down and no other executor of the
  thread is left. What the executor keeps: the invariant, at most the tasks \<open>L\<close> lost, and a
  settled executor.
\<close>

definition settled :: "('k, 't, 'v) world \<Rightarrow> bool" where
  "settled w \<longleftrightarrow> \<not> x_shutdown (w_exec w) \<and>
     (\<forall>y n. links (w_queue w) (QHead y n) \<noteq> None \<longrightarrow> y = x_id (w_exec w))"

abbreviation alone :: "ptr set \<times> ptr set" where
  "alone \<equiv> ({}, {})"

definition kept :: "'k registrations \<Rightarrow> (nat \<Rightarrow> nat) \<Rightarrow> nat set \<Rightarrow> ('k, 't, 'v) world \<Rightarrow> bool" where
  "kept reg E L w \<longleftrightarrow> winv reg E alone w \<and> lost w \<subseteq> L \<and> settled w"

lemma keptI: "winv reg E alone w \<Longrightarrow> lost w \<subseteq> L \<Longrightarrow> settled w \<Longrightarrow> kept reg E L w"
  and kept_inv: "kept reg E L w \<Longrightarrow> winv reg E alone w"
  and kept_lost: "kept reg E L w \<Longrightarrow> lost w \<subseteq> L"
  and kept_settled: "kept reg E L w \<Longrightarrow> settled w"
  by (simp_all add: kept_def)

lemma safe_kept:
  assumes "safe (winv reg E alone) r" and "\<And>w'. r = Ok w' \<Longrightarrow> lost w' \<subseteq> L \<and> settled w'"
  shows "safe (kept reg E L) r"
  using assms by (cases r) (auto simp: kept_def)

lemma safe_kept_pair:
  assumes "safe (\<lambda>(x, w'). winv reg E alone w') r"
    and "\<And>x w'. r = Ok (x, w') \<Longrightarrow> lost w' \<subseteq> L \<and> settled w'"
  shows "safe (\<lambda>(x, w'). kept reg E L w') r"
  using assms by (cases r) (auto simp: kept_def)

text \<open>
  \<open>w'\<close> loses no task that \<open>w\<close> has not lost, and stays settled.
\<close>

definition loses_none :: "('k, 't, 'v) world \<Rightarrow> ('k, 't, 'v) world \<Rightarrow> bool" where
  "loses_none w w' \<longleftrightarrow> lost w' \<subseteq> lost w \<and> (settled w \<longrightarrow> settled w')"

lemma loses_none_trans [trans]: "loses_none a b \<Longrightarrow> loses_none b c \<Longrightarrow> loses_none a c"
  by (auto simp: loses_none_def)

lemma loses_none_refl: "loses_none w w"
  by (simp add: loses_none_def)

lemma loses_none_kept: "loses_none w w' \<Longrightarrow> kept reg E L w \<Longrightarrow> lost w' \<subseteq> L \<and> settled w'"
  by (auto simp: loses_none_def kept_def)

lemma settled_wfq:
  assumes "wfq E Q w"
  shows "settled w \<longleftrightarrow> \<not> x_shutdown (w_exec w) \<and> (\<forall>h \<in> dom Q. \<exists>n. h = QHead (x_id (w_exec w)) n)"
proof -
  have "QHead y n \<in> dom (links (w_queue w)) \<longleftrightarrow> QHead y n \<in> dom Q" for y n
    using core_links [OF wfqD [OF assms]] by auto
  with core_heads [OF wfqD [OF assms]] show ?thesis unfolding settled_def by blast
qed

lemma lost_cong:
  assumes "w_tasks w' = w_tasks w" and "links (w_queue w') = links (w_queue w)"
  shows "lost w' = lost w"
  using assms by (simp add: lost_def task_is_queued_def entry_is_queued_def deref_def)

lemma lost_frame [simp]:
  "lost (w\<lparr>w_kernel := k\<rparr>) = lost w" "lost (w\<lparr>w_exec := x\<rparr>) = lost w" "lost (w\<lparr>w_ews := e\<rparr>) = lost w"
  "lost (w\<lparr>w_fds := f\<rparr>) = lost w" "lost (w\<lparr>w_handles := h\<rparr>) = lost w" "lost (w\<lparr>w_next := n\<rparr>) = lost w"
  "lost (w\<lparr>w_foreign := l\<rparr>) = lost w" "lost (arc_clone t w) = lost w"
  by (rule lost_cong; simp add: arc_clone_def arc_inc_def)+

lemma settled_cong:
  assumes "links (w_queue w') = links (w_queue w)" and "x_id (w_exec w') = x_id (w_exec w)"
    and "x_shutdown (w_exec w') = x_shutdown (w_exec w)"
  shows "settled w' = settled w"
  using assms by (simp add: settled_def)

lemma settled_frame [simp]:
  "settled (w\<lparr>w_kernel := k\<rparr>) = settled w" "settled (w\<lparr>w_exec := w_exec w\<lparr>x_events := v\<rparr>\<rparr>) = settled w"
  "settled (w\<lparr>w_ews := e\<rparr>) = settled w" "settled (w\<lparr>w_tasks := T\<rparr>) = settled w" "settled (w\<lparr>w_fds := f\<rparr>) = settled w"
  "settled (w\<lparr>w_handles := h\<rparr>) = settled w" "settled (w\<lparr>w_next := n\<rparr>) = settled w"
  "settled (w\<lparr>w_foreign := l\<rparr>) = settled w" "settled (arc_clone t w) = settled w"
  "settled (put_task t k' w) = settled w"
  by (rule settled_cong; simp add: arc_clone_def arc_inc_def put_task_def)+

lemma loses_none_cong:
  assumes "w_tasks w' = w_tasks w" and "links (w_queue w') = links (w_queue w)"
    and "x_id (w_exec w') = x_id (w_exec w)" and "x_shutdown (w_exec w') = x_shutdown (w_exec w)"
  shows "loses_none w w'"
  using lost_cong [OF assms(1,2)] settled_cong [OF assms(2-4)] by (simp add: loses_none_def)

lemma loses_none_frame:
  "loses_none w (w\<lparr>w_kernel := k\<rparr>)" "loses_none w (w\<lparr>w_exec := w_exec w\<lparr>x_events := v\<rparr>\<rparr>)"
  "loses_none w (w\<lparr>w_kernel := k, w_exec := w_exec w\<lparr>x_events := v\<rparr>\<rparr>)"
  "loses_none w (w\<lparr>w_ews := e\<rparr>)"
  by (rule loses_none_cong; simp)+

lemma lost_wfq:
  assumes "wfq E Q w"
  shows "t \<in> lost w \<longleftrightarrow> (\<exists>k. w_tasks w t = Some k \<and> \<not> t_has_completed k \<and> \<not> t_borrowed k \<and> \<not> queued Q (TEntry t))"
  using task_is_queued_wfq [OF assms] by (auto simp: lost_def)

lemma lost_wfq_mono:
  assumes "wfq E Q w" and "wfq E' Q' w'" and "w_tasks w' = w_tasks w"
    and "\<And>t. queued Q (TEntry t) \<Longrightarrow> t \<notin> X \<Longrightarrow> queued Q' (TEntry t)"
  shows "lost w' \<subseteq> lost w \<union> X"
  using lost_wfq [OF assms(1)] lost_wfq [OF assms(2)] assms(3,4) by fastforce

section \<open>Queues\<close>

lemma settled_qpush:
  assumes "wfq E Q w" and "settled w" and "wfq E' (qpush (QHead (x_id (w_exec w)) n) e Q) (w\<lparr>w_queue := q\<rparr>)"
  shows "settled (w\<lparr>w_queue := q\<rparr>)"
proof -
  have "dom (qpush (QHead (x_id (w_exec w)) n) e Q) \<subseteq> insert (QHead (x_id (w_exec w)) n) (dom Q)"
    by (auto simp: qpush_def qremove_def split: if_splits)
  with settled_wfq [OF assms(1)] settled_wfq [OF assms(3)] assms(2) show ?thesis by auto
qed

lemma forget_loses_none:
  assumes "arc_forget t w = Ok w'" shows "loses_none w w'"
proof -
  obtain q where "arc_dec (TEntry t) (w_queue w) = Ok q" "w' = w\<lparr>w_queue := q\<rparr>"
    using assms by (auto simp: arc_forget_def with_queue_def res_simps)
  then show ?thesis by (intro loses_none_cong) (auto simp: arc_dec_def split: if_splits)
qed

lemma enqueue_lost:
  assumes I: "winv reg (own t E) alone w" and k: "w_tasks w t = Some k"
    and last: "t_has_completed k \<Longrightarrow> 1 < strong (w_queue w) (TEntry t)"
    and bor: "t_borrowed k \<Longrightarrow> 0 < E t" and r: "enqueue t w = Ok w'"
  shows "lost w' \<subseteq> lost w - {t}" "loses_none w w'"
proof -
  have "lost w' \<subseteq> lost w - {t} \<and> (settled w \<longrightarrow> settled w')"
  proof (rule winvE [OF I])
    fix Q assume Q: "wfq (own t E) Q w"
    obtain q' where q': "enqueue t w = Ok (w\<lparr>w_queue := q'\<rparr>)"
      "wfq E (if t_has_completed k then Q else qpush (runq (t_priority k) w) (TEntry t) Q) (w\<lparr>w_queue := q'\<rparr>)"
      by (rule enqueue_wfq [OF Q k]) (erule last, erule bor, assumption)
    have w': "w' = w\<lparr>w_queue := q'\<rparr>" using q'(1) r by simp
    have "settled w \<Longrightarrow> settled w'"
      using settled_qpush [OF Q, of E "runq_name (t_priority k)" "TEntry t" q'] q'(2)
        settled_wfq [OF Q] settled_wfq [OF q'(2)] unfolding w' by (simp add: runq_head split: if_splits)
    with r q' k lost_wfq [OF Q] lost_wfq [OF q'(2)] wfq_head(2) [OF Q, of "t_priority k"] show ?thesis
      by (auto split: if_splits)
  qed
  then show "lost w' \<subseteq> lost w - {t}" "loses_none w w'" by (auto simp: loses_none_def)
qed

lemma sleep_lost:
  assumes I: "winv reg (own t E) alone w" and k: "w_tasks w t = Some k" and bor: "t_borrowed k \<Longrightarrow> 0 < E t"
    and r: "sleep_task t w = Ok w'"
  shows "lost w' \<subseteq> lost w - {t}" "settled w \<Longrightarrow> settled w'"
proof -
  have "lost w' \<subseteq> lost w - {t} \<and> (settled w \<longrightarrow> settled w')"
  proof (rule winvE [OF I])
    fix Q assume Q: "wfq (own t E) Q w"
    obtain q' where q': "sleep_task t w = Ok (w\<lparr>w_queue := q'\<rparr>)"
      "wfq E (qpush (head_of Sleepq w) (TEntry t) Q) (w\<lparr>w_queue := q'\<rparr>)"
      by (rule sleep_wfq [OF Q k]) (erule bor, assumption)
    have "settled w \<Longrightarrow> settled (w\<lparr>w_queue := q'\<rparr>)"
      using settled_qpush [OF Q _ q'(2) [unfolded head_of_def]] .
    with r q' k lost_wfq [OF Q] lost_wfq [OF q'(2)] wfq_head(1) [OF Q, of Sleepq] show ?thesis by auto
  qed
  then show "lost w' \<subseteq> lost w - {t}" "settled w \<Longrightarrow> settled w'" by simp_all
qed

lemma upgraded_enqueue_loses_none:
  assumes I: "winv reg E alone w" and u: "weak_upgrade t w = Some w1" and r: "enqueue t w1 = Ok w'"
  shows "loses_none w w'"
proof -
  note U = upgrade_inv [OF I u]
  obtain k where k: "w_tasks w1 t = Some k" using own_task [OF U(1)] .
  have "t_borrowed k \<Longrightarrow> 0 < E t" using inv_borrowed [OF I] k U(4) by simp
  from enqueue_lost(2) [OF U(1) k U(3) this r] show ?thesis by (simp add: U(2) loses_none_def)
qed

lemma queued_qtail: "queued Q x \<Longrightarrow> Q h = Some (e # es) \<Longrightarrow> x \<noteq> e \<Longrightarrow> queued (qtail h Q) x"
  by (auto simp: qtail_def queued_upd queued_split)

lemma highest_priority_kept:
  assumes K: "kept reg E L w"
  shows "safe (\<lambda>(r, w'). case r of
      None \<Rightarrow> kept reg E L w'
    | Some e \<Rightarrow> \<exists>t. e = TEntry t \<and> kept reg (own t E) (insert t L) w') (highest_priority_runnable_task w)"
proof (rule winvE [OF kept_inv [OF K]])
  fix Q assume Q: "wfq E Q w"
  show ?thesis
  proof (cases "runnable Q w")
    case Nil
    from highest_priority_none [OF Q Nil] K show ?thesis by simp
  next
    case (Cons e es)
    obtain t q' n where t: "e = TEntry t" "highest_priority_runnable_task w = Ok (Some (TEntry t), w\<lparr>w_queue := q'\<rparr>)"
      "wfq (own t E) (qtail (head_of n w) Q) (w\<lparr>w_queue := q'\<rparr>)" "Q (head_of n w) = Some (e # tl (members Q (head_of n w)))"
      using highest_priority_some [OF Q Cons] by metis
    have "lost (w\<lparr>w_queue := q'\<rparr>) \<subseteq> lost w \<union> {t}"
      by (rule lost_wfq_mono [OF Q t(3)]) (use queued_qtail [of Q _ "head_of n w"] t(1,4) in auto)
    moreover have "settled (w\<lparr>w_queue := q'\<rparr>)"
      using settled_wfq [OF Q] settled_wfq [OF t(3)] kept_settled [OF K] t(4) by (auto simp: qtail_def)
    ultimately have "kept reg (own t E) (insert t L) (w\<lparr>w_queue := q'\<rparr>)"
      using highest_priority_inv [OF kept_inv [OF K]] t(2) kept_lost [OF K]
      by (intro keptI) auto
    with t(2) show ?thesis by simp
  qed
qed

section \<open>Events and wakers\<close>

lemma wake_from_pipe_loses_none:
  assumes K: "kernel_ok reg S" and I: "winv reg E alone w" and r: "wake_from_pipe S w = Ok (r, w')"
  shows "loses_none w w'"
proof -
  obtain z k where z: "sys_read_ptr S (x_pipe_rd (w_exec w)) (w_kernel w) = (z, k)" by force
  have I1: "winv reg E alone (w\<lparr>w_kernel := k\<rparr>)"
    using kernel_ok_read [OF K, of "x_pipe_rd (w_exec w)" "w_kernel w"] z by (auto intro: winv_kernel_eq [OF I])
  show ?thesis
  proof (cases z)
    case (Inr p)
    show ?thesis
    proof (cases "p = 0 \<or> weak_upgrade p (w\<lparr>w_kernel := k\<rparr>) = None")
      case True
      with r z Inr show ?thesis by (auto simp: wake_from_pipe_def Let_def loses_none_frame loses_none_refl split: if_splits)
    next
      case False
      then obtain w2 where u: "weak_upgrade p (w\<lparr>w_kernel := k\<rparr>) = Some w2" by auto
      with False r z Inr have "enqueue p w2 = Ok w'" by (auto simp: wake_from_pipe_def Let_def res_simps)
      from loses_none_trans [OF loses_none_frame(1) upgraded_enqueue_loses_none [OF I1 u this]] show ?thesis .
    qed
  qed (use r z in \<open>auto simp: wake_from_pipe_def loses_none_frame\<close>)
qed

lemma wake_from_event_loses_none:
  assumes I: "winv reg E alone w" and r: "wake_from_event e w = Ok w'"
  shows "loses_none w w'"
proof (cases "w_ews w (ev_data e)")
  case (Some ew)
  let ?ew = "ew\<lparr>ew_events := ew_events ew OR ev_events e\<rparr>"
  let ?w = "w\<lparr>w_ews := (w_ews w)(ev_data e \<mapsto> ?ew)\<rparr>"
  have I1: "winv reg E alone ?w" by (rule inv_ews [OF I Some])
  have "loses_none w w2" if "loses_none ?w w2" for w2 :: "('a, 'b, 'c) world"
    using loses_none_trans [OF loses_none_frame(4) that] .
  with r Some upgraded_enqueue_loses_none [OF I1] show ?thesis
    by (auto simp: wake_from_event_def Let_def loses_none_refl loses_none_frame split: if_splits waker.splits option.splits)
qed (use r in \<open>simp add: wake_from_event_def loses_none_refl\<close>)

lemma handle_events_loses_none:
  assumes K: "kernel_ok reg S"
  shows "winv reg E alone w \<Longrightarrow> \<forall>e \<in> set es. ev_data e = 0 \<or> ev_data e \<in> dom (w_ews w) \<Longrightarrow>
    handle_events S es w = Ok (r, w') \<Longrightarrow> loses_none w w'"
proof (induction es arbitrary: w)
  case (Cons e es)
  show ?case
  proof (cases "ev_data e = 0")
    case True
    with Cons.prems(3) obtain z w1 where z: "wake_from_pipe S w = Ok (z, w1)" by (auto simp: res_simps)
    have "winv reg E alone w1 \<and> w_ews w1 = w_ews w" using wake_from_pipe_inv [OF K Cons.prems(1)] z by simp
    with True z Cons.prems Cons.IH [of w1] wake_from_pipe_loses_none [OF K Cons.prems(1) z] show ?thesis
      by (cases z) (auto intro: loses_none_trans)
  next
    case False
    with Cons.prems(3) obtain w1 where w1: "wake_from_event e w = Ok w1" "handle_events S es w1 = Ok (r, w')"
      by (auto simp: res_simps)
    have "winv reg E alone w1 \<and> dom (w_ews w1) = dom (w_ews w)"
      using wake_from_event_inv [OF Cons.prems(1), of e] False Cons.prems(2) w1(1) by simp
    with w1 Cons.prems(2) Cons.IH [of w1] wake_from_event_loses_none [OF Cons.prems(1) w1(1)] show ?thesis
      by (auto intro: loses_none_trans)
  qed
qed (simp add: loses_none_refl)

lemma epoll_wait_kept:
  assumes K: "kernel_ok reg S" and W: "kept reg E L w"
  shows "safe (\<lambda>(r, w'). kept reg E L w') (epoll_wait S tmo w)"
proof (rule safe_kept_pair [OF epoll_wait_inv [OF K kept_inv [OF W]]])
  fix r w' assume r: "epoll_wait S tmo w = Ok (r, w')"
  note I = kept_inv [OF W] and L = kept_lost [OF W] and X = kept_settled [OF W]
  let ?n = "length (x_events (w_exec w))"
  obtain z k where z: "sys_epoll_wait S (x_epoll (w_exec w)) ?n tmo (w_kernel w) = (z, k)" by force
  show "lost w' \<subseteq> L \<and> settled w'"
  proof (cases "x_events (w_exec w) = [] \<or> (\<forall>es. z \<noteq> WaitEvents es)")
    case True
    with r z L X show ?thesis
      by (auto simp: epoll_wait_def Let_def split: if_splits wait_result.splits errno.splits)
  next
    case False
    then obtain es where es: "x_events (w_exec w) \<noteq> []" "z = WaitEvents es" by blast
    let ?es = "take ?n es"
    let ?w1 = "w\<lparr>w_kernel := k, w_exec := w_exec w\<lparr>x_events := ?es @ drop (length ?es) (x_events (w_exec w))\<rparr>\<rparr>"
    have "reg k = reg (w_kernel w)" using kernel_ok_wait [OF K, of "x_epoll (w_exec w)" ?n tmo "w_kernel w"] z by simp
    then have I1: "winv reg E alone ?w1" using I by (simp add: winv_def ewf_def)
    have ok: "\<forall>e \<in> set ?es. ev_data e = 0 \<or> ev_data e \<in> dom (w_ews ?w1)"
    proof
      fix e assume "e \<in> set ?es"
      with kernel_ok_events [OF K] z es(2) have "ev_data e \<in> ran (reg (w_kernel w) (x_epoll (w_exec w)))"
        by (metis in_set_takeD)
      with ewf_data [of reg w] I show "ev_data e = 0 \<or> ev_data e \<in> dom (w_ews ?w1)" by (auto simp: winv_def)
    qed
    have "handle_events S ?es ?w1 = Ok (r, w')"
      using r unfolding epoll_wait_events [OF z [unfolded es(2)] es(1) refl] .
    from loses_none_trans [OF loses_none_frame(3) handle_events_loses_none [OF K I1 ok this]]
    show ?thesis by (rule loses_none_kept) (rule W)
  qed
qed

lemma wake_task_kept:
  assumes K: "kernel_ok reg S" and W: "kept reg E L w"
  shows "safe (kept reg E L) (wake_task S t w)"
proof (rule safe_kept [OF wake_task_inv [OF K kept_inv [OF W]]])
  fix w' assume r: "wake_task S t w = Ok w'"
  note I = kept_inv [OF W]
  show "lost w' \<subseteq> L \<and> settled w'"
  proof (cases "weak_upgrade t w")
    case None
    with r W show ?thesis by (simp add: wake_task_def kept_def)
  next
    case (Some w1)
    note U = upgrade_inv [OF I Some]
    have W1: "kept reg (own t E) L w1" using W U by (simp add: kept_def)
    obtain k where k: "w_tasks w1 t = Some k" using own_task [OF U(1)] .
    have bor: "t_borrowed k \<Longrightarrow> 0 < E t" using inv_borrowed [OF I] k U(4) by simp
    have forget: ?thesis if "arc_forget t (w1\<lparr>w_kernel := q\<rparr>) = Ok w'" for q
      using loses_none_kept [OF loses_none_trans [OF loses_none_frame(1) forget_loses_none [OF that]] W1] .
    consider (other) "t_pipe_wr k \<noteq> x_pipe_wr (w_exec w1)"
      | (direct) "t_pipe_wr k = x_pipe_wr (w_exec w1)" "\<not> t_borrowed k"
      | (polled) "t_pipe_wr k = x_pipe_wr (w_exec w1)" "t_borrowed k" by blast
    then show ?thesis
    proof cases
      case other
      with r Some k forget show ?thesis
        by (auto simp: wake_task_def get_task_def split: prod.splits sum.splits errno.splits)
    next
      case direct
      with r Some k have "enqueue t w1 = Ok w'" by (simp add: wake_task_def get_task_def)
      from upgraded_enqueue_loses_none [OF I Some this] W show ?thesis by (rule loses_none_kept)
    next
      case polled
      with r Some k obtain z w2 where w2: "epoll_wait S TimeoutZero w1 = Ok (z, w2)" "enqueue t w2 = Ok w'"
        by (auto simp: wake_task_def get_task_def res_simps)
      have W2: "kept reg (own t E) L w2" using epoll_wait_kept [OF K W1, of TimeoutZero] w2(1) by simp
      obtain k2 where k2: "w_tasks w2 t = Some k2" using own_task [OF kept_inv [OF W2]] .
      have s: "1 < strong (w_queue w2) (TEntry t)"
        using wf_count2 [OF winv_wfw [OF kept_inv [OF W2]] bor [OF polled(2)]] .
      from enqueue_lost(2) [OF kept_inv [OF W2] k2 s bor [OF polled(2)] w2(2)] W2 show ?thesis
        by (rule loses_none_kept)
    qed
  qed
qed

lemma wake_by_ref_kept:
  assumes K: "kernel_ok reg S" and W: "kept reg E L w"
  shows "safe (kept reg E L) (wake_by_ref S wk w)"
proof (cases "\<exists>t. wk = TaskWaker t")
  case True
  with wake_task_kept [OF K W] show ?thesis by (auto simp: wake_by_ref_def)
next
  case False
  show ?thesis
  proof (rule safe_kept [OF wake_by_ref_inv [OF K kept_inv [OF W]]])
    fix w' assume "wake_by_ref S wk w = Ok w'"
    with False W show "lost w' \<subseteq> L \<and> settled w'"
      by (auto simp: wake_by_ref_def block_on_wake_def kept_def split: waker.splits if_splits prod.splits sum.splits errno.splits)
  qed
qed

section \<open>Tasks, handles and descriptors\<close>

lemma put_task_loses_none:
  assumes "w_tasks w t = Some k" and "\<not> t_has_completed k' \<Longrightarrow> \<not> t_has_completed k"
    and "\<not> t_borrowed k' \<Longrightarrow> \<not> t_borrowed k"
  shows "loses_none w (put_task t k' w)"
  using assms by (auto simp: loses_none_def lost_def put_task_def task_is_queued_def split: if_splits)

lemma put_task_lost:
  assumes "t_has_completed k' \<or> t_borrowed k'"
  shows "lost (put_task t k' w) \<subseteq> lost w - {t}"
  using assms by (auto simp: lost_def put_task_def task_is_queued_def)

lemma put_task_kept:
  assumes "kept reg E L w" and "w_tasks w t = Some k" and "t_priority k' = t_priority k"
    and "t_has_completed k' = t_has_completed k" and "t_borrowed k' = t_borrowed k"
  shows "kept reg E L (put_task t k' w)"
proof -
  have "winv reg E alone (put_task t k' w)"
    by (rule put_task_inv [OF kept_inv [OF assms(1)] assms(2,3)])
       (use assms(5) inv_borrowed [OF kept_inv [OF assms(1)] assms(2)] in simp)
  with loses_none_kept [OF put_task_loses_none [OF assms(2), of k'] assms(1)] assms(4,5) show ?thesis
    by (simp add: kept_def)
qed

lemma spawn_task_kept:
  assumes W: "kept reg E L w"
  shows "safe (\<lambda>(h, w'). kept reg E L w') (spawn_task f p md w)"
proof (rule safe_kept_pair [OF spawn_task_inv [OF kept_inv [OF W]]])
  fix h w' assume r: "spawn_task f p md w = Ok (h, w')"
  show "lost w' \<subseteq> L \<and> settled w'"
  proof (rule winvE [OF kept_inv [OF W]])
    fix Q assume Q: "wfq E Q w"
    let ?t = "w_next w"
    obtain q' where w': "w' = w\<lparr>w_tasks := (w_tasks w)(?t \<mapsto> executor_task_new (x_pipe_wr (w_exec w)) f p md),
        w_next := Suc (Suc ?t), w_queue := q', w_handles := (w_handles w)(Suc ?t \<mapsto> ?t)\<rparr>"
      and Q': "wfq E (qpush (runq p w) (TEntry ?t) Q) w'"
      using spawn_task_wfq [OF Q, of f p md] r by auto
    have q: "queued (qpush (runq p w) (TEntry ?t) Q) x \<longleftrightarrow> queued Q x \<or> x = TEntry ?t" for x
      using wfq_head(2) [OF Q] by auto
    have "lost w' \<subseteq> lost w"
      using lost_wfq [OF Q] lost_wfq [OF Q'] q by (auto simp: w' split: if_splits)
    moreover have "dom (qpush (runq p w) (TEntry ?t) Q) \<subseteq> insert (runq p w) (dom Q)"
      by (auto simp: qpush_def qremove_def split: if_splits)
    then have "settled w'"
      using settled_wfq [OF Q] settled_wfq [OF Q'] kept_settled [OF W] by (auto simp: w' runq_head)
    ultimately show ?thesis using kept_lost [OF W] by auto
  qed
qed

lemma handle_result_kept:
  assumes W: "kept reg E L w" and h: "w_handles w h = Some t"
  shows "safe (\<lambda>(r, w'). kept reg E L w' \<and> w_handles w' = w_handles w) (handle_result t w)"
proof -
  obtain k where k: "w_tasks w t = Some k" using handle_task [OF kept_inv [OF W] h] .
  then show ?thesis using put_task_kept [OF W k, of "k\<lparr>t_output := None\<rparr>"]
    by (simp add: handle_result_def get_task_def put_task_def)
qed

lemma handle_poll_kept:
  assumes W: "kept reg E L w" and h: "w_handles w h = Some t"
  shows "safe (\<lambda>(r, w'). kept reg E L w') (handle_poll t wk w)"
  unfolding handle_poll_def
proof (rule safe_bind [OF handle_result_kept [OF W h]], clarify)
  fix r and w1 assume w1: "kept reg E L w1" "w_handles w1 = w_handles w"
  obtain k where k: "w_tasks w1 t = Some k" using handle_task [OF kept_inv [OF w1(1)], of h] w1(2) h by metis
  show "safe (\<lambda>(r, w'). kept reg E L w') (case r of
     Some v \<Rightarrow> Ok (Ready v, w1)
   | None \<Rightarrow> bind_res (get_task t w1) (\<lambda>k.
       Ok (Pending, put_task t (k\<lparr>t_handle_waker := waker_clone wk w1\<rparr>) w1)))"
    using k w1 put_task_kept [OF w1(1) k, of "k\<lparr>t_handle_waker := waker_clone wk w1\<rparr>"]
    by (simp add: get_task_def split: option.splits)
qed

lemma epoll_del_loses_none: "loses_none w (snd (epoll_del S fd w))"
  by (rule loses_none_cong) (simp_all add: epoll_del_def Let_def split: prod.splits sum.splits)

lemma fd_release_loses_none: "loses_none w (fd_release S fd d w)"
  using loses_none_trans [OF epoll_del_loses_none loses_none_frame(4)] by (simp add: fd_release_def Let_def)

lemma fd_drop_kept:
  assumes K: "kernel_ok reg S" and W: "kept reg E L w"
  shows "kept reg E L (fd_drop S i w)"
proof -
  have "loses_none w (fd_drop S i w)"
  proof (cases "w_fds w i")
    case (Some f)
    have "loses_none (fd_release S (fd_inner f) (fd_ew f) w) (fd_drop S i w)"
      by (rule loses_none_cong) (simp_all add: fd_drop_def Some Let_def)
    with fd_release_loses_none show ?thesis by (rule loses_none_trans)
  qed (simp add: fd_drop_def loses_none_refl)
  from loses_none_kept [OF this W] fd_drop_inv [OF K kept_inv [OF W]] show ?thesis by (simp add: kept_def)
qed

lemma fd_new_kept:
  assumes K: "kernel_ok reg S" and W: "kept reg E L w"
  shows "kept reg E L (snd (fd_new S fd events w))"
proof -
  have "loses_none w (snd (fd_new S fd events w))"
    by (rule loses_none_cong)
       (auto simp: fd_new_def fd_release_def epoll_add_def epoll_del_def Let_def split: prod.splits sum.splits)
  from loses_none_kept [OF this W] fd_new_inv [OF K kept_inv [OF W]] show ?thesis by (simp add: kept_def)
qed

lemma fd_poll_with_kept:
  assumes K: "kernel_ok reg S" and W: "kept reg E L w" and f: "w_fds w i = Some f"
  shows "safe (\<lambda>(r, w'). kept reg E L w') (fd_poll_with S (\<lambda>ev. sys_other S (oper ev)) f wk w)"
proof -
  obtain ew where ew: "w_ews w (fd_ew f) = Some ew"
    using epoll_ok_ew [of _ _ _ _ i f] f kept_inv [OF W] unfolding winv_def ewf_def by blast
  show ?thesis
  proof (cases "poll_with (waker_clone_from wk w) (\<lambda>ev. sys_other S (oper ev)) ew (w_kernel w)")
    case None
    with ew show ?thesis by (simp add: fd_poll_with_def)
  next
    case (Some a)
    obtain ret ew1 k1 where a: "a = (ret, ew1, k1)" by (cases a)
    let ?w1 = "w\<lparr>w_ews := (w_ews w)(fd_ew f \<mapsto> ew1), w_kernel := k1\<rparr>"
    have "winv reg E alone ?w1" by (rule fd_poll_step_inv [OF K kept_inv [OF W] ew Some [unfolded a]])
    moreover have "loses_none w ?w1" by (rule loses_none_cong) simp_all
    ultimately have "kept reg E L ?w1" using loses_none_kept W by (fastforce simp: kept_def)
    note safe_bind [OF wake_by_ref_kept [OF K this]]
    with \<open>kept reg E L ?w1\<close> show ?thesis using ew Some a
      by (auto simp: fd_poll_with_def Let_def intro!: safe_bind [OF wake_by_ref_kept [OF K]] split: control_flow.splits)
  qed
qed

lemma init_queues_links:
  assumes "init_queues x m = Ok m'" and "\<And>n. a \<noteq> QHead x n"
  shows "links m' a = links m a"
  using assms by (auto simp: init_queues_def queue_init_def set_prev_def set_next_def queue_new_def deref_def
      Let_def res_simps)

lemma executor_new_Inl:
  assumes new: "executor_new S w = Ok (Inl e, w')"
  obtains k where "w' = w\<lparr>w_kernel := k\<rparr>"
proof (cases "sys_pipe2 S (w_kernel w)")
  case (Pair z k1)
  show ?thesis
  proof (cases z)
    case (Inr rw)
    obtain rd wr where rw: "rw = (rd, wr)" by force
    show ?thesis
    proof (cases "sys_epoll_create S k1")
      case y: (Pair y k2)
      show ?thesis
      proof (cases y)
        case (Inr ep)
        obtain v k3 where "sys_epoll_add S ep rd \<lparr>ev_events = EPOLLIN, ev_data = 0\<rparr> k2 = (v, k3)" by force
        with new Pair \<open>z = Inr rw\<close> rw y Inr show ?thesis
          by (cases v) (auto simp: executor_new_def Let_def res_simps)
      qed (use new Pair Inr rw y that in \<open>auto simp: executor_new_def\<close>)
    qed
  qed (use new Pair that in \<open>auto simp: executor_new_def\<close>)
qed

lemma executor_new_Inr:
  assumes new: "executor_new S w = Ok (Inr new, w')"
  obtains k q where "init_queues (w_next w) (w_queue w) = Ok q"
    "w' = w\<lparr>w_kernel := k, w_queue := q, w_next := Suc (w_next w)\<rparr>"
    "x_id new = w_next w" "\<not> x_shutdown new"
proof -
  obtain rd wr k1 where 1: "sys_pipe2 S (w_kernel w) = (Inr (rd, wr), k1)"
    using new by (auto simp: executor_new_def split: prod.split_asm sum.split_asm)
  obtain ep k2 where 2: "sys_epoll_create S k1 = (Inr ep, k2)"
    using new by (auto simp: executor_new_def 1 split: prod.split_asm sum.split_asm)
  obtain v k3 where 3: "sys_epoll_add S ep rd \<lparr>ev_events = EPOLLIN, ev_data = 0\<rparr> k2 = (v, k3)" by force
  with new 1 2 that show ?thesis by (cases v) (auto simp: executor_new_def Let_def res_simps)
qed

lemma idle_heads:
  assumes Q: "wfq E Q w" and "runnable Q w = []" and "members Q (head_of Sleepq w) = []"
  shows "Q (QHead (x_id (w_exec w)) n) = Some []"
proof -
  obtain hs ns ls where "Q (head_of RunqHigh w) = Some hs" "Q (head_of RunqNormal w) = Some ns"
    "Q (head_of RunqLow w) = Some ls" "runnable Q w = hs @ ns @ ls" using wfq_lists [OF Q] .
  moreover obtain ss where "Q (head_of Sleepq w) = Some ss" using wfq_head(1) [OF Q] by blast
  ultimately show ?thesis using assms(2,3) by (cases n) (simp_all add: head_of_def members_def)
qed

lemma replaced_heads_empty:
  assumes Q: "wfq E Q w" and e: "\<And>n. Q (QHead (x_id (w_exec w)) n) = Some []"
    and q': "init_queues (w_next w) (w_queue w) = Ok q'"
  shows "pop (QHead (x_id (w_exec w)) m) q' = Ok (None, q')"
proof -
  let ?nx = "w_next w" and ?x = "x_id (w_exec w)"
  obtain q where "init_queues ?nx (w_queue w) = Ok q"
    "core E (Q ++ empty_heads ?nx) q (w_tasks w) (w_handles w) (Suc ?nx) ?x"
    using core_new_executor [OF wfqD [OF Q]] by metis
  then have R: "repr q' (Q ++ empty_heads ?nx)" using q' core_repr by simp
  have "?x < ?nx" using core_heads [OF wfqD [OF Q], of "QHead ?x RunqLow"] e [of RunqLow] by auto
  then have "(Q ++ empty_heads ?nx) (QHead ?x m) = Some []"
    using e [of m] by (simp add: empty_heads_def map_add_def)
  then show ?thesis by (rule iq.pop_empty_law [OF R])
qed

end
