(* ===== verification/Epox_Typing.thy ===== *)
theory Epox_Typing
  imports Epox_Demo
begin

text \<open>
  Types of futures and of their outputs. A task is stored without its type (\<open>dyn AnyFuture\<close>
  in \<^verbatim>\<open>src/task.rs\<close>), and \<open>Handle::result\<close> takes its output through a \<open>dyn Any\<close>; that the value
  has the type of the handle rests on the whole executor.

  A discipline says which futures have which type and which values belong to a type; both may
  depend on the types \<open>\<Gamma>\<close> of the handles that a future or value holds. User code is well
  typed (\<open>user_typed\<close>) when a poll keeps the type of its future and gives outputs of that
  type, assuming that the replies to its calls are well typed. The locale \<open>typed_calls\<close> is the
  contract of a semantics of calls, and \<open>do_call\<close> satisfies it: replies are of the kind
  of their call, and every output is of the type of the future that was spawned.

  The discipline is a parameter. With types that say which values an output may have,
  the theorem shows what a program computes (\<open>Epox_Examples\<close>).
\<close>

section \<open>Disciplines\<close>

type_synonym 'c typing_env = "nat \<rightharpoonup> 'c"

record ('f, 'v, 'c) discipline =
  ty_future :: "'c typing_env \<Rightarrow> 'f \<Rightarrow> 'c \<Rightarrow> bool"
  ty_value :: "'c typing_env \<Rightarrow> 'v \<Rightarrow> 'c \<Rightarrow> bool"

definition ty_task_future :: "('f, 'v, 'c) discipline \<Rightarrow> 'c typing_env \<Rightarrow> 'f task_future \<Rightarrow> 'c \<Rightarrow> bool" where
  "ty_task_future D \<Gamma> fut \<tau> = (case fut of
     User f \<Rightarrow> ty_future D \<Gamma> f \<tau> | Checked f \<Rightarrow> ty_future D \<Gamma> f \<tau> | CheckedDone \<Rightarrow> True)"

text \<open>What a caller owes, and what the reply promises.\<close>

fun call_typed :: "('f, 'v, 'c) discipline \<Rightarrow> 'c typing_env \<Rightarrow> 'f call \<Rightarrow> bool" where
  "call_typed D \<Gamma> (CSpawn b) = (\<exists>\<tau>. ty_future D \<Gamma> (b_future b) \<tau>)"
| "call_typed D \<Gamma> (CSpawnChecked b) = (\<exists>\<tau>. ty_future D \<Gamma> (b_future b) \<tau>)"
| "call_typed D \<Gamma> (CBlockOn f) = (\<exists>\<tau>. ty_future D \<Gamma> f \<tau>)"
| "call_typed D \<Gamma> _ = True"

definition value_of_handle :: "('f, 'v, 'c) discipline \<Rightarrow> 'c typing_env \<Rightarrow> nat \<Rightarrow> 'v \<Rightarrow> bool" where
  "value_of_handle D \<Gamma> h v \<longleftrightarrow> (\<exists>\<tau>. \<Gamma> h = Some \<tau> \<and> ty_value D \<Gamma> v \<tau>)"

fun reply_typed :: "('f, 'v, 'c) discipline \<Rightarrow> 'c typing_env \<Rightarrow> 'f call \<Rightarrow> 'v reply \<Rightarrow> bool" where
  "reply_typed D \<Gamma> (CSpawn b) x \<longleftrightarrow> (\<exists>h \<tau>. x = RHandle h \<and> \<Gamma> h = Some \<tau> \<and> ty_future D \<Gamma> (b_future b) \<tau>)"
| "reply_typed D \<Gamma> (CSpawnChecked b) x \<longleftrightarrow> (\<exists>h \<tau>. x = RHandle h \<and> \<Gamma> h = Some \<tau> \<and> ty_future D \<Gamma> (b_future b) \<tau>)"
| "reply_typed D \<Gamma> (CWake wk) x \<longleftrightarrow> x = RUnit"
| "reply_typed D \<Gamma> (CWakerClone wk) x \<longleftrightarrow> (\<exists>wk'. x = RWaker wk')"
| "reply_typed D \<Gamma> (CHandleResult h) x \<longleftrightarrow> x = RUnit \<or>
     (\<exists>r. x = RResult r \<and> (\<forall>v. r = Some v \<longrightarrow> value_of_handle D \<Gamma> h v))"
| "reply_typed D \<Gamma> (CHandlePoll h wk) x \<longleftrightarrow> x = RUnit \<or>
     (\<exists>p. x = RPoll p \<and> (\<forall>v. p = Ready v \<longrightarrow> value_of_handle D \<Gamma> h v))"
| "reply_typed D \<Gamma> (CHandleAbort h) x \<longleftrightarrow> x = RUnit"
| "reply_typed D \<Gamma> (CHandleName h) x \<longleftrightarrow> x = RUnit \<or> (\<exists>s. x = RName s)"
| "reply_typed D \<Gamma> (CHandleDrop h) x \<longleftrightarrow> x = RUnit"
| "reply_typed D \<Gamma> CShutdown x \<longleftrightarrow> x = RUnit"
| "reply_typed D \<Gamma> (CFdNew fd events) x \<longleftrightarrow> (\<exists>r. x = RFd r)"
| "reply_typed D \<Gamma> (CFdPollWith i wk oper) x \<longleftrightarrow> x = RUnit \<or> (\<exists>p. x = RFdPoll p)"
| "reply_typed D \<Gamma> (CFdDrop i) x \<longleftrightarrow> x = RUnit"
| "reply_typed D \<Gamma> (CSys m) x \<longleftrightarrow> (\<exists>r. x = RSys r)"
| "reply_typed D \<Gamma> (CBlockOn f) x \<longleftrightarrow> (\<exists>v \<tau>. x = RValue v \<and> ty_future D \<Gamma> f \<tau> \<and> ty_value D \<Gamma> v \<tau>)"
| "reply_typed D \<Gamma> CRun x \<longleftrightarrow> (\<exists>r. x = RRun r)"

text \<open>
  A program is well typed when it makes well-typed calls, whatever the (well-typed) replies,
  and returns a result that satisfies \<open>Q\<close>. Handles are only ever added.
\<close>

primrec prog_typed :: "('f, 'v, 'c) discipline \<Rightarrow> ('r, 'f, 'v) prog \<Rightarrow> ('c typing_env \<Rightarrow> 'r \<Rightarrow> bool)
    \<Rightarrow> 'c typing_env \<Rightarrow> bool" where
  "prog_typed D (Ret r) Q \<Gamma> = Q \<Gamma> r"
| "prog_typed D (Call c k) Q \<Gamma> = (call_typed D \<Gamma> c \<and>
     (\<forall>x \<Gamma>'. \<Gamma> \<subseteq>\<^sub>m \<Gamma>' \<longrightarrow> reply_typed D \<Gamma>' c x \<longrightarrow> prog_typed D (k x) Q \<Gamma>'))"
| "prog_typed D UserPanics Q \<Gamma> = True"

definition discipline_mono :: "('f, 'v, 'c) discipline \<Rightarrow> bool" where
  "discipline_mono D \<longleftrightarrow> (\<forall>\<Gamma> \<Gamma>'. \<Gamma> \<subseteq>\<^sub>m \<Gamma>' \<longrightarrow>
     (\<forall>f \<tau>. ty_future D \<Gamma> f \<tau> \<longrightarrow> ty_future D \<Gamma>' f \<tau>) \<and> (\<forall>v \<tau>. ty_value D \<Gamma> v \<tau> \<longrightarrow> ty_value D \<Gamma>' v \<tau>))"

definition poll_typed :: "('f, 'v, 'c) discipline \<Rightarrow> 'c \<Rightarrow> 'c typing_env \<Rightarrow> 'f \<times> 'v poll \<Rightarrow> bool" where
  "poll_typed D \<tau> \<Gamma> r \<longleftrightarrow> ty_future D \<Gamma> (fst r) \<tau> \<and> (\<forall>v. snd r = Ready v \<longrightarrow> ty_value D \<Gamma> v \<tau>)"

definition user_typed :: "('f, 'v, 'c) discipline \<Rightarrow> ('f, 'v) user \<Rightarrow> bool" where
  "user_typed D u \<longleftrightarrow> discipline_mono D \<and>
     (\<forall>\<Gamma> f \<tau>. ty_future D \<Gamma> f \<tau> \<longrightarrow>
        (\<forall>wk. prog_typed D (u_poll u f wk) (poll_typed D \<tau>) \<Gamma>) \<and>
        prog_typed D (u_drop u f) (\<lambda>_ _. True) \<Gamma>)"

text \<open>The state of a thread: every task and every handle has a type, and outputs are of it.\<close>

definition tasks_typed :: "('f, 'v, 'c) discipline \<Rightarrow> 'c typing_env \<Rightarrow> (nat \<rightharpoonup> ('f task_future, 'v) executor_task)
    \<Rightarrow> (nat \<rightharpoonup> nat) \<Rightarrow> nat \<Rightarrow> bool" where
  "tasks_typed D \<Gamma> ts hs n \<longleftrightarrow>
     (\<forall>a \<in> dom \<Gamma>. a < n) \<and>
     (\<forall>t k. ts t = Some k \<longrightarrow> (\<exists>\<tau>. \<Gamma> t = Some \<tau> \<and> ty_task_future D \<Gamma> (t_future k) \<tau> \<and>
        (\<forall>v. t_output k = Some v \<longrightarrow> ty_value D \<Gamma> v \<tau>))) \<and>
     (\<forall>h t. hs h = Some t \<longrightarrow> (\<exists>\<tau>. \<Gamma> h = Some \<tau> \<and> \<Gamma> t = Some \<tau>))"

definition world_typed :: "('f, 'v, 'c) discipline \<Rightarrow> 'c typing_env \<Rightarrow> ('k, 'f, 'v) sched \<Rightarrow> bool" where
  "world_typed D \<Gamma> w \<longleftrightarrow> tasks_typed D \<Gamma> (w_tasks w) (w_handles w) (w_next w)"

section \<open>Programs\<close>

lemma ty_task_future_simps [simp]:
  "ty_task_future D \<Gamma> (User f) \<tau> = ty_future D \<Gamma> f \<tau>"
  "ty_task_future D \<Gamma> (Checked f) \<tau> = ty_future D \<Gamma> f \<tau>"
  "ty_task_future D \<Gamma> CheckedDone \<tau>"
  by (simp_all add: ty_task_future_def)

lemma ty_task_future_mono:
  "discipline_mono D \<Longrightarrow> \<Gamma> \<subseteq>\<^sub>m \<Gamma>' \<Longrightarrow> ty_task_future D \<Gamma> fut \<tau> \<Longrightarrow> ty_task_future D \<Gamma>' fut \<tau>"
  by (auto simp: ty_task_future_def discipline_mono_def split: task_future.splits)

lemma ty_value_mono:
  "discipline_mono D \<Longrightarrow> \<Gamma> \<subseteq>\<^sub>m \<Gamma>' \<Longrightarrow> ty_value D \<Gamma> v \<tau> \<Longrightarrow> ty_value D \<Gamma>' v \<tau>"
  by (auto simp: discipline_mono_def)

lemma ty_future_mono:
  "discipline_mono D \<Longrightarrow> \<Gamma> \<subseteq>\<^sub>m \<Gamma>' \<Longrightarrow> ty_future D \<Gamma> f \<tau> \<Longrightarrow> ty_future D \<Gamma>' f \<tau>"
  by (auto simp: discipline_mono_def)

lemma prog_typed_bind:
  "prog_typed D (bind_prog p g) Q \<Gamma> \<longleftrightarrow> prog_typed D p (\<lambda>\<Gamma>' r. prog_typed D (g r) Q \<Gamma>') \<Gamma>"
  by (induction p arbitrary: \<Gamma>) auto

lemma prog_typed_conseq:
  "prog_typed D p Q \<Gamma> \<Longrightarrow> (\<And>\<Gamma>' r. \<Gamma> \<subseteq>\<^sub>m \<Gamma>' \<Longrightarrow> Q \<Gamma>' r \<Longrightarrow> Q' \<Gamma>' r) \<Longrightarrow> prog_typed D p Q' \<Gamma>"
proof (induction p arbitrary: \<Gamma>)
  case (Call c k)
  have "prog_typed D (k x) Q' \<Gamma>'" if "\<Gamma> \<subseteq>\<^sub>m \<Gamma>'" "reply_typed D \<Gamma>' c x" for x \<Gamma>'
    by (rule Call.IH) (use that Call.prems map_le_trans in \<open>simp, simp, blast\<close>)
  with Call.prems show ?case by simp
qed auto

section \<open>Outcomes\<close>

text \<open>\<open>grows \<Gamma> P r\<close>: if \<open>r\<close> has a value, it satisfies \<open>P\<close> with more handles than \<open>\<Gamma>\<close>.\<close>

definition grows :: "'c typing_env \<Rightarrow> ('c typing_env \<Rightarrow> 'a \<Rightarrow> bool) \<Rightarrow> 'a res \<Rightarrow> bool" where
  "grows \<Gamma> P r \<longleftrightarrow> (\<forall>y. r = Ok y \<longrightarrow> (\<exists>\<Gamma>'. \<Gamma> \<subseteq>\<^sub>m \<Gamma>' \<and> P \<Gamma>' y))"

lemma grows_Ok: "P \<Gamma> y \<Longrightarrow> grows \<Gamma> P (Ok y)"
  unfolding grows_def by (metis map_le_refl res.inject(1))

lemma grows_Fault [simp]: "grows \<Gamma> P (Fault e)"
  by (simp add: grows_def)

lemma grows_bind:
  "grows \<Gamma> P m \<Longrightarrow> (\<And>\<Gamma>' x. \<Gamma> \<subseteq>\<^sub>m \<Gamma>' \<Longrightarrow> P \<Gamma>' x \<Longrightarrow> grows \<Gamma>' Q (f x)) \<Longrightarrow> grows \<Gamma> Q (bind_res m f)"
  unfolding grows_def bind_res_Ok_iff by (metis map_le_trans)

lemma grows_conseq: "grows \<Gamma> P r \<Longrightarrow> (\<And>\<Gamma>' y. \<Gamma> \<subseteq>\<^sub>m \<Gamma>' \<Longrightarrow> P \<Gamma>' y \<Longrightarrow> Q \<Gamma>' y) \<Longrightarrow> grows \<Gamma> Q r"
  unfolding grows_def by blast

lemma growsI: "(\<And>y. r = Ok y \<Longrightarrow> P \<Gamma> y) \<Longrightarrow> grows \<Gamma> P r"
  unfolding grows_def by (metis map_le_refl)

abbreviation keeps_typed :: "('f, 'v, 'c) discipline \<Rightarrow> 'c typing_env \<Rightarrow> ('k, 'f, 'v) sched res \<Rightarrow> bool" where
  "keeps_typed D \<Gamma> \<equiv> grows \<Gamma> (world_typed D)"

section \<open>Operations that leave the tasks alone\<close>

definition task_frame :: "('k, 't, 'v) world \<Rightarrow> (nat \<rightharpoonup> ('t, 'v) executor_task) \<times> (nat \<rightharpoonup> nat) \<times> nat" where
  "task_frame w = (w_tasks w, w_handles w, w_next w)"

lemma task_frame_simps [simp]:
  "task_frame (w\<lparr>w_kernel := k\<rparr>) = task_frame w" "task_frame (w\<lparr>w_queue := q\<rparr>) = task_frame w"
  "task_frame (w\<lparr>w_exec := x\<rparr>) = task_frame w" "task_frame (w\<lparr>w_ews := e\<rparr>) = task_frame w"
  "task_frame (w\<lparr>w_fds := d\<rparr>) = task_frame w" "task_frame (w\<lparr>w_foreign := l\<rparr>) = task_frame w"
  "task_frame (arc_clone t w) = task_frame w" "task_frame (shutdown_exec w) = task_frame w"
  by (simp_all add: task_frame_def arc_clone_def shutdown_exec_def)

lemma world_typed_frame: "task_frame w' = task_frame w \<Longrightarrow> world_typed D \<Gamma> w' = world_typed D \<Gamma> w"
  by (simp add: task_frame_def world_typed_def)

lemma with_queue_tasks: "with_queue r w = Ok w' \<Longrightarrow> task_frame w' = task_frame w"
  by (auto simp: with_queue_def res_simps)

lemma weak_upgrade_tasks: "weak_upgrade t w = Some w' \<Longrightarrow> task_frame w' = task_frame w"
  by (auto simp: weak_upgrade_def split: if_splits)

lemma enqueue_tasks: "enqueue t w = Ok w' \<Longrightarrow> task_frame w' = task_frame w"
  by (auto simp: enqueue_def res_simps arc_forget_def split: if_splits dest: with_queue_tasks)

lemma wake_from_pipe_tasks: "wake_from_pipe S w = Ok (r, w') \<Longrightarrow> task_frame w' = task_frame w"
  by (auto simp: wake_from_pipe_def Let_def res_simps dest!: enqueue_tasks weak_upgrade_tasks
      split: prod.splits sum.splits if_splits option.splits)

lemma wake_from_event_tasks: "wake_from_event e w = Ok w' \<Longrightarrow> task_frame w' = task_frame w"
  by (auto simp: wake_from_event_def Let_def dest!: enqueue_tasks weak_upgrade_tasks
      split: option.splits if_splits waker.splits)

lemma handle_events_tasks: "handle_events S es w = Ok (r, w') \<Longrightarrow> task_frame w' = task_frame w"
proof (induction es arbitrary: w)
  case (Cons e es)
  show ?case
  proof (cases "ev_data e = 0")
    case True
    with Cons.prems obtain z w1 where z: "wake_from_pipe S w = Ok (z, w1)" by (auto simp: res_simps)
    with True Cons.prems Cons.IH [of w1] wake_from_pipe_tasks [OF z] show ?thesis by (cases z) auto
  next
    case False
    with Cons show ?thesis by (auto simp: res_simps dest: wake_from_event_tasks)
  qed
qed simp

lemma epoll_wait_tasks: "epoll_wait S tmo w = Ok (r, w') \<Longrightarrow> task_frame w' = task_frame w"
  by (auto simp: epoll_wait_def Let_def dest!: handle_events_tasks
      split: if_splits prod.splits wait_result.splits errno.splits)

lemma wake_task_tasks: "wake_task S t w = Ok w' \<Longrightarrow> task_frame w' = task_frame w"
  by (auto simp: wake_task_def res_simps arc_forget_def
      dest!: enqueue_tasks weak_upgrade_tasks epoll_wait_tasks with_queue_tasks
      split: option.splits if_splits prod.splits sum.splits errno.splits)

lemma wake_by_ref_tasks: "wake_by_ref S wk w = Ok w' \<Longrightarrow> task_frame w' = task_frame w"
  by (auto simp: wake_by_ref_def block_on_wake_def dest: wake_task_tasks
      split: waker.splits if_splits prod.splits sum.splits errno.splits)

lemma fd_poll_with_tasks: "fd_poll_with S f x wk w = Ok (r, w') \<Longrightarrow> task_frame w' = task_frame w"
  by (auto simp: fd_poll_with_def Let_def res_simps dest!: wake_by_ref_tasks
      split: option.splits prod.splits control_flow.splits)

lemma epoll_add_tasks: "epoll_add S fd e d w = (r, w') \<Longrightarrow> task_frame w' = task_frame w"
  by (auto simp: epoll_add_def Let_def split: prod.splits sum.splits)

lemma fd_release_tasks [simp]: "task_frame (fd_release S fd d w) = task_frame w"
  by (simp add: fd_release_def epoll_del_def Let_def split: prod.split sum.split)

lemma fd_drop_tasks [simp]: "task_frame (fd_drop S i w) = task_frame w"
  by (simp add: fd_drop_def Let_def split: option.split)

lemma highest_priority_tasks: "highest_priority_runnable_task w = Ok (r, w') \<Longrightarrow> task_frame w' = task_frame w"
  by (auto simp: highest_priority_runnable_task_def res_simps)

lemma executor_new_tasks: "executor_new S w = Ok (r, w') \<Longrightarrow>
    w_tasks w' = w_tasks w \<and> w_handles w' = w_handles w \<and> w_next w \<le> w_next w'"
  by (cases "init_queues (w_next w) (w_queue w)")
    (auto simp: executor_new_def Let_def split: prod.splits sum.splits)

lemma fd_new_tasks: "fd_new S fd ev w = (r, w') \<Longrightarrow>
    w_tasks w' = w_tasks w \<and> w_handles w' = w_handles w \<and> w_next w \<le> w_next w'"
proof -
  assume new: "fd_new S fd ev w = (r, w')"
  have add: "w_tasks w2 = w_tasks w1 \<and> w_handles w2 = w_handles w1 \<and> w_next w2 = w_next w1"
    if "epoll_add S fd e d w1 = (z, w2)" for e d z and w1 w2 :: "('a, 'b, 'c) world"
    using epoll_add_tasks [OF that] by (simp add: task_frame_def)
  have rel: "w_tasks (fd_release S fd d w2) = w_tasks w2" "w_handles (fd_release S fd d w2) = w_handles w2"
    "w_next (fd_release S fd d w2) = w_next w2" for d and w2 :: "('a, 'b, 'c) world"
    using fd_release_tasks [of S fd d w2] by (simp_all add: task_frame_def)
  show ?thesis
    using new by (auto simp: fd_new_def Let_def rel dest!: add split: prod.splits sum.splits)
qed

lemma world_typed_later:
  assumes "world_typed D \<Gamma> w" and "w_tasks w' = w_tasks w \<and> w_handles w' = w_handles w \<and> w_next w \<le> w_next w'"
  shows "world_typed D \<Gamma> w'"
  using assms by (simp add: world_typed_def tasks_typed_def) (meson order_less_le_trans)

section \<open>Changing one task\<close>

lemma task_typed:
  assumes "world_typed D \<Gamma> w" and "w_tasks w t = Some k"
  obtains \<tau> where "\<Gamma> t = Some \<tau>" "ty_task_future D \<Gamma> (t_future k) \<tau>" "\<And>v. t_output k = Some v \<Longrightarrow> ty_value D \<Gamma> v \<tau>"
  using assms unfolding world_typed_def tasks_typed_def by blast

lemma output_typed:
  assumes "world_typed D \<Gamma> w" and "w_tasks w t = Some k" and "\<Gamma> t = Some \<tau>" and "t_output k = Some v"
  shows "ty_value D \<Gamma> v \<tau>"
  by (rule task_typed [OF assms(1,2)]) (use assms(3,4) in auto)

lemma handle_typed:
  assumes "world_typed D \<Gamma> w" and "w_handles w h = Some t"
  obtains \<tau> where "\<Gamma> h = Some \<tau>" "\<Gamma> t = Some \<tau>"
  using assms unfolding world_typed_def tasks_typed_def by blast

lemma put_task_typed:
  assumes "world_typed D \<Gamma> w" and "\<Gamma> t = Some \<tau>" and "ty_task_future D \<Gamma> (t_future k) \<tau>"
    and "\<And>v. t_output k = Some v \<Longrightarrow> ty_value D \<Gamma> v \<tau>"
  shows "world_typed D \<Gamma> (put_task t k w)"
  using assms by (simp add: world_typed_def tasks_typed_def put_task_def)

lemma same_task_typed:
  assumes "world_typed D \<Gamma> w" and "w_tasks w t = Some k" and "t_future k' = t_future k"
    and "t_output k' = t_output k \<or> t_output k' = None"
  shows "world_typed D \<Gamma> (put_task t k' w)"
  by (rule task_typed [OF assms(1,2)]) (rule put_task_typed [OF assms(1)], use assms(3,4) in auto)

lemma remove_task_typed: "world_typed D \<Gamma> w \<Longrightarrow> world_typed D \<Gamma> (w\<lparr>w_queue := q, w_tasks := (w_tasks w)(t := None)\<rparr>)"
  by (simp add: world_typed_def tasks_typed_def)

lemma remove_handle_typed: "world_typed D \<Gamma> w \<Longrightarrow> world_typed D \<Gamma> (w\<lparr>w_handles := (w_handles w)(h := None)\<rparr>)"
  by (simp add: world_typed_def tasks_typed_def)

lemma frame_typed: "world_typed D \<Gamma> w \<Longrightarrow> task_frame w' = task_frame w \<Longrightarrow> world_typed D \<Gamma> w'"
  using world_typed_frame by blast

lemma spawn_task_typed:
  assumes M: "discipline_mono D" and W: "world_typed D \<Gamma> w" and F: "ty_task_future D \<Gamma> f \<tau>"
  shows "grows \<Gamma> (\<lambda>\<Gamma>' (h, w'). world_typed D \<Gamma>' w' \<and> \<Gamma>' h = Some \<tau> \<and> \<Gamma> \<subseteq>\<^sub>m \<Gamma>') (spawn_task f p md w)"
  unfolding grows_def
proof (intro allI impI)
  fix y assume y: "spawn_task f p md w = Ok y"
  let ?t = "w_next w" and ?k = "executor_task_new (x_pipe_wr (w_exec w)) f p md"
  let ?\<Gamma> = "\<Gamma>(?t \<mapsto> \<tau>, Suc ?t \<mapsto> \<tau>)"
  from y obtain w2 where w2: "task_frame w2 = ((w_tasks w)(?t \<mapsto> ?k), w_handles w, Suc (Suc ?t))"
    "y = (Suc ?t, w2\<lparr>w_handles := (w_handles w2)(Suc ?t \<mapsto> ?t)\<rparr>)"
    by (auto simp: spawn_task_def Let_def res_simps task_frame_def arc_clone_def dest!: enqueue_tasks)
  have fresh: "\<Gamma> a = None" if "?t \<le> a" for a
    using W that unfolding world_typed_def tasks_typed_def by (metis domIff leD)
  then have sub: "\<Gamma> \<subseteq>\<^sub>m ?\<Gamma>" by (auto simp: map_le_def dom_def)
  have "world_typed D ?\<Gamma> (snd y)"
    unfolding world_typed_def tasks_typed_def
  proof (intro conjI allI impI ballI)
    fix a assume "a \<in> dom ?\<Gamma>"
    then have "a < ?t \<or> a = ?t \<or> a = Suc ?t"
      using W by (auto simp: world_typed_def tasks_typed_def split: if_splits)
    then show "a < w_next (snd y)" using w2 by (auto simp: task_frame_def)
  next
    fix t k assume t: "w_tasks (snd y) t = Some k"
    show "\<exists>\<tau>. ?\<Gamma> t = Some \<tau> \<and> ty_task_future D ?\<Gamma> (t_future k) \<tau> \<and> (\<forall>v. t_output k = Some v \<longrightarrow> ty_value D ?\<Gamma> v \<tau>)"
    proof (cases "t = ?t")
      case True
      with t w2 have "k = ?k" by (simp add: task_frame_def)
      with True ty_task_future_mono [OF M sub F] show ?thesis by (simp add: executor_task_new_def)
    next
      case False
      with t w2 have "w_tasks w t = Some k" by (simp add: task_frame_def)
      from task_typed [OF W this] obtain \<sigma> where s: "\<Gamma> t = Some \<sigma>" "ty_task_future D \<Gamma> (t_future k) \<sigma>"
        "\<forall>v. t_output k = Some v \<longrightarrow> ty_value D \<Gamma> v \<sigma>" by metis
      then have "?\<Gamma> t = Some \<sigma>" using sub by (metis domI map_le_def)
      with s show ?thesis using ty_task_future_mono [OF M sub] ty_value_mono [OF M sub] by blast
    qed
  next
    fix h t assume h: "w_handles (snd y) h = Some t"
    show "\<exists>\<tau>. ?\<Gamma> h = Some \<tau> \<and> ?\<Gamma> t = Some \<tau>"
    proof (cases "h = Suc ?t")
      case True
      with h w2 show ?thesis by simp
    next
      case False
      with h w2 have "w_handles w h = Some t" by (simp add: task_frame_def)
      then obtain \<sigma> where "\<Gamma> h = Some \<sigma>" "\<Gamma> t = Some \<sigma>" by (rule handle_typed [OF W])
      then show ?thesis using sub by (metis domI map_le_def)
    qed
  qed
  then show "\<exists>\<Gamma>'. \<Gamma> \<subseteq>\<^sub>m \<Gamma>' \<and> (case y of (h, w') \<Rightarrow> world_typed D \<Gamma>' w' \<and> \<Gamma>' h = Some \<tau> \<and> \<Gamma> \<subseteq>\<^sub>m \<Gamma>')"
    using sub w2(2) by (intro exI [of _ ?\<Gamma>]) simp
qed

section \<open>The contract\<close>

abbreviation typed_result :: "('f, 'v, 'c) discipline \<Rightarrow> ('c typing_env \<Rightarrow> 'r \<Rightarrow> bool) \<Rightarrow> 'c typing_env
    \<Rightarrow> 'r \<times> ('k, 'f, 'v) sched \<Rightarrow> bool" where
  "typed_result D Q \<equiv> (\<lambda>\<Gamma> (r, w). world_typed D \<Gamma> w \<and> Q \<Gamma> r)"

abbreviation typed_state :: "('f, 'v, 'c) discipline \<Rightarrow> 'c typing_env \<Rightarrow> 'r \<times> ('k, 'f, 'v) sched \<Rightarrow> bool" where
  "typed_state D \<equiv> (\<lambda>\<Gamma> (r, w). world_typed D \<Gamma> w)"

lemma typed_Ok [intro]:
  "world_typed D \<Gamma> w \<Longrightarrow> grows \<Gamma> (typed_state D) (Ok (r, w))"
  "world_typed D \<Gamma> w \<Longrightarrow> Q \<Gamma> r \<Longrightarrow> grows \<Gamma> (typed_result D Q) (Ok (r, w))"
  by (auto intro: grows_Ok)

locale typed_calls =
  fixes cs :: "('k, 'f, 'v) calls" and D :: "('f, 'v, 'c) discipline" and u :: "('f, 'v) user"
  assumes call_law: "user_typed D u \<Longrightarrow> world_typed D \<Gamma> w \<Longrightarrow> call_typed D \<Gamma> c \<Longrightarrow>
    grows \<Gamma> (typed_result D (\<lambda>\<Gamma>'. reply_typed D \<Gamma>' c)) (cs c w)"
begin

lemma interp_typed:
  assumes "user_typed D u" "world_typed D \<Gamma> w" "prog_typed D p Q \<Gamma>"
  shows "grows \<Gamma> (typed_result D Q) (interp cs p w)"
  using assms(2,3)
proof (induction p arbitrary: \<Gamma> w)
  case (Call c k)
  show ?case
    unfolding interp.simps
  proof (rule grows_bind [OF call_law [OF assms(1) Call.prems(1)]], goal_cases)
    case (2 \<Gamma>' x)
    then show ?case using Call.IH [of "k (fst x)" \<Gamma>' "snd x"] Call.prems(2) by (auto simp: split_def)
  qed (use Call.prems(2) in simp)
qed (auto intro: grows_Ok)

lemma drop_future_typed:
  assumes U: "user_typed D u" and W: "world_typed D \<Gamma> w" and F: "ty_task_future D \<Gamma> fut \<tau>"
  shows "grows \<Gamma> (typed_state D) (interp cs (drop_future u fut) w)"
proof -
  have "prog_typed D (drop_future u fut) (\<lambda>_ _. True) \<Gamma>"
    using U F by (cases fut) (auto simp: user_typed_def drop_future_def)
  from interp_typed [OF U W this] show ?thesis by (rule grows_conseq) auto
qed

lemma poll_future_typed:
  assumes U: "user_typed D u" and W: "world_typed D \<Gamma> w" and F: "ty_task_future D \<Gamma> fut \<tau>"
  shows "grows \<Gamma> (typed_result D (\<lambda>\<Gamma>' (f1, r). ty_task_future D \<Gamma>' f1 \<tau> \<and> (\<forall>v. r = Ready v \<longrightarrow> ty_value D \<Gamma>' v \<tau>)))
    (poll_future cs u fut wk w)"
proof (cases fut)
  case (User f)
  with F U have "prog_typed D (u_poll u f wk) (poll_typed D \<tau>) \<Gamma>"
    by (simp add: ty_task_future_def user_typed_def)
  from interp_typed [OF U W this] show ?thesis
    unfolding poll_future_def User task_future.case
    by (rule grows_bind) (auto intro!: grows_Ok simp: poll_typed_def)
next
  case (Checked f)
  with F U have "prog_typed D (u_poll u f wk) (poll_typed D \<tau>) \<Gamma>"
    by (simp add: ty_task_future_def user_typed_def)
  note P = interp_typed [OF U W this]
  have M: "discipline_mono D" using U by (simp add: user_typed_def)
  have checked: "grows \<Gamma>1 (typed_result D (\<lambda>\<Gamma>' (f1, r). ty_task_future D \<Gamma>' f1 \<tau> \<and> (\<forall>v. r = Ready v \<longrightarrow> ty_value D \<Gamma>' v \<tau>)))
      (bind_res (interp cs (u_drop u f1) w1) (\<lambda>(_, w2).
        Ok ((CheckedDone, Ready v), if u_is_err u v then shutdown_exec w2 else w2)))"
    if "world_typed D \<Gamma>1 w1" "ty_future D \<Gamma>1 f1 \<tau>" "ty_value D \<Gamma>1 v \<tau>" for \<Gamma>1 f1 v and w1 :: "('k, 'f, 'v) sched"
  proof -
    have "prog_typed D (u_drop u f1) (\<lambda>_ _. True) \<Gamma>1" using U that(2) by (auto simp: user_typed_def)
    from interp_typed [OF U that(1) this] show ?thesis
    proof (rule grows_bind, goal_cases)
      case (1 \<Gamma>2 x)
      then have "world_typed D \<Gamma>2 (shutdown_exec (snd x))" by (auto intro: frame_typed)
      with 1 ty_value_mono [OF M 1(1) that(3)] show ?case
        by (auto intro!: grows_Ok)
    qed
  qed
  show ?thesis
    unfolding poll_future_def Checked task_future.case
    by (rule grows_bind [OF P])
      (auto intro!: grows_Ok checked simp: poll_typed_def split: poll.split)
qed (simp add: poll_future_def)

lemma drop_task_typed:
  assumes U: "user_typed D u" and W: "world_typed D \<Gamma> w"
  shows "keeps_typed D \<Gamma> (drop_task cs u t w)"
  unfolding drop_task_def
proof (rule grows_bind [of \<Gamma> "world_typed D"], goal_cases)
  case 1
  show ?case by (rule growsI) (auto simp: arc_forget_def intro: frame_typed [OF W] with_queue_tasks)
next
  case (2 \<Gamma>1 w1)
  show ?case
  proof (cases "w_tasks w1 t")
    case (Some k)
    obtain \<tau> where \<tau>: "ty_task_future D \<Gamma>1 (t_future k) \<tau>" using task_typed [OF 2(2) Some] by metis
    let ?w2 = "w1\<lparr>w_queue := entry_free (TEntry t) (w_queue w1), w_tasks := (w_tasks w1)(t := None)\<rparr>"
    have "keeps_typed D \<Gamma>1 (bind_res (interp cs (drop_future u (t_future k)) ?w2) (\<lambda>(_, w3). Ok w3))"
      by (rule grows_bind [OF drop_future_typed [OF U remove_task_typed [OF 2(2)] \<tau>]]) (auto intro: grows_Ok)
    with Some 2(2) show ?thesis by (auto simp: get_task_def Let_def intro: grows_Ok)
  qed (use 2(2) in \<open>auto simp: get_task_def intro: grows_Ok\<close>)
qed

lemma run_task_typed:
  assumes U: "user_typed D u" and W: "world_typed D \<Gamma> w"
  shows "keeps_typed D \<Gamma> (run_task cs S u t w)"
proof (cases "w_tasks w t")
  case (Some k)
  obtain \<tau> where \<tau>: "\<Gamma> t = Some \<tau>" "ty_task_future D \<Gamma> (t_future k) \<tau>" using task_typed [OF W Some] by metis
  have "world_typed D \<Gamma> (put_task t (k\<lparr>t_borrowed := True\<rparr>) w)"
    by (rule same_task_typed [OF W Some]) simp_all
  note P = poll_future_typed [OF U this \<tau>(2)]
  show ?thesis
  proof (cases "t_borrowed k")
    case False
    show ?thesis
      unfolding run_task_def get_task_Ok [OF Some] bind_res.simps if_not_P [OF False]
    proof (rule grows_bind [OF P], clarify)
      fix \<Gamma>1 f1 r and w1 :: "('k, 'f, 'v) sched"
      assume L: "\<Gamma> \<subseteq>\<^sub>m \<Gamma>1" and W1: "world_typed D \<Gamma>1 w1" and F: "ty_task_future D \<Gamma>1 f1 \<tau>"
        and V: "\<forall>v. r = Ready v \<longrightarrow> ty_value D \<Gamma>1 v \<tau>"
      have t1: "\<Gamma>1 t = Some \<tau>" using L \<tau>(1) by (metis domI map_le_def)
      show "keeps_typed D \<Gamma>1 (bind_res (get_task t w1) (\<lambda>k1. case r of
          Pending \<Rightarrow>
            let w2 = put_task t (k1\<lparr>t_future := f1, t_borrowed := False\<rparr>) w1
            in bind_res (task_is_queued t w2) (\<lambda>q.
                 if \<not> q then sleep_task t w2 else drop_task cs u t w2)
        | Ready v \<Rightarrow>
            let w2 = put_task t (k1\<lparr>t_future := f1, t_output := Some v, t_handle_waker := NoopWaker\<rparr>) w1
            in bind_res (wake_by_ref S (t_handle_waker k1) w2) (\<lambda>w3.
               bind_res (get_task t w3) (\<lambda>k3.
                 drop_task cs u t (put_task t (k3\<lparr>t_has_completed := True, t_borrowed := False\<rparr>) w3)))))"
      proof (cases "w_tasks w1 t")
        case k1: (Some k1)
        show ?thesis
        proof (cases r)
          case Pending
          let ?w2 = "put_task t (k1\<lparr>t_future := f1, t_borrowed := False\<rparr>) w1"
          have W2: "world_typed D \<Gamma>1 ?w2"
            by (intro put_task_typed [OF W1 t1]) (use F output_typed [OF W1 k1 t1] in auto)
          have "keeps_typed D \<Gamma>1 (sleep_task t ?w2)"
            by (rule growsI) (auto simp: sleep_task_def intro: frame_typed [OF W2] with_queue_tasks)
          with drop_task_typed [OF U W2] Pending k1 show ?thesis
            by (cases "task_is_queued t ?w2") (simp_all add: get_task_def Let_def)
        next
          case (Ready v)
          let ?w2 = "put_task t (k1\<lparr>t_future := f1, t_output := Some v, t_handle_waker := NoopWaker\<rparr>) w1"
          have W2: "world_typed D \<Gamma>1 ?w2"
            by (rule put_task_typed [OF W1 t1]) (use F V Ready in auto)
          have "keeps_typed D \<Gamma>1 (bind_res (get_task t w3) (\<lambda>k3.
              drop_task cs u t (put_task t (k3\<lparr>t_has_completed := True, t_borrowed := False\<rparr>) w3)))"
            if w3: "wake_by_ref S (t_handle_waker k1) ?w2 = Ok w3" for w3
          proof -
            have W3: "world_typed D \<Gamma>1 w3" by (rule frame_typed [OF W2 wake_by_ref_tasks [OF w3]])
            show ?thesis
            proof (cases "w_tasks w3 t")
              case k3: (Some k3)
              have "world_typed D \<Gamma>1 (put_task t (k3\<lparr>t_has_completed := True, t_borrowed := False\<rparr>) w3)"
                by (rule same_task_typed [OF W3 k3]) simp_all
              from drop_task_typed [OF U this] k3 show ?thesis by (simp add: get_task_def)
            qed (simp add: get_task_def)
          qed
          with Ready k1 show ?thesis
            by (cases "wake_by_ref S (t_handle_waker k1) ?w2") (simp_all add: get_task_def Let_def)
        qed
      qed (simp add: get_task_def)
    qed
  qed (use Some in \<open>simp add: run_task_def get_task_def\<close>)
qed (simp add: run_task_def get_task_def)

lemma run_entry_typed:
  "user_typed D u \<Longrightarrow> world_typed D \<Gamma> w \<Longrightarrow> keeps_typed D \<Gamma> (run_entry cs S u e w)"
  by (cases e) (simp_all add: run_entry_def run_task_typed)

lemma drain_queue_typed:
  assumes U: "user_typed D u"
  shows "world_typed D \<Gamma> w \<Longrightarrow> keeps_typed D \<Gamma> (drain_queue cs u n h w)"
proof (induction n arbitrary: \<Gamma> w)
  case (Suc n)
  have W: "world_typed D \<Gamma> (w\<lparr>w_queue := q\<rparr>)" for q by (rule frame_typed [OF Suc.prems]) simp
  show ?case
  proof (cases "pop h (w_queue w)")
    case (Ok z)
    have "keeps_typed D \<Gamma> (bind_res (drop_task cs u t (w\<lparr>w_queue := snd z\<rparr>)) (drain_queue cs u n h))" for t
      by (rule grows_bind [OF drop_task_typed [OF U W]]) (rule Suc.IH)
    with Ok W show ?thesis by (auto simp: split_def intro: grows_Ok split: option.split ptr.split)
  qed simp
qed simp

lemma drop_executor_typed:
  assumes U: "user_typed D u" and W: "world_typed D \<Gamma> w"
  shows "keeps_typed D \<Gamma> (drop_executor cs S u n old w)"
  unfolding drop_executor_def
  by (intro grows_bind [of _ "world_typed D"] drain_queue_typed [OF U] grows_Ok)
    (auto intro: frame_typed [OF W] elim!: frame_typed)

text \<open>Waiting for events changes no task.\<close>

lemma epoll_wait_typed:
  "world_typed D \<Gamma> w \<Longrightarrow> grows \<Gamma> (typed_state D) (epoll_wait S tmo w)"
  by (rule growsI) (auto intro: frame_typed dest: epoll_wait_tasks)

lemma unwrap_typed:
  "typed_state D \<Gamma> z \<Longrightarrow> keeps_typed D \<Gamma> (unwrap z)"
  by (auto simp: unwrap_def intro: grows_Ok split: sum.split)

lemma highest_priority_typed:
  "world_typed D \<Gamma> w \<Longrightarrow> grows \<Gamma> (typed_state D) (highest_priority_runnable_task w)"
  by (rule growsI) (auto intro: frame_typed dest: highest_priority_tasks)

lemma run_loop_typed:
  assumes U: "user_typed D u"
  shows "world_typed D \<Gamma> w \<Longrightarrow> grows \<Gamma> (typed_state D) (run_loop cs S u n w)"
proof (induction n arbitrary: \<Gamma> w)
  case (Suc n)
  have wait: "grows \<Gamma>1 (typed_state D) (bind_res (epoll_wait S tmo w1) (\<lambda>(z, w2). case z of
      Inl err \<Rightarrow> Ok (Inl err, w2) | Inr _ \<Rightarrow> run_loop cs S u n w2))"
    if "world_typed D \<Gamma>1 w1" for \<Gamma>1 w1 tmo
    by (rule grows_bind [OF epoll_wait_typed [OF that]]) (auto intro: Suc.IH grows_Ok split: sum.split)
  have task: "grows \<Gamma>1 (typed_state D) (bind_res (run_entry cs S u e w1) (\<lambda>w2.
      if x_shutdown (w_exec w2) then Ok (Inr (), w2)
      else bind_res (epoll_wait S TimeoutZero w2) (\<lambda>(z, w3). case z of
        Inl err \<Rightarrow> Ok (Inl err, w3) | Inr _ \<Rightarrow> run_loop cs S u n w3)))"
    if "world_typed D \<Gamma>1 w1" for \<Gamma>1 w1 e
    by (rule grows_bind [OF run_entry_typed [OF U that]]) (use wait in \<open>auto intro: grows_Ok\<close>)
  have idle: "grows \<Gamma>1 (typed_state D) (bind_res (sleepq_is_empty w1) (\<lambda>empty.
      if empty then Ok (Inr (), w1)
      else bind_res (epoll_wait S TimeoutNone w1) (\<lambda>(z, w2). case z of
        Inl err \<Rightarrow> Ok (Inl err, w2) | Inr _ \<Rightarrow> run_loop cs S u n w2)))"
    if "world_typed D \<Gamma>1 w1" for \<Gamma>1 w1
    using wait [OF that] that by (cases "sleepq_is_empty w1") (auto intro: grows_Ok)
  show ?case
    unfolding run_loop.simps
    by (rule grows_bind [OF highest_priority_typed [OF Suc.prems]]) (use task idle in \<open>auto split: option.split\<close>)
qed simp

lemma run_typed:
  assumes U: "user_typed D u" and W: "world_typed D \<Gamma> w"
  shows "grows \<Gamma> (typed_state D) (run cs S u n w)"
  unfolding run_def
proof (rule grows_bind [OF run_loop_typed [OF U W]], clarify)
  fix \<Gamma>1 r and w1 :: "('k, 'f, 'v) sched" assume W1: "world_typed D \<Gamma>1 w1"
  have new: "grows \<Gamma>1 (typed_state D) (executor_new S w1)"
    by (rule growsI) (use world_typed_later [OF W1 executor_new_tasks] in auto)
  have drop: "grows \<Gamma>2 (typed_state D)
      (bind_res (drop_executor cs S u n (w_exec w2) (w2\<lparr>w_exec := x\<rparr>)) (\<lambda>w3. Ok (Inr (), w3)))"
    if "world_typed D \<Gamma>2 w2" for \<Gamma>2 w2 x
  proof -
    have "world_typed D \<Gamma>2 (w2\<lparr>w_exec := x\<rparr>)" by (rule frame_typed [OF that]) simp
    from drop_executor_typed [OF U this] show ?thesis by (rule grows_bind) (auto intro: grows_Ok)
  qed
  have "grows \<Gamma>1 (typed_state D) (bind_res (executor_new S w1) (\<lambda>(x, w2). case x of
      Inl err \<Rightarrow> Ok (Inl err, w2)
    | Inr new \<Rightarrow> bind_res (drop_executor cs S u n (w_exec w2) (w2\<lparr>w_exec := new\<rparr>)) (\<lambda>w3. Ok (Inr (), w3))))"
    by (rule grows_bind [OF new]) (auto intro!: drop split: sum.split)
  with W1 show "grows \<Gamma>1 (typed_state D) (case r of
      Inl err \<Rightarrow> Ok (Inl err, w1)
    | Inr _ \<Rightarrow> bind_res (executor_new S w1) (\<lambda>(x, w2). case x of
        Inl err \<Rightarrow> Ok (Inl err, w2)
      | Inr new \<Rightarrow> bind_res (drop_executor cs S u n (w_exec w2) (w2\<lparr>w_exec := new\<rparr>)) (\<lambda>w3. Ok (Inr (), w3))))"
    by (auto intro: grows_Ok split: sum.split)
qed

lemma block_on_loop_typed:
  assumes U: "user_typed D u"
  shows "world_typed D \<Gamma> w \<Longrightarrow> ty_future D \<Gamma> f \<tau> \<Longrightarrow>
    grows \<Gamma> (typed_result D (\<lambda>\<Gamma>' v. ty_value D \<Gamma>' v \<tau>)) (block_on_loop cs S u n wk f w)"
proof (induction n arbitrary: \<Gamma> w f)
  case (Suc n)
  have M: "discipline_mono D" using U by (simp add: user_typed_def)
  have wait: "grows \<Gamma>1 (typed_result D (\<lambda>\<Gamma>' v. ty_value D \<Gamma>' v \<tau>))
      (bind_res (bind_res (epoll_wait S tmo w1) unwrap) (block_on_loop cs S u n wk f1))"
    if "world_typed D \<Gamma>1 w1" "ty_future D \<Gamma>1 f1 \<tau>" for \<Gamma>1 w1 tmo f1
    by (rule grows_bind [OF grows_bind [OF epoll_wait_typed [OF that(1)] unwrap_typed] Suc.IH])
      (use ty_future_mono [OF M _ that(2)] in auto)
  have rest: "grows \<Gamma>1 (typed_result D (\<lambda>\<Gamma>' v. ty_value D \<Gamma>' v \<tau>))
      (bind_res (highest_priority_runnable_task w1) (\<lambda>(t, w2). case t of
         Some e \<Rightarrow> bind_res (run_entry cs S u e w2) (\<lambda>w3.
           bind_res (bind_res (epoll_wait S TimeoutZero w3) unwrap) (block_on_loop cs S u n wk f1))
       | None \<Rightarrow> bind_res (bind_res (epoll_wait S TimeoutNone w2) unwrap) (block_on_loop cs S u n wk f1)))"
    if W1: "world_typed D \<Gamma>1 w1" and F1: "ty_future D \<Gamma>1 f1 \<tau>" for \<Gamma>1 w1 f1
  proof (rule grows_bind [OF highest_priority_typed [OF W1]], clarify)
    fix \<Gamma>2 e and w2 :: "('k, 'f, 'v) sched" assume L: "\<Gamma>1 \<subseteq>\<^sub>m \<Gamma>2" and W2: "world_typed D \<Gamma>2 w2"
    note F2 = ty_future_mono [OF M L F1]
    have "grows \<Gamma>2 (typed_result D (\<lambda>\<Gamma>' v. ty_value D \<Gamma>' v \<tau>)) (bind_res (run_entry cs S u e' w2) (\<lambda>w3.
        bind_res (bind_res (epoll_wait S TimeoutZero w3) unwrap) (block_on_loop cs S u n wk f1)))" for e'
      by (rule grows_bind [OF run_entry_typed [OF U W2] wait]) (use ty_future_mono [OF M _ F2] in auto)
    with wait [OF W2 F2] show "grows \<Gamma>2 (typed_result D (\<lambda>\<Gamma>' v. ty_value D \<Gamma>' v \<tau>)) (case e of
         Some e \<Rightarrow> bind_res (run_entry cs S u e w2) (\<lambda>w3.
           bind_res (bind_res (epoll_wait S TimeoutZero w3) unwrap) (block_on_loop cs S u n wk f1))
       | None \<Rightarrow> bind_res (bind_res (epoll_wait S TimeoutNone w2) unwrap) (block_on_loop cs S u n wk f1))"
      by (simp split: option.split)
  qed
  have finish: "grows \<Gamma>1 (typed_result D (\<lambda>\<Gamma>' v. ty_value D \<Gamma>' v \<tau>))
      (bind_res (interp cs (u_drop u f1) w1) (\<lambda>(_, w2). Ok (v, w2)))"
    if W1: "world_typed D \<Gamma>1 w1" and F1: "ty_future D \<Gamma>1 f1 \<tau>" and V: "ty_value D \<Gamma>1 v \<tau>" for \<Gamma>1 w1 f1 v
  proof -
    have "prog_typed D (u_drop u f1) (\<lambda>_ _. True) \<Gamma>1" using U F1 by (auto simp: user_typed_def)
    from interp_typed [OF U W1 this] show ?thesis
      by (rule grows_bind) (use ty_value_mono [OF M _ V] in auto)
  qed
  have "prog_typed D (u_poll u f wk) (poll_typed D \<tau>) \<Gamma>" using U Suc.prems(2) by (simp add: user_typed_def)
  from interp_typed [OF U Suc.prems(1) this] show ?case
    unfolding block_on_loop.simps
    by (rule grows_bind) (auto simp: poll_typed_def intro!: finish rest split: poll.split)
qed simp

lemma handle_result_typed:
  assumes W: "world_typed D \<Gamma> w" and h: "w_handles w h = Some t"
  shows "grows \<Gamma> (typed_result D (\<lambda>\<Gamma>' r. \<Gamma>' = \<Gamma> \<and> (\<forall>v. r = Some v \<longrightarrow> value_of_handle D \<Gamma>' h v))) (handle_result t w)"
proof (cases "w_tasks w t")
  case (Some k)
  obtain \<tau> where \<tau>: "\<Gamma> h = Some \<tau>" "\<Gamma> t = Some \<tau>" by (rule handle_typed [OF W h])
  have "world_typed D \<Gamma> (put_task t (k\<lparr>t_output := None\<rparr>) w)" by (rule same_task_typed [OF W Some]) simp_all
  with Some \<tau>(1) output_typed [OF W Some \<tau>(2)] show ?thesis
    by (auto simp: handle_result_def get_task_def value_of_handle_def)
qed (simp add: handle_result_def get_task_def)

lemma handle_poll_typed:
  assumes W: "world_typed D \<Gamma> w" and h: "w_handles w h = Some t"
  shows "grows \<Gamma> (typed_result D (\<lambda>\<Gamma>' p. \<forall>v. p = Ready v \<longrightarrow> value_of_handle D \<Gamma>' h v)) (handle_poll t wk w)"
  unfolding handle_poll_def
proof (rule grows_bind [OF handle_result_typed [OF W h]], clarify)
  fix r w1 assume W1: "world_typed D \<Gamma> w1" and r: "\<forall>v. r = Some v \<longrightarrow> value_of_handle D \<Gamma> h v"
  have "world_typed D \<Gamma> (put_task t (k\<lparr>t_handle_waker := waker_clone wk w1\<rparr>) w1)" if "w_tasks w1 t = Some k" for k
    by (rule same_task_typed [OF W1 that]) simp_all
  with W1 r show "grows \<Gamma> (typed_result D (\<lambda>\<Gamma>' p. \<forall>v. p = Ready v \<longrightarrow> value_of_handle D \<Gamma>' h v)) (case r of
      Some v \<Rightarrow> Ok (Ready v, w1)
    | None \<Rightarrow> bind_res (get_task t w1) (\<lambda>k. Ok (Pending, put_task t (k\<lparr>t_handle_waker := waker_clone wk w1\<rparr>) w1)))"
    by (cases "w_tasks w1 t") (auto simp: get_task_def split: option.split)
qed

lemma handle_abort_typed:
  "world_typed D \<Gamma> w \<Longrightarrow> keeps_typed D \<Gamma> (handle_abort t w)"
  by (rule growsI)
    (auto simp: handle_abort_def abort_task_def intro: frame_typed dest!: with_queue_tasks)

lemma with_handle_typed:
  assumes "world_typed D \<Gamma> w" and "Q \<Gamma> RUnit"
    and "\<And>t. w_handles w h = Some t \<Longrightarrow> grows \<Gamma> (typed_result D Q) (f t)"
  shows "grows \<Gamma> (typed_result D Q) (with_handle h w f)"
  using assms by (auto simp: with_handle_def split: option.split)

lemma call_body_typed:
  assumes U: "user_typed D u" and W: "world_typed D \<Gamma> w" and C: "call_typed D \<Gamma> c"
  shows "grows \<Gamma> (typed_result D (\<lambda>\<Gamma>'. reply_typed D \<Gamma>' c)) (call_body cs S u n c w)"
proof -
  have M: "discipline_mono D" using U by (simp add: user_typed_def)
  have spawn: "grows \<Gamma> (typed_result D (\<lambda>\<Gamma>' x. \<exists>h \<tau>. x = RHandle h \<and> \<Gamma>' h = Some \<tau> \<and> ty_future D \<Gamma>' f \<tau>))
      (bind_res (spawn_task fut p md w) (\<lambda>(h, w1). Ok (RHandle h, w1)))"
    if F: "ty_future D \<Gamma> f \<tau>" and fut: "fut = User f \<or> fut = Checked f" for f fut p md \<tau>
  proof -
    from F fut have "ty_task_future D \<Gamma> fut \<tau>" by auto
    from spawn_task_typed [OF M W this] show ?thesis
      by (rule grows_bind) (use ty_future_mono [OF M _ F] in \<open>auto intro!: typed_Ok\<close>)
  qed
  show ?thesis
  proof (cases c)
    case (CSpawn b)
    with C obtain \<tau> where "ty_future D \<Gamma> (b_future b) \<tau>" by auto
    from spawn [OF this disjI1 [OF refl]] show ?thesis by (simp add: CSpawn spawn_def into_parts_def)
  next
    case (CSpawnChecked b)
    with C obtain \<tau> where "ty_future D \<Gamma> (b_future b) \<tau>" by auto
    from spawn [OF this disjI2 [OF refl]] show ?thesis by (simp add: CSpawnChecked spawn_checked_def into_parts_def)
  next
    case (CWake wk)
    have "keeps_typed D \<Gamma> (wake_by_ref S wk w)"
      by (rule growsI) (auto intro: frame_typed [OF W] wake_by_ref_tasks)
    then show ?thesis unfolding CWake call_body.simps by (rule grows_bind) auto
  next
    case (CHandleResult h)
    have "grows \<Gamma> (typed_result D (\<lambda>\<Gamma>'. reply_typed D \<Gamma>' c))
        (bind_res (handle_result t w) (\<lambda>(r, w1). Ok (RResult r, w1)))" if "w_handles w h = Some t" for t
      by (rule grows_bind [OF handle_result_typed [OF W that]]) (use CHandleResult in auto)
    then show ?thesis using CHandleResult W by (auto intro!: with_handle_typed)
  next
    case (CHandlePoll h wk)
    have "grows \<Gamma> (typed_result D (\<lambda>\<Gamma>'. reply_typed D \<Gamma>' c))
        (bind_res (handle_poll t wk w) (\<lambda>(r, w1). Ok (RPoll r, w1)))" if "w_handles w h = Some t" for t
      by (rule grows_bind [OF handle_poll_typed [OF W that]]) (use CHandlePoll in auto)
    then show ?thesis using CHandlePoll W by (auto intro!: with_handle_typed)
  next
    case (CHandleAbort h)
    have "grows \<Gamma> (typed_result D (\<lambda>\<Gamma>'. reply_typed D \<Gamma>' c))
        (bind_res (handle_abort t w) (\<lambda>w1. Ok (RUnit, w1)))" for t
      by (rule grows_bind [OF handle_abort_typed [OF W]]) (use CHandleAbort in auto)
    then show ?thesis using CHandleAbort W by (auto intro!: with_handle_typed)
  next
    case (CHandleName h)
    have "grows \<Gamma> (typed_result D (\<lambda>\<Gamma>'. reply_typed D \<Gamma>' c)) (bind_res (handle_name t w) (\<lambda>s. Ok (RName s, w)))" for t
      using W by (cases "handle_name t w") (auto simp: CHandleName)
    then show ?thesis using CHandleName W by (auto intro!: with_handle_typed)
  next
    case (CHandleDrop h)
    have "grows \<Gamma> (typed_result D (\<lambda>\<Gamma>'. reply_typed D \<Gamma>' c))
        (bind_res (handle_drop cs u h t w) (\<lambda>w1. Ok (RUnit, w1)))" for t
      unfolding handle_drop_def
      by (rule grows_bind [OF drop_task_typed [OF U remove_handle_typed [OF W]]]) (use CHandleDrop in auto)
    then show ?thesis using CHandleDrop W by (auto intro!: with_handle_typed)
  next
    case (CFdNew fd events)
    with world_typed_later [OF W fd_new_tasks] show ?thesis by (auto split: prod.split)
  next
    case (CFdPollWith i wk oper)
    have "grows \<Gamma> (typed_state D) (fd_poll_with S func f wk w)" for func :: "epoll_flags \<Rightarrow> 'k \<Rightarrow> (io_error + nat) \<times> 'k" and f
      by (rule growsI) (auto intro: frame_typed [OF W] dest: fd_poll_with_tasks)
    then have "grows \<Gamma> (typed_result D (\<lambda>\<Gamma>'. reply_typed D \<Gamma>' c))
        (bind_res (fd_poll_with S (\<lambda>events. sys_other S (oper events)) f wk w) (\<lambda>(r, w1). Ok (RFdPoll r, w1)))" for f
      by (rule grows_bind) (use CFdPollWith in auto)
    then show ?thesis using CFdPollWith W by (auto split: option.split)
  next
    case (CBlockOn f)
    with C obtain \<tau> where F: "ty_future D \<Gamma> f \<tau>" by auto
    from block_on_loop_typed [OF U W F] show ?thesis
      unfolding CBlockOn call_body.simps block_on_def
      by (rule grows_bind) (use ty_future_mono [OF M _ F] in \<open>auto intro!: typed_Ok\<close>)
  next
    case CRun
    from run_typed [OF U W] show ?thesis unfolding CRun call_body.simps by (rule grows_bind) auto
  qed (use W in \<open>auto intro!: typed_Ok frame_typed [OF W] split: prod.split\<close>)
qed

end

lemma do_call_typed: "typed_calls (do_call S u n) D u"
proof (induction n)
  case 0
  show ?case by unfold_locales simp
next
  case (Suc n)
  show ?case by unfold_locales (simp add: typed_calls.call_body_typed [OF Suc])
qed

interpretation typed: typed_calls "do_call S u n" D u for S u n D
  by (rule do_call_typed)

section \<open>Threads\<close>

lemma thread_start_typed:
  assumes "thread_start S k = Ok w"
  shows "world_typed D Map.empty w"
proof -
  obtain r w0 where r: "executor_new S (empty_world k) = Ok (r, w0)"
    "(case r of Inl _ \<Rightarrow> Fault (Panic UnwrapErr) | Inr x \<Rightarrow> Ok (w0\<lparr>w_exec := x\<rparr>)) = Ok w"
    using assms by (auto simp: thread_start_def res_simps)
  from executor_new_tasks [OF r(1)] have W: "world_typed D Map.empty w0"
    by (simp add: world_typed_def tasks_typed_def empty_world_def)
  show ?thesis using r(2) by (cases r) (auto intro: frame_typed [OF W])
qed

lemma run_thread_typed:
  assumes "user_typed D u" and "prog_typed D p Q Map.empty"
  shows "grows Map.empty (typed_result D Q) (run_thread S u n p k)"
  unfolding run_thread_def
proof (rule grows_bind [of _ "\<lambda>\<Gamma> w. \<Gamma> = Map.empty \<and> world_typed D \<Gamma> w"], goal_cases)
  case 1
  show ?case by (rule growsI) (use thread_start_typed in auto)
qed (use typed.interp_typed [OF assms(1) _ assms(2)] in auto)

text \<open>
  C8: outputs have the type of their handle. However a well-typed thread schedules, aborts,
  nests and drops its tasks, in every state it reaches each output that a handle can take
  is of the type the future was spawned with - the downcast in \<open>take_output\<close> succeeds - and
  what the thread returns is what its own type says.
\<close>

theorem outputs_have_type_of_handle:
  assumes "user_typed D u" and "prog_typed D p Q Map.empty" and "run_thread S u n p k = Ok (r, w)"
  shows "\<exists>\<Gamma>. Q \<Gamma> r \<and> (\<forall>h t k v. w_handles w h = Some t \<and> w_tasks w t = Some k \<and> t_output k = Some v
    \<longrightarrow> value_of_handle D \<Gamma> h v)"
proof -
  obtain \<Gamma> where \<Gamma>: "world_typed D \<Gamma> w" "Q \<Gamma> r"
    using run_thread_typed [OF assms(1,2), of S n k] assms(3) by (auto simp: grows_def)
  have "value_of_handle D \<Gamma> h v" if "w_handles w h = Some t" "w_tasks w t = Some k" "t_output k = Some v" for h t k v
    using handle_typed [OF \<Gamma>(1) that(1)] output_typed [OF \<Gamma>(1) that(2) _ that(3)]
    unfolding value_of_handle_def by metis
  with \<Gamma>(2) show ?thesis by blast
qed

text \<open>
  A task that yields, and whose output is left in it. In the
  discipline all futures but the one that fails return 7.
\<close>

definition demo_discipline :: "(nat, nat, unit) discipline" where
  "demo_discipline = \<lparr>ty_future = (\<lambda>_ f _. f \<noteq> 5), ty_value = (\<lambda>_ v _. v = 7)\<rparr>"

definition demo_output_main :: "(unit, nat, nat) prog" where
  "demo_output_main = Call (CSpawn (builder_new 1 here)) (\<lambda>_. Call CRun (\<lambda>_. Ret ()))"

lemma demo_output_typed:
  "user_typed demo_discipline demo_user" "prog_typed demo_discipline demo_output_main (\<lambda>_ _. True) Map.empty"
  by (auto simp: user_typed_def discipline_mono_def demo_discipline_def demo_user_def demo_poll_def
      poll_typed_def demo_output_main_def builder_new_def)

theorem outputs_have_type_of_handle_witness:
  "\<exists>w \<Gamma>. run_thread demo demo_user 6 demo_output_main demo_start = Ok ((), w) \<and>
     w_handles w 3 = Some 2 \<and> map_option t_output (w_tasks w 2) = Some (Some 7) \<and>
     value_of_handle demo_discipline \<Gamma> 3 7"
proof -
  have "\<exists>w. run_thread demo demo_user 6 demo_output_main demo_start = Ok ((), w) \<and>
      w_handles w 3 = Some 2 \<and> map_option t_output (w_tasks w 2) = Some (Some 7)"
    by (simp add: demo_output_main_def eval_simps eval_user cong: eval_congs)
  then obtain w k where w: "run_thread demo demo_user 6 demo_output_main demo_start = Ok ((), w)"
    "w_handles w 3 = Some 2" "w_tasks w 2 = Some k" "t_output k = Some 7"
    by auto
  obtain \<Gamma> where "\<forall>h t k v. w_handles w h = Some t \<and> w_tasks w t = Some k \<and> t_output k = Some v
      \<longrightarrow> value_of_handle demo_discipline \<Gamma> h v"
    using outputs_have_type_of_handle [OF demo_output_typed w(1)] by blast
  with w have "value_of_handle demo_discipline \<Gamma> 3 7" by blast
  with w show ?thesis by auto
qed

end
