(* ===== verification/Epox_Completion.thy ===== *)
theory Epox_Completion
  imports Epox_Lost Epox_Typing
begin

text \<open>
  When \<open>run\<close> returns in a program that neither aborts a task nor shuts the executor down,
  every task has completed.

  The locale \<open>keeping_calls\<close> extends the contract \<open>call_semantics\<close> of the calls inside the
  scheduler loops: a call in \<open>keeping\<close> loses no task. The loops then do not either, and
  \<open>do_call\<close> satisfies the contract with any fuel.
\<close>

section \<open>The scheduler\<close>

text \<open>
  User code that neither shuts the executor down nor aborts a task. A checked task whose
  output is an error would also shut the executor down.
\<close>

definition keeping :: "'f call \<Rightarrow> bool" where
  "keeping c = (case c of CShutdown \<Rightarrow> False | CHandleAbort _ \<Rightarrow> False | _ \<Rightarrow> True)"

primrec keeping_prog :: "('r \<Rightarrow> bool) \<Rightarrow> ('r, 'f, 'v) prog \<Rightarrow> bool" where
  "keeping_prog Q (Ret r) = Q r"
| "keeping_prog Q (Call c k) = (keeping c \<and> (\<forall>x. keeping_prog Q (k x)))"
| "keeping_prog Q UserPanics = True"

text \<open>
  \<open>fin\<close> says of a future that it has returned. Only the destructors of such futures are
  restricted: those of others are never run.
\<close>

definition keeping_user :: "('f \<Rightarrow> bool) \<Rightarrow> ('f, 'v) user \<Rightarrow> bool" where
  "keeping_user fin u \<longleftrightarrow>
     (\<forall>f wk. keeping_prog (\<lambda>(f1, r). r \<noteq> Pending \<or> fin f \<longrightarrow> fin f1) (u_poll u f wk)) \<and>
     (\<forall>f. fin f \<longrightarrow> keeping_prog (\<lambda>_. True) (u_drop u f)) \<and> (\<forall>v. \<not> u_is_err u v)"

definition ended :: "('f \<Rightarrow> bool) \<Rightarrow> 'f task_future \<Rightarrow> bool" where
  "ended fin fut = (case fut of User f \<Rightarrow> fin f | Checked f \<Rightarrow> fin f | CheckedDone \<Rightarrow> True)"

text \<open>
  The future of every task that has completed has returned, and the tasks \<open>P\<close>, which are being
  polled, have not completed.
\<close>

definition returned :: "('f \<Rightarrow> bool) \<Rightarrow> nat set \<Rightarrow> ('k, 'f, 'v) sched \<Rightarrow> bool" where
  "returned fin P w \<longleftrightarrow>
     (\<forall>t k. w_tasks w t = Some k \<longrightarrow> t_has_completed k \<longrightarrow> ended fin (t_future k)) \<and>
     (\<forall>t \<in> P. \<exists>k. w_tasks w t = Some k \<and> t_borrowed k \<and> \<not> t_has_completed k)"

definition sound :: "'k registrations \<Rightarrow> ('f \<Rightarrow> bool) \<Rightarrow> nat set \<Rightarrow> (nat \<Rightarrow> nat) \<Rightarrow> ('k, 'f, 'v) sched \<Rightarrow> bool" where
  "sound reg fin P E w \<longleftrightarrow> kept reg E {} w \<and> returned fin P w"

lemma sound_kept: "sound reg fin P E w \<Longrightarrow> kept reg E {} w"
  and sound_inv: "sound reg fin P E w \<Longrightarrow> winv reg E alone w"
  and sound_returned: "sound reg fin P E w \<Longrightarrow> returned fin P w"
  by (simp_all add: sound_def kept_def)

lemma returned_frame: "returned fin P w \<Longrightarrow> task_frame w' = task_frame w \<Longrightarrow> returned fin P w'"
  by (simp add: returned_def task_frame_def)

lemma safe_sound:
  assumes "safe (kept reg E {}) r" and "returned fin P w" and "\<And>w'. r = Ok w' \<Longrightarrow> task_frame w' = task_frame w"
  shows "safe (sound reg fin P E) r"
  using assms by (cases r) (auto simp: sound_def intro: returned_frame)

lemma safe_sound_pair:
  assumes "safe (\<lambda>(x, w'). kept reg E {} w') r" and "returned fin P w"
    and "\<And>x w'. r = Ok (x, w') \<Longrightarrow> task_frame w' = task_frame w"
  shows "safe (\<lambda>(x, w'). sound reg fin P E w') r"
  using assms by (cases r) (auto simp: sound_def intro: returned_frame)

lemma epoll_wait_sound:
  "kernel_ok reg S \<Longrightarrow> sound reg fin P E w \<Longrightarrow> safe (\<lambda>(r, w'). sound reg fin P E w') (epoll_wait S tmo w)"
  by (rule safe_sound_pair [OF epoll_wait_kept [OF _ sound_kept] sound_returned epoll_wait_tasks])

lemma wake_by_ref_sound:
  "kernel_ok reg S \<Longrightarrow> sound reg fin P E w \<Longrightarrow> safe (sound reg fin P E) (wake_by_ref S wk w)"
  by (rule safe_sound [OF wake_by_ref_kept [OF _ sound_kept] sound_returned wake_by_ref_tasks])

lemma returned_put:
  assumes "returned fin P w" and "t_has_completed k' \<Longrightarrow> ended fin (t_future k')"
    and "t \<in> P \<Longrightarrow> t_borrowed k' \<and> \<not> t_has_completed k'"
  shows "returned fin P (put_task t k' w)"
  using assms by (auto simp: returned_def put_task_def)

lemma put_task_sound:
  assumes W: "sound reg fin P E w" and k: "w_tasks w t = Some k" and "t_priority k' = t_priority k"
    and "t_has_completed k' = t_has_completed k" and "t_borrowed k' = t_borrowed k" and "t_future k' = t_future k"
  shows "sound reg fin P E (put_task t k' w)"
proof -
  have "returned fin P (put_task t k' w)"
    by (rule returned_put [OF sound_returned [OF W]])
       (use sound_returned [OF W] k assms(4-6) in \<open>fastforce simp: returned_def\<close>)+
  with put_task_kept [OF sound_kept [OF W] k assms(3-5)] show ?thesis by (simp add: sound_def)
qed

lemma highest_priority_sound:
  assumes W: "sound reg fin P E w"
  shows "safe (\<lambda>(r, w'). case r of
      None \<Rightarrow> sound reg fin P E w'
    | Some e \<Rightarrow> \<exists>t. e = TEntry t \<and> kept reg (own t E) {t} w' \<and> returned fin P w') (highest_priority_runnable_task w)"
proof -
  have "returned fin P w'" if "highest_priority_runnable_task w = Ok (r, w')" for r w'
    by (rule returned_frame [OF sound_returned [OF W] highest_priority_tasks [OF that]])
  then show ?thesis
    by (intro safe_mono [OF highest_priority_kept [OF sound_kept [OF W]]]) (auto simp: sound_def split: option.splits)
qed

lemma ended_drop: "keeping_user fin u \<Longrightarrow> ended fin fut \<Longrightarrow> keeping_prog (\<lambda>_. True) (drop_future u fut)"
  by (auto simp: keeping_user_def ended_def drop_future_def split: task_future.splits)

locale keeping_calls = call_semantics cs reg S
  for cs :: "('k, 'f, 'v) calls" and reg :: "'k registrations" and S :: "'k kernel" +
  fixes u :: "('f, 'v) user" and fin :: "'f \<Rightarrow> bool"
  assumes keeping_law: "kernel_ok reg S \<Longrightarrow> keeping_user fin u \<Longrightarrow> keeping c \<Longrightarrow> sound reg fin P E w \<Longrightarrow>
      safe (\<lambda>(x, w'). sound reg fin P E w') (cs c w)"
begin

lemma interp_sound:
  assumes K: "kernel_ok reg S" and u: "keeping_user fin u" and W: "sound reg fin P E w" and p: "keeping_prog Q p"
  shows "safe (\<lambda>(r, w'). sound reg fin P E w' \<and> Q r) (interp cs p w)"
  using W p
proof (induction p arbitrary: w)
  case (Call c k)
  show ?case
    unfolding interp.simps
  proof (rule safe_bind [OF keeping_law [OF K u _ Call.prems(1)]], use Call.prems in simp, clarify)
    fix x and w1 :: "('k, 'f, 'v) sched" assume "sound reg fin P E w1"
    with Call.prems(2) show "safe (\<lambda>(r, w'). sound reg fin P E w' \<and> Q r) (interp cs (k x) w1)"
      by (intro Call.IH) auto
  qed
qed simp_all

lemma poll_future_sound:
  assumes K: "kernel_ok reg S" and u: "keeping_user fin u" and W: "sound reg fin P E w"
  shows "safe (\<lambda>((f1, r), w'). sound reg fin P E w' \<and> (r \<noteq> Pending \<or> ended fin fut \<longrightarrow> ended fin f1)) (poll_future cs u fut wk w)"
proof -
  have p: "keeping_prog (\<lambda>(f1, r). r \<noteq> Pending \<or> fin f \<longrightarrow> fin f1) (u_poll u f wk)" and e: "\<not> u_is_err u v" for f v
    using u by (simp_all add: keeping_user_def)
  have d: "keeping_prog (\<lambda>_. True) (u_drop u f)" if "fin f" for f using u that by (simp add: keeping_user_def)
  show ?thesis
    unfolding poll_future_def
    by (auto simp: e ended_def split: task_future.split poll.split
        intro!: safe_bind [OF interp_sound [OF K u W p]] safe_bind [OF interp_sound [OF K u _ d]])
qed

text \<open>The last reference to a task is dropped only when the task has completed.\<close>

lemma drop_task_sound:
  assumes K: "kernel_ok reg S" and u: "keeping_user fin u" and W: "sound reg fin P (own t E) w"
    and bor: "\<And>k. w_tasks w t = Some k \<Longrightarrow> t_borrowed k \<Longrightarrow> 0 < E t"
  shows "safe (sound reg fin P E) (drop_task cs u t w)"
proof (cases "1 < strong (w_queue w) (TEntry t)")
  case True
  from forget_inv [OF sound_inv [OF W] True bor] obtain w1 where w1: "arc_forget t w = Ok w1" "winv reg E alone w1"
    using True by (auto simp: arc_forget_def with_queue_def arc_dec_def)
  moreover have "strong (w_queue w1) (TEntry t) \<noteq> 0" "task_frame w1 = task_frame w"
    using w1(1) True with_queue_tasks [OF w1(1) [unfolded arc_forget_def]]
    by (auto simp: arc_forget_def with_queue_def arc_dec_def)
  ultimately show ?thesis
    using loses_none_kept [OF forget_loses_none [OF w1(1)] sound_kept [OF W]] returned_frame [OF sound_returned [OF W]]
    by (simp add: drop_task_def kept_def sound_def)
next
  case False
  note I = sound_inv [OF W]
  obtain k where k: "w_tasks w t = Some k" using own_task [OF I] .
  obtain q' where q': "arc_dec (TEntry t) (w_queue w) = Ok q'" "strong q' (TEntry t) = 0"
    and I1: "winv reg E alone (w\<lparr>w_queue := entry_free (TEntry t) q', w_tasks := (w_tasks w)(t := None)\<rparr>)"
    using last_ref_inv [OF I False] .
  let ?w = "w\<lparr>w_queue := entry_free (TEntry t) q', w_tasks := (w_tasks w)(t := None)\<rparr>"
  have "ended fin (t_future k) \<and> t \<notin> P"
  proof (rule winvE [OF I])
    fix Q assume Q: "wfq (own t E) Q w"
    have "strong (w_queue w) (TEntry t) = refs (own t E) Q (w_handles w) t" by (rule wfq_count [OF Q])
    with False have "E t = 0" "\<not> queued Q (TEntry t)" by (auto simp: refs_def split: if_splits)
    moreover have "t \<notin> lost w" using kept_lost [OF sound_kept [OF W]] by auto
    ultimately have "t_has_completed k" using lost_wfq [OF Q, of t] k bor [OF k] by auto
    with sound_returned [OF W] k show ?thesis by (fastforce simp: returned_def)
  qed
  then have d: "keeping_prog (\<lambda>_. True) (drop_future u (t_future k))" and "t \<notin> P"
    using ended_drop [OF u] by auto
  have l: "links q' = links (w_queue w)" using q'(1) by (auto simp: arc_dec_def split: if_splits)
  have "lost ?w \<subseteq> lost w"
    by (auto simp: lost_def task_is_queued_def entry_is_queued_def deref_def entry_free_def l split: if_splits)
  moreover have "settled ?w" using kept_settled [OF sound_kept [OF W]] by (simp add: settled_def entry_free_def l)
  moreover have "returned fin P ?w" using sound_returned [OF W] \<open>t \<notin> P\<close> by (auto simp: returned_def)
  ultimately have W1: "sound reg fin P E ?w" using I1 kept_lost [OF sound_kept [OF W]] by (auto simp: kept_def sound_def)
  have "drop_task cs u t w = bind_res (interp cs (drop_future u (t_future k)) ?w) (\<lambda>(_, w3). Ok w3)"
    by (simp add: drop_task_def arc_forget_def with_queue_def q' get_task_def k)
  then show ?thesis by (auto intro!: safe_bind [OF interp_sound [OF K u W1 d]])
qed

text \<open>After the poll: a pending task goes to sleep unless it is queued, a ready one has completed.\<close>

lemma pending_sound:
  assumes K: "kernel_ok reg S" and u: "keeping_user fin u" and W: "kept reg (own t E) {} w" "returned fin P' w"
    and k: "w_tasks w t = Some k" "t_has_completed k \<Longrightarrow> ended fin f1" and P: "P \<subseteq> P'" "t \<notin> P"
  shows "safe (sound reg fin P E)
    (let w2 = put_task t (k\<lparr>t_future := f1, t_borrowed := False\<rparr>) w
     in bind_res (task_is_queued t w2) (\<lambda>q. if \<not> q then sleep_task t w2 else drop_task cs u t w2))"
proof -
  let ?k2 = "k\<lparr>t_future := f1, t_borrowed := False\<rparr>"
  let ?w2 = "put_task t ?k2 w"
  have I2: "winv reg (own t E) alone ?w2" by (rule put_task_inv [OF kept_inv [OF W(1)] k(1)]) simp_all
  have k2: "w_tasks ?w2 t = Some ?k2" by (simp add: put_task_def)
  have L2: "lost ?w2 \<subseteq> {t}" and s2: "settled ?w2"
    using kept_lost [OF W(1)] kept_settled [OF W(1)]
    by (auto simp: lost_def put_task_def task_is_queued_def)
  have "returned fin P w" using W(2) P(1) by (auto simp: returned_def)
  then have R2: "returned fin P ?w2" by (rule returned_put) (use k(2) P(2) in simp_all)
  obtain b where b: "task_is_queued t ?w2 = Ok b" using task_is_queued_safe [OF I2] by blast
  have "safe (kept reg E {}) (sleep_task t ?w2)"
    by (rule safe_kept [OF sleep_inv [OF I2 k2]])
       (use sleep_lost [OF I2 k2] L2 s2 in \<open>auto\<close>)
  then have "safe (sound reg fin P E) (sleep_task t ?w2)"
    by (rule safe_sound [OF _ R2]) (simp add: sleep_task_def with_queue_tasks)
  moreover have "safe (sound reg fin P E) (drop_task cs u t ?w2)" if b
  proof -
    have "t \<notin> lost ?w2" using b that by (simp add: lost_def)
    with L2 s2 I2 R2 have "sound reg fin P (own t E) ?w2" by (auto simp: kept_def sound_def)
    then show ?thesis by (rule drop_task_sound [OF K u]) (use k2 in auto)
  qed
  ultimately show ?thesis by (simp add: b Let_def)
qed

lemma ready_sound:
  assumes K: "kernel_ok reg S" and u: "keeping_user fin u" and W: "kept reg (own t E) {} w" "returned fin P' w"
    and k: "w_tasks w t = Some k" and f1: "ended fin f1" and P: "P \<subseteq> P'" "t \<notin> P"
  shows "safe (sound reg fin P E)
    (let w2 = put_task t (k\<lparr>t_future := f1, t_output := Some v, t_handle_waker := NoopWaker\<rparr>) w
     in bind_res (wake_by_ref S (t_handle_waker k) w2) (\<lambda>w3. bind_res (get_task t w3) (\<lambda>k3.
          drop_task cs u t (put_task t (k3\<lparr>t_has_completed := True, t_borrowed := False\<rparr>) w3))))"
proof -
  let ?k2 = "k\<lparr>t_future := f1, t_output := Some v, t_handle_waker := NoopWaker\<rparr>"
  have "returned fin P w" using W(2) P(1) by (auto simp: returned_def)
  then have "returned fin P (put_task t ?k2 w)" by (rule returned_put) (use f1 P(2) in simp_all)
  moreover have "kept reg (own t E) {} (put_task t ?k2 w)" by (rule put_task_kept [OF W(1) k]) simp_all
  ultimately have W2: "sound reg fin P (own t E) (put_task t ?k2 w)" by (simp add: sound_def)
  show ?thesis
    unfolding Let_def
  proof (rule safe_bind [OF wake_by_ref_sound [OF K W2]])
    fix w3 :: "('k, 'f, 'v) sched"
    assume w3: "wake_by_ref S (t_handle_waker k) (put_task t ?k2 w) = Ok w3" and W3: "sound reg fin P (own t E) w3"
    have k3: "w_tasks w3 t = Some ?k2" using wake_by_ref_tasks [OF w3] by (simp add: task_frame_def put_task_def)
    let ?k4 = "?k2\<lparr>t_has_completed := True, t_borrowed := False\<rparr>"
    have "winv reg (own t E) alone (put_task t ?k4 w3)"
      by (rule put_task_inv [OF sound_inv [OF W3] k3]) simp_all
    moreover have "returned fin P (put_task t ?k4 w3)"
      by (rule returned_put [OF sound_returned [OF W3]]) (use f1 P(2) in simp_all)
    ultimately have "sound reg fin P (own t E) (put_task t ?k4 w3)"
      using put_task_lost [of ?k4 t w3] sound_kept [OF W3] by (auto simp: kept_def sound_def)
    then have "safe (sound reg fin P E) (drop_task cs u t (put_task t ?k4 w3))"
      by (rule drop_task_sound [OF K u]) (auto simp: put_task_def)
    then show "safe (sound reg fin P E) (bind_res (get_task t w3) (\<lambda>k3.
        drop_task cs u t (put_task t (k3\<lparr>t_has_completed := True, t_borrowed := False\<rparr>) w3)))"
      using k3 by (simp add: get_task_def)
  qed
qed

lemma run_task_sound:
  assumes K: "kernel_ok reg S" and u: "keeping_user fin u" and W: "kept reg (own t E) {t} w" "returned fin P w"
  shows "safe (sound reg fin P E) (run_task cs S u t w)"
proof -
  note I = kept_inv [OF W(1)]
  obtain k where k: "w_tasks w t = Some k" using own_task [OF I] .
  show ?thesis
  proof (cases "t_borrowed k")
    case True
    then show ?thesis using k by (simp add: run_task_def get_task_def)
  next
    case False
    let ?w = "put_task t (k\<lparr>t_borrowed := True\<rparr>) w"
    have tP: "t \<notin> P" using W(2) k False by (auto simp: returned_def)
    define P' where "P' = (if t_has_completed k then P else insert t P)"
    have P': "P \<subseteq> P'" by (auto simp: P'_def)
    have "winv reg (own t E) alone ?w" by (rule put_task_inv [OF I k]) simp_all
    moreover have "returned fin P' ?w" using W(2) k tP by (auto simp: returned_def put_task_def P'_def)
    ultimately have W0: "sound reg fin P' (own t E) ?w"
      using put_task_lost [of "k\<lparr>t_borrowed := True\<rparr>" t w] kept_lost [OF W(1)] kept_settled [OF W(1)]
      by (auto simp: kept_def sound_def)
    have old: "t_has_completed k \<Longrightarrow> ended fin (t_future k)" using W(2) k by (auto simp: returned_def)
    note P = poll_future_sound [OF K u W0, of "t_future k" "TaskWaker t"]
    show ?thesis
      unfolding run_task_def get_task_Ok [OF k] bind_res.simps if_not_P [OF False]
    proof (rule safe_bind [OF P], clarify)
      fix f1 and r :: "'v poll" and w1 :: "('k, 'f, 'v) sched"
      assume W1: "sound reg fin P' (own t E) w1" and f1: "r \<noteq> Pending \<or> ended fin (t_future k) \<longrightarrow> ended fin f1"
      note W1' = sound_kept [OF W1] sound_returned [OF W1]
      obtain k1 where k1: "w_tasks w1 t = Some k1" using own_task [OF sound_inv [OF W1]] .
      have c1: "ended fin f1" if "t_has_completed k1"
        using that W1'(2) k1 f1 old by (auto simp: returned_def P'_def split: if_splits)
      show "safe (sound reg fin P E) (bind_res (get_task t w1) (\<lambda>k1. case r of
          Pending \<Rightarrow>
            let w2 = put_task t (k1\<lparr>t_future := f1, t_borrowed := False\<rparr>) w1
            in bind_res (task_is_queued t w2) (\<lambda>q.
                 if \<not> q then sleep_task t w2 else drop_task cs u t w2)
        | Ready v \<Rightarrow>
            let w2 = put_task t (k1\<lparr>t_future := f1, t_output := Some v, t_handle_waker := NoopWaker\<rparr>) w1
            in bind_res (wake_by_ref S (t_handle_waker k1) w2) (\<lambda>w3.
               bind_res (get_task t w3) (\<lambda>k3.
                 drop_task cs u t (put_task t (k3\<lparr>t_has_completed := True, t_borrowed := False\<rparr>) w3)))))"
      proof (cases r)
        case Pending
        with pending_sound [OF K u W1' k1 c1 P' tP] k1 show ?thesis by (simp add: get_task_def)
      next
        case (Ready v)
        with f1 have "ended fin f1" by simp
        from ready_sound [OF K u W1' k1 this P' tP] k1 Ready show ?thesis by (simp add: get_task_def)
      qed
    qed
  qed
qed

lemma run_entry_sound:
  assumes "kernel_ok reg S" and "keeping_user fin u" and "kept reg (own t E) {t} w" and "returned fin P w"
  shows "safe (sound reg fin P E) (run_entry cs S u (TEntry t) w)"
  using run_task_sound [OF assms] by (simp add: run_entry_def)

lemma run_loop_sound:
  assumes K: "kernel_ok reg S" and u: "keeping_user fin u" and W: "sound reg fin P E w"
  shows "safe (\<lambda>(r, w'). sound reg fin P E w') (run_loop cs S u n w)"
  using W
proof (induction n arbitrary: w)
  case (Suc n)
  have wait: "safe (\<lambda>(r, w'). sound reg fin P E w') (bind_res (epoll_wait S tmo w1) (\<lambda>(z, w2). case z of
      Inl err \<Rightarrow> Ok (Inl err, w2) | Inr _ \<Rightarrow> run_loop cs S u n w2))"
    if "sound reg fin P E w1" for w1 tmo
    by (rule safe_bind [OF epoll_wait_sound [OF K that]]) (auto intro: Suc.IH split: sum.split)
  show ?case
    unfolding run_loop.simps
  proof (rule safe_bind [OF highest_priority_sound [OF Suc.prems]], clarify)
    fix r and w1 :: "('k, 'f, 'v) sched"
    assume r: "case r of None \<Rightarrow> sound reg fin P E w1
      | Some e \<Rightarrow> \<exists>t. e = TEntry t \<and> kept reg (own t E) {t} w1 \<and> returned fin P w1"
    show "safe (\<lambda>(r, w'). sound reg fin P E w') (case r of
       None \<Rightarrow> bind_res (sleepq_is_empty w1) (\<lambda>empty.
           if empty then Ok (Inr (), w1)
           else bind_res (epoll_wait S TimeoutNone w1) (\<lambda>(z, w2). case z of
               Inl err \<Rightarrow> Ok (Inl err, w2) | Inr _ \<Rightarrow> run_loop cs S u n w2))
     | Some e \<Rightarrow> bind_res (run_entry cs S u e w1) (\<lambda>w2.
           if x_shutdown (w_exec w2) then Ok (Inr (), w2)
           else bind_res (epoll_wait S TimeoutZero w2) (\<lambda>(z, w3). case z of
               Inl err \<Rightarrow> Ok (Inl err, w3) | Inr _ \<Rightarrow> run_loop cs S u n w3)))"
    proof (cases r)
      case None
      with r have W1: "sound reg fin P E w1" by simp
      with sleepq_is_empty_safe [OF sound_inv [OF W1]] wait [OF W1] None show ?thesis by auto
    next
      case (Some e)
      with r obtain t where "e = TEntry t" "kept reg (own t E) {t} w1" "returned fin P w1" by auto
      then have "safe (sound reg fin P E) (run_entry cs S u e w1)" using run_entry_sound [OF K u] by simp
      then show ?thesis unfolding Some option.case by (rule safe_bind) (simp add: wait)
    qed
  qed
qed simp

lemma block_on_loop_sound:
  assumes K: "kernel_ok reg S" and u: "keeping_user fin u" and W: "sound reg fin P E w"
  shows "safe (\<lambda>(v, w'). sound reg fin P E w') (block_on_loop cs S u n wk f w)"
  using W
proof (induction n arbitrary: w f)
  case (Suc n)
  have p: "keeping_prog (\<lambda>(f1, r). r \<noteq> Pending \<or> fin f \<longrightarrow> fin f1) (u_poll u f wk)" for f
    using u by (simp add: keeping_user_def)
  have d: "keeping_prog (\<lambda>_. True) (u_drop u f)" if "fin f" for f using u that by (simp add: keeping_user_def)
  have wait: "safe (\<lambda>(v, w'). sound reg fin P E w')
      (bind_res (bind_res (epoll_wait S tmo w1) unwrap) (block_on_loop cs S u n wk f1))"
    if "sound reg fin P E w1" for w1 tmo f1
  proof (rule safe_bind [OF safe_bind [OF epoll_wait_sound [OF K that]]])
    show "safe (sound reg fin P E) (unwrap z)" if "case z of (r, w') \<Rightarrow> sound reg fin P E w'" for z :: "(io_error + unit) \<times> ('k, 'f, 'v) sched"
      using that by (auto simp: unwrap_def split: sum.splits prod.splits)
  qed (rule Suc.IH)
  have rest: "safe (\<lambda>(v, w'). sound reg fin P E w') (bind_res (highest_priority_runnable_task w1) (\<lambda>(t, w2). case t of
           Some e \<Rightarrow> bind_res (run_entry cs S u e w2) (\<lambda>w3.
             bind_res (bind_res (epoll_wait S TimeoutZero w3) unwrap) (block_on_loop cs S u n wk f1))
         | None \<Rightarrow> bind_res (bind_res (epoll_wait S TimeoutNone w2) unwrap) (block_on_loop cs S u n wk f1)))"
    if W1: "sound reg fin P E w1" for w1 f1
  proof (rule safe_bind [OF highest_priority_sound [OF W1]], clarify)
    fix r and w2 :: "('k, 'f, 'v) sched"
    assume r: "case r of None \<Rightarrow> sound reg fin P E w2
      | Some e \<Rightarrow> \<exists>t. e = TEntry t \<and> kept reg (own t E) {t} w2 \<and> returned fin P w2"
    show "safe (\<lambda>(v, w'). sound reg fin P E w') (case r of
           Some e \<Rightarrow> bind_res (run_entry cs S u e w2) (\<lambda>w3.
             bind_res (bind_res (epoll_wait S TimeoutZero w3) unwrap) (block_on_loop cs S u n wk f1))
         | None \<Rightarrow> bind_res (bind_res (epoll_wait S TimeoutNone w2) unwrap) (block_on_loop cs S u n wk f1))"
    proof (cases r)
      case None
      with r wait show ?thesis by simp
    next
      case (Some e)
      with r obtain t where "e = TEntry t" "kept reg (own t E) {t} w2" "returned fin P w2" by auto
      then have "safe (sound reg fin P E) (run_entry cs S u e w2)" using run_entry_sound [OF K u] by simp
      then show ?thesis unfolding Some option.case by (rule safe_bind) (rule wait)
    qed
  qed
  have finish: "safe (\<lambda>(v, w'). sound reg fin P E w') (bind_res (interp cs (u_drop u f1) w1) (\<lambda>(_, w2). Ok (v, w2)))"
    if "sound reg fin P E w1" "fin f1" for w1 f1 v
    by (rule safe_bind [OF interp_sound [OF K u that(1) d [OF that(2)]]]) auto
  show ?case
    unfolding block_on_loop.simps
    by (rule safe_bind [OF interp_sound [OF K u Suc.prems p]]) (auto simp: rest finish split: poll.split)
qed simp

text \<open>Replacing an executor whose queues are empty runs no user code and loses no task.\<close>

lemma drain_empty:
  assumes "pop h (w_queue w) = Ok (None, w_queue w)" and "drain_queue cs u n h w = Ok w'"
  shows "w' = w"
  using assms by (cases n) simp_all

lemma replace_idle_executor:
  assumes Q: "wfq E Q w" and e: "\<And>n. Q (QHead (x_id (w_exec w)) n) = Some []" and s: "settled w"
    and new: "executor_new S w = Ok (Inr new, w2)"
    and drop: "drop_executor cs S u n (w_exec w2) (w2\<lparr>w_exec := new\<rparr>) = Ok w3"
  shows "loses_none w w3" "w_tasks w3 = w_tasks w"
proof -
  let ?nx = "w_next w" and ?x = "x_id (w_exec w)"
  obtain k q' where q': "init_queues ?nx (w_queue w) = Ok q'"
    and w2: "w2 = w\<lparr>w_kernel := k, w_queue := q', w_next := Suc ?nx\<rparr>"
    and x: "x_id new = ?nx" "\<not> x_shutdown new"
    using executor_new_Inr [OF new] .
  have pop: "pop (QHead ?x m) q' = Ok (None, q')" for m by (rule replaced_heads_empty [OF Q e q'])
  obtain k3 where w3: "w3 = w2\<lparr>w_exec := new, w_kernel := k3, w_queue := free_queues ?x q'\<rparr>"
  proof -
    let ?w = "w2\<lparr>w_exec := new, w_kernel := sys_close S (x_epoll (w_exec w2)) (w_kernel w2)\<rparr>"
    have d: "w' = ?w" if "drain_queue cs u n (QHead ?x m) ?w = Ok w'" for m w'
      using drain_empty [OF _ that] pop [of m] by (simp add: w2)
    obtain a1 a2 a3 a4 where a: "drain_queue cs u n (QHead ?x RunqHigh) ?w = Ok a1"
      "drain_queue cs u n (QHead ?x RunqNormal) a1 = Ok a2" "drain_queue cs u n (QHead ?x RunqLow) a2 = Ok a3"
      "drain_queue cs u n (QHead ?x Sleepq) a3 = Ok a4"
      "w3 = a4\<lparr>w_kernel := sys_close S (x_pipe_wr (w_exec w2)) (sys_close S (x_pipe_rd (w_exec w2)) (w_kernel a4)),
              w_queue := free_queues ?x (w_queue a4)\<rparr>"
      using drop by (auto simp: drop_executor_def res_simps w2)
    have "a1 = ?w" using d a(1) .
    moreover have "a2 = ?w" using d a(2) calculation by blast
    moreover have "a3 = ?w" using d a(3) calculation by blast
    moreover have "a4 = ?w" using d a(4) calculation by blast
    ultimately show ?thesis using a(5) by (intro that) (simp add: w2)
  qed
  have l: "links q' a = links (w_queue w) a" if "\<And>n. a \<noteq> QHead ?nx n" for a
    using init_queues_links [OF q' that] .
  show "w_tasks w3 = w_tasks w" by (simp add: w3 w2)
  have "lost w3 = lost w"
    by (simp add: lost_def task_is_queued_def entry_is_queued_def deref_def free_queues_def entry_free_def w3 w2 l)
  moreover have "settled w3"
  proof -
    have freed: "links (free_queues ?x q') (QHead ?x m) = None" for m
      by (cases m) (simp_all add: free_queues_def entry_free_def)
    have "y = ?nx" if h: "links (free_queues ?x q') (QHead y m) \<noteq> None" for y m
    proof (rule ccontr)
      assume "y \<noteq> ?nx"
      moreover have "y \<noteq> ?x" using h freed by metis
      moreover have "links (free_queues ?x q') (QHead y m) = links q' (QHead y m)"
        using \<open>y \<noteq> ?x\<close> by (simp add: free_queues_def entry_free_def)
      ultimately show False using h l [of "QHead y m"] s unfolding settled_def by auto
    qed
    then show ?thesis by (simp add: settled_def w3 w2 x)
  qed
  ultimately show "loses_none w w3" by (simp add: loses_none_def)
qed

text \<open>
  \<open>run\<close> ends only when all queues are empty; then a task has completed, unless it is being
  polled further down the stack.
\<close>

lemma idle_completed:
  assumes W: "kept reg E {} w" and Q: "wfq E Q w" and e: "\<And>n. Q (QHead (x_id (w_exec w)) n) = Some []"
    and k: "w_tasks w t = Some k" and out: "E t = 0"
  shows "t_has_completed k"
proof (rule ccontr)
  assume "\<not> t_has_completed k"
  moreover have "\<not> t_borrowed k" using inv_borrowed [OF kept_inv [OF W] k] out by auto
  moreover have "\<not> queued Q (TEntry t)"
    using settled_wfq [OF Q] kept_settled [OF W] e unfolding queued_iff
    by (metis domI empty_iff list.set(1) option.inject)
  ultimately have "t \<in> lost w" using k lost_wfq [OF Q] by auto
  with kept_lost [OF W] show False by auto
qed

lemma run_completes:
  assumes K: "kernel_ok reg S" and u: "keeping_user fin u" and W: "sound reg fin P E w"
    and r: "run cs S u n w = Ok (r, w')"
  shows "lost w' \<subseteq> {} \<and> settled w' \<and> returned fin P w' \<and>
    (r = Inr () \<longrightarrow> (\<forall>t k. w_tasks w' t = Some k \<longrightarrow> E t = 0 \<longrightarrow> t_has_completed k))"
proof -
  obtain z w1 where z: "run_loop cs S u n w = Ok (z, w1)" using r by (auto simp: run_def res_simps)
  have W1: "sound reg fin P E w1" using run_loop_sound [OF K u W, of n] z by simp
  note k1 = sound_kept [OF W1] and R1 = sound_returned [OF W1]
  show ?thesis
  proof (cases z)
    case (Inl e)
    with r z W1 show ?thesis by (auto simp: run_def sound_def kept_def)
  next
    case (Inr v)
    obtain Q where Q: "wfq E Q w1" "runnable Q w1 = []" "members Q (head_of Sleepq w1) = []"
      using run_loop_exit [OF K sound_inv [OF W], of u n w1] z Inr kept_settled [OF k1]
      by (auto simp: settled_def)
    note e = idle_heads [OF Q]
    obtain x w2 where x: "executor_new S w1 = Ok (x, w2)"
      using r z Inr by (auto simp: run_def res_simps)
    show ?thesis
    proof (cases x)
      case (Inl err)
      obtain k where w2: "w2 = w1\<lparr>w_kernel := k\<rparr>" using executor_new_Inl x [unfolded Inl] .
      have "returned fin P w2" by (rule returned_frame [OF R1]) (simp add: w2)
      with r z Inr x Inl loses_none_kept [OF loses_none_frame(1) k1] show ?thesis by (auto simp: run_def w2)
    next
      case new: (Inr new)
      obtain w3 where "drop_executor cs S u n (w_exec w2) (w2\<lparr>w_exec := new\<rparr>) = Ok w3" "w' = w3"
        using r z Inr x new by (auto simp: run_def res_simps)
      with replace_idle_executor [OF Q(1) e kept_settled [OF k1] x [unfolded new]]
      have w': "loses_none w1 w'" "w_tasks w' = w_tasks w1" by simp_all
      then have "returned fin P w'" using R1 by (simp add: returned_def)
      with w' loses_none_kept [OF w'(1) k1] idle_completed [OF k1 Q(1) e] show ?thesis by auto
    qed
  qed
qed

lemma run_sound:
  assumes K: "kernel_ok reg S" and u: "keeping_user fin u" and W: "sound reg fin P E w"
  shows "safe (\<lambda>(r, w'). sound reg fin P E w') (run cs S u n w)"
  using run_inv [OF K sound_inv [OF W], of u n] run_completes [OF K u W, of n]
  by (cases "run cs S u n w") (auto simp: sound_def kept_def)

section \<open>The calls\<close>

lemma spawn_task_sound:
  assumes W: "sound reg fin P E w"
  shows "safe (\<lambda>(h, w'). sound reg fin P E w') (spawn_task f p md w)"
proof (rule winvE [OF sound_inv [OF W]])
  fix Q assume Q: "wfq E Q w"
  let ?k = "executor_task_new (x_pipe_wr (w_exec w)) f p md"
  obtain h w' where r: "spawn_task f p md w = Ok (h, w')" and t: "w_tasks w' = (w_tasks w)(w_next w \<mapsto> ?k)"
    "w_tasks w (w_next w) = None"
    using spawn_task_wfq [OF Q, of f p md] by auto
  have "returned fin P w'"
    using sound_returned [OF W] t by (fastforce simp: returned_def executor_task_new_def)
  with spawn_task_kept [OF sound_kept [OF W], of f p md] r show ?thesis by (simp add: sound_def)
qed

lemma handle_result_sound:
  assumes W: "sound reg fin P E w" and h: "w_handles w h = Some t"
  shows "safe (\<lambda>(r, w'). sound reg fin P E w' \<and> w_handles w' = w_handles w) (handle_result t w)"
proof -
  obtain k where k: "w_tasks w t = Some k" using handle_task [OF sound_inv [OF W] h] .
  then show ?thesis using put_task_sound [OF W k, of "k\<lparr>t_output := None\<rparr>"]
    by (simp add: handle_result_def get_task_def put_task_def)
qed

lemma handle_poll_sound:
  assumes W: "sound reg fin P E w" and h: "w_handles w h = Some t"
  shows "safe (\<lambda>(r, w'). sound reg fin P E w') (handle_poll t wk w)"
  unfolding handle_poll_def
proof (rule safe_bind [OF handle_result_sound [OF W h]], clarify)
  fix r and w1 assume w1: "sound reg fin P E w1" "w_handles w1 = w_handles w"
  obtain k where k: "w_tasks w1 t = Some k" using handle_task [OF sound_inv [OF w1(1)], of h] w1(2) h by metis
  show "safe (\<lambda>(r, w'). sound reg fin P E w') (case r of
     Some v \<Rightarrow> Ok (Ready v, w1)
   | None \<Rightarrow> bind_res (get_task t w1) (\<lambda>k.
       Ok (Pending, put_task t (k\<lparr>t_handle_waker := waker_clone wk w1\<rparr>) w1)))"
    using k w1 put_task_sound [OF w1(1) k, of "k\<lparr>t_handle_waker := waker_clone wk w1\<rparr>"]
    by (simp add: get_task_def split: option.splits)
qed

lemma call_body_sound:
  assumes K: "kernel_ok reg S" and u: "keeping_user fin u" and W: "sound reg fin P E w" and c: "keeping c"
  shows "safe (\<lambda>(x, w'). sound reg fin P E w') (call_body cs S u n c w)"
proof (cases c)
  case (CSpawn b)
  then show ?thesis
    by (auto simp: spawn_def Let_def split_def intro!: safe_bind [OF spawn_task_sound [OF W]])
next
  case (CSpawnChecked b)
  then show ?thesis
    by (auto simp: spawn_checked_def Let_def split_def intro!: safe_bind [OF spawn_task_sound [OF W]])
next
  case (CWake wk)
  then show ?thesis by (auto intro!: safe_bind [OF wake_by_ref_sound [OF K W]])
next
  case (CHandleResult h)
  then show ?thesis using W
    by (auto simp: with_handle_def intro!: safe_bind [OF handle_result_sound [OF W]] split: option.split)
next
  case (CHandlePoll h wk)
  then show ?thesis using W
    by (auto simp: with_handle_def intro!: safe_bind [OF handle_poll_sound [OF W]] split: option.split)
next
  case (CHandleName h)
  then show ?thesis using W handle_task [OF sound_inv [OF W]]
    by (fastforce simp: with_handle_def handle_name_def get_task_def split: option.split)
next
  case (CHandleDrop h)
  have "safe (sound reg fin P E) (handle_drop cs u h t w)" if h: "w_handles w h = Some t" for t
  proof -
    have "sound reg fin P (own t E) (w\<lparr>w_handles := (w_handles w)(h := None)\<rparr>)"
      using handle_remove_inv [OF sound_inv [OF W] h] W by (simp add: sound_def kept_def returned_def)
    then show ?thesis unfolding handle_drop_def
      by (rule drop_task_sound [OF K u]) (use inv_borrowed [OF sound_inv [OF W]] in simp)
  qed
  then show ?thesis using W CHandleDrop
    by (auto simp: with_handle_def intro!: safe_bind split: option.split)
next
  case (CFdNew fd events)
  obtain r w1 where r: "fd_new S fd events w = (r, w1)" by force
  have "returned fin P w1" using sound_returned [OF W] fd_new_tasks [OF r] by (simp add: returned_def)
  then show ?thesis using CFdNew r fd_new_kept [OF K sound_kept [OF W], of fd events] by (simp add: sound_def)
next
  case (CFdPollWith i wk oper)
  have "safe (\<lambda>(r, w'). sound reg fin P E w') (fd_poll_with S (\<lambda>ev. sys_other S (oper ev)) f wk w)"
    if "w_fds w i = Some f" for f
    using safe_sound_pair [OF fd_poll_with_kept [OF K sound_kept [OF W] that] sound_returned [OF W]] fd_poll_with_tasks by blast
  then show ?thesis using W CFdPollWith by (auto intro!: safe_bind split: option.split)
next
  case (CFdDrop i)
  have "returned fin P (fd_drop S i w)" by (rule returned_frame [OF sound_returned [OF W]]) simp
  then show ?thesis using CFdDrop fd_drop_kept [OF K sound_kept [OF W]] by (simp add: sound_def)
next
  case (CSys m)
  have "winv reg E alone (w\<lparr>w_kernel := snd (sys_other S m (w_kernel w))\<rparr>)"
    by (rule winv_kernel [OF sound_inv [OF W]]) (rule kernel_ok_other [OF K])
  then show ?thesis using W CSys by (simp add: Let_def split_def kept_def sound_def returned_def)
next
  case (CBlockOn f)
  then show ?thesis
    by (auto simp: block_on_def intro!: safe_bind [OF block_on_loop_sound [OF K u W]])
next
  case CRun
  then show ?thesis by (auto intro!: safe_bind [OF run_sound [OF K u W]])
qed (use c W in \<open>simp_all add: keeping_def\<close>)

end

lemma do_call_keeping: "keeping_calls (do_call S u n) reg S u fin"
proof (induction n)
  case 0
  show ?case by (intro keeping_calls.intro do_call_semantics) (unfold_locales, simp)
next
  case (Suc n)
  show ?case
    by (intro keeping_calls.intro do_call_semantics keeping_calls_axioms.intro)
       (simp add: keeping_calls.call_body_sound [OF Suc])
qed

interpretation keeps: keeping_calls "do_call S u n" reg S u fin for S u n reg fin
  by (rule do_call_keeping)

section \<open>Programs that end with \<open>run\<close>\<close>

lemma thread_start_fresh:
  fixes k :: 'k and w :: "('k, 'f, 'v) sched"
  assumes r: "thread_start S k = Ok w"
  shows "w_tasks w = Map.empty" "settled w"
proof -
  obtain new w1 where n: "executor_new S (empty_world k :: ('k, 'f, 'v) sched) = Ok (Inr new, w1)"
    and w: "w = w1\<lparr>w_exec := new\<rparr>"
  proof -
    obtain z w1 where z: "executor_new S (empty_world k :: ('k, 'f, 'v) sched) = Ok (z, w1)"
      using r by (auto simp: thread_start_def res_simps)
    with r that show ?thesis by (cases z) (auto simp: thread_start_def)
  qed
  from n obtain q where q: "init_queues 1 \<lparr>links = Map.empty, strong = (\<lambda>_. 0)\<rparr> = Ok q"
    and w1: "w_tasks w1 = Map.empty" "w_queue w1 = q" "x_id new = 1" "\<not> x_shutdown new"
    by (rule executor_new_Inr) (simp add: empty_world_def)
  show "w_tasks w = Map.empty" by (simp add: w w1)
  have "links q (QHead y m) = None" if "y \<noteq> 1" for y m
    using init_queues_links [OF q, of "QHead y m"] that by simp
  then show "settled w" unfolding settled_def w by (auto simp: w1) (metis option.distinct(1))
qed

lemma thread_start_sound:
  fixes k :: 'k and w :: "('k, 'f, 'v) sched"
  assumes K: "kernel_ok reg S" and r: "thread_start S k = Ok w"
  shows "sound reg fin {} (\<lambda>_. 0) w"
proof -
  have "safe (winv reg (\<lambda>_. 0) alone) (thread_start S k :: ('k, 'f, 'v) sched res)" by (rule thread_start_inv [OF K])
  with r have "winv reg (\<lambda>_. 0) alone w" by simp
  with thread_start_fresh [OF r] show ?thesis by (simp add: sound_def kept_def lost_def returned_def)
qed

text \<open>
  C2: no task is forgotten, and none is destroyed before its future has returned. Whatever the
  tasks do, other than shutting the executor down or aborting each other, and whenever they
  are woken: if a program spawns tasks and calls \<open>run\<close>, and \<open>run\<close> returns without an error,
  then every task that still exists has completed, and its future is one that has returned.
  The destructors of other futures are arbitrary here - they may even shut the executor down -
  because they are never run.
\<close>

theorem run_completes_all_tasks:
  assumes "kernel_ok reg S" and "keeping_user fin u" and "keeping_prog (\<lambda>_. True) p"
    and "run_thread S u n (bind_prog p (\<lambda>_. Call CRun Ret)) k = Ok (RRun (Inr ()), w)"
  shows "\<forall>t. pred_option (\<lambda>k. t_has_completed k \<and> ended fin (t_future k)) (w_tasks w t)"
proof (intro allI)
  fix t
  obtain w0 where w0: "thread_start S k = Ok w0"
    "interp (do_call S u n) (bind_prog p (\<lambda>_. Call CRun Ret)) w0 = Ok (RRun (Inr ()), w)"
    using assms(4) by (auto simp: run_thread_def res_simps)
  then obtain r w1 where w1: "interp (do_call S u n) p w0 = Ok (r, w1)"
    "do_call S u n CRun w1 = Ok (RRun (Inr ()), w)"
    by (auto simp: interp_bind_prog res_simps simp del: do_call.simps)
  have W1: "sound reg fin {} (\<lambda>_. 0) w1"
    using keeps.interp_sound [OF assms(1,2) thread_start_sound [OF assms(1) w0(1)] assms(3), of n] w1(1) by simp
  from w1(2) obtain m where "run (do_call S u m) S u m w1 = Ok (Inr (), w)"
    by (cases n) (auto simp: res_simps)
  from keeps.run_completes [OF assms(1,2) W1 this]
  show "pred_option (\<lambda>k. t_has_completed k \<and> ended fin (t_future k)) (w_tasks w t)"
    by (cases "w_tasks w t") (auto simp: returned_def)
qed

text \<open>
  Two tasks, one of which yields before it returns. Dropping a future that has not returned
  would shut the executor down.
\<close>

definition calm_user :: "(nat, nat) user" where
  "calm_user = \<lparr>u_poll = (\<lambda>f wk. if f = 0 then Ret (0, Ready 7) else Call (CWake wk) (\<lambda>_. Ret (f - 1, Pending))),
     u_drop = (\<lambda>f. if f = 0 then Ret () else Call CShutdown (\<lambda>_. Ret ())), u_is_err = (\<lambda>_. False)\<rparr>"

definition calm_main :: "(unit, nat, nat) prog" where
  "calm_main = Call (CSpawn (builder_new 1 here)) (\<lambda>_. Call (CSpawn (builder_new 0 here)) (\<lambda>_. Ret ()))"

theorem run_completes_all_tasks_witness:
  "\<exists>w. run_thread demo calm_user 6 (bind_prog calm_main (\<lambda>_. Call CRun Ret)) demo_start = Ok (RRun (Inr ()), w) \<and>
     w_tasks w 2 \<noteq> None \<and> (\<forall>t. pred_option (\<lambda>k. t_has_completed k \<and> ended (\<lambda>f. f = 0) (t_future k)) (w_tasks w t))"
proof -
  have "\<exists>w. run_thread demo calm_user 6 (bind_prog calm_main (\<lambda>_. Call CRun Ret)) demo_start = Ok (RRun (Inr ()), w) \<and>
      w_tasks w 2 \<noteq> None"
    by (simp add: calm_main_def calm_user_def here_def eval_simps cong: eval_congs)
  moreover have "keeping_user (\<lambda>f. f = 0) calm_user" "keeping_prog (\<lambda>_. True) calm_main"
    by (simp_all add: keeping_user_def calm_user_def calm_main_def keeping_def)
  ultimately show ?thesis using run_completes_all_tasks [OF demo_ok] by blast
qed

end
