(* ===== verification/Epox_Termination.thy ===== *)
theory Epox_Termination
  imports Epox_Completion
begin

text \<open>
  \<open>run\<close> returns. For tasks that compute, make system calls, spawn tasks and yield - each poll
  returns, or wakes its own task, and the task and those it has spawned have less left to do -
  the loop of \<open>run\<close> ends after a number of iterations that the work of the tasks bounds: no
  task starves, deadlocks or is polled for ever. Together with \<open>Epox_Completion\<close> this is the
  total correctness of \<open>run\<close> on such programs.
\<close>

section \<open>Cooperative tasks\<close>

text \<open>
  \<open>coop \<mu> self R p woken b\<close>: the program \<open>p\<close>, which has work \<open>b\<close> to spend and may wake \<open>self\<close>
  once, spends \<open>\<mu> f\<close> and one poll on every future \<open>f\<close> that it spawns, and ends with \<open>R\<close>. It
  makes system calls whose results are arbitrary, and may drop the handles it gets.
\<close>

primrec coop :: "('f \<Rightarrow> nat) \<Rightarrow> waker option \<Rightarrow> ('r \<Rightarrow> bool \<Rightarrow> nat \<Rightarrow> bool) \<Rightarrow> ('r, 'f, 'v) prog \<Rightarrow> bool \<Rightarrow> nat \<Rightarrow> bool" where
  "coop \<mu> self R (Ret r) woken b = R r woken b"
| "coop \<mu> self R (Call c k) woken b = (case c of
     CSys _ \<Rightarrow> \<forall>z. coop \<mu> self R (k (RSys z)) woken b
   | CSpawn bd \<Rightarrow> \<mu> (b_future bd) < b \<and> (\<forall>h. coop \<mu> self R (k (RHandle h)) woken (b - Suc (\<mu> (b_future bd))))
   | CHandleDrop _ \<Rightarrow> coop \<mu> self R (k RUnit) woken b
   | CWake wk \<Rightarrow> self = Some wk \<and> \<not> woken \<and> coop \<mu> self R (k RUnit) True b
   | _ \<Rightarrow> False)"
| "coop \<mu> self R UserPanics woken b = False"

definition cooperative :: "('f \<Rightarrow> nat) \<Rightarrow> ('f, 'v) user \<Rightarrow> bool" where
  "cooperative \<mu> u \<longleftrightarrow>
     (\<forall>f wk. coop \<mu> (Some wk) (\<lambda>(f1, r) woken b. if r = Pending then woken \<and> \<mu> f1 < b else \<not> woken)
        (u_poll u f wk) False (\<mu> f)) \<and>
     (\<forall>f. u_drop u f = Ret ())"

text \<open>A kernel without events, in which descriptors can be opened.\<close>

definition quiet_kernel :: "'k kernel \<Rightarrow> bool" where
  "quiet_kernel S \<longleftrightarrow>
     (\<forall>ep n k. \<exists>k'. sys_epoll_wait S ep n TimeoutZero k = (WaitEvents [], k')) \<and>
     (\<forall>k rd wr k1 ep k2 ev. sys_pipe2 S k = (Inr (rd, wr), k1) \<longrightarrow> sys_epoll_create S k1 = (Inr ep, k2) \<longrightarrow>
        (\<exists>k3. sys_epoll_add S ep rd ev k2 = (Inr (), k3)))"

lemma quiet_wait:
  assumes "quiet_kernel S" obtains k' where "epoll_wait S TimeoutZero w = Ok (Inr (), w\<lparr>w_kernel := k'\<rparr>)"
proof (cases "x_events (w_exec w) = []")
  case True
  then show ?thesis using that [of "w_kernel w"] by (simp add: epoll_wait_def)
next
  case False
  obtain k' where "sys_epoll_wait S (x_epoll (w_exec w)) (length (x_events (w_exec w))) TimeoutZero (w_kernel w) = (WaitEvents [], k')"
    using assms unfolding quiet_kernel_def by blast
  with False that [of k'] show ?thesis by (simp add: epoll_wait_def Let_def)
qed

section \<open>Work\<close>

definition task_work :: "('f \<Rightarrow> nat) \<Rightarrow> 'f task_future \<Rightarrow> nat" where
  "task_work \<mu> fut = (case fut of User f \<Rightarrow> \<mu> f | Checked f \<Rightarrow> \<mu> f | CheckedDone \<Rightarrow> 0)"

definition entry_work :: "('f \<Rightarrow> nat) \<Rightarrow> ('k, 'f, 'v) sched \<Rightarrow> ptr \<Rightarrow> nat" where
  "entry_work \<mu> w e = (case e of QHead _ _ \<Rightarrow> 0 | TEntry t \<Rightarrow> (case w_tasks w t of
     None \<Rightarrow> 0 | Some k \<Rightarrow> Suc (task_work \<mu> (t_future k))))"

text \<open>\<open>X\<close> is the task that is being polled, if any; its work is \<open>c\<close>.\<close>

definition work :: "('f \<Rightarrow> nat) \<Rightarrow> nat option \<Rightarrow> nat \<Rightarrow> ptr queues \<Rightarrow> ('k, 'f, 'v) sched \<Rightarrow> nat" where
  "work \<mu> X c Q w = (\<Sum>e \<leftarrow> runnable Q w. if e \<in> TEntry ` set_option X then c else entry_work \<mu> w e)"

definition turn :: "nat option \<Rightarrow> nat \<Rightarrow> nat" where
  "turn X = (case X of None \<Rightarrow> (\<lambda>_. 0) | Some t \<Rightarrow> own t (\<lambda>_. 0))"

lemma turn_simps [simp]: "turn None = (\<lambda>_. 0)" "turn (Some t) = own t (\<lambda>_. 0)"
  by (simp_all add: turn_def)

lemma turn_apply: "turn X s = of_bool (X = Some s)"
  by (cases X) auto

text \<open>
  The tasks in the run queues and the task \<open>X\<close> wait for nothing but their turn, none is asleep,
  and all others have completed.
\<close>

definition runs_freely :: "nat option \<Rightarrow> ('k, 'f, 'v) sched \<Rightarrow> nat \<Rightarrow> bool" where
  "runs_freely X w t \<longleftrightarrow> (\<exists>k f. w_tasks w t = Some k \<and> \<not> t_has_completed k \<and> t_handle_waker k = NoopWaker \<and>
     t_pipe_wr k = x_pipe_wr (w_exec w) \<and> (t_borrowed k \<longleftrightarrow> X = Some t) \<and> t_future k = User f)"

definition busy :: "nat option \<Rightarrow> ptr queues \<Rightarrow> ('k, 'f, 'v) sched \<Rightarrow> bool" where
  "busy X Q w \<longleftrightarrow> wfq (turn X) Q w \<and> members Q (head_of Sleepq w) = [] \<and> \<not> x_shutdown (w_exec w) \<and>
     (\<forall>t. TEntry t \<in> set (runnable Q w) \<or> X = Some t \<longrightarrow> runs_freely X w t) \<and>
     (\<forall>t k. w_tasks w t = Some k \<longrightarrow> t_has_completed k \<or> TEntry t \<in> set (runnable Q w) \<or> X = Some t)"

text \<open>\<open>woken\<close> says whether \<open>X\<close> is in a run queue again; \<open>W\<close> is the work of the other tasks.\<close>

definition polling :: "('f \<Rightarrow> nat) \<Rightarrow> nat option \<Rightarrow> bool \<Rightarrow> nat \<Rightarrow> ptr queues \<Rightarrow> ('k, 'f, 'v) sched \<Rightarrow> bool" where
  "polling \<mu> X woken W Q w \<longleftrightarrow> busy X Q w \<and> (\<forall>c. work \<mu> X c Q w = (if woken then c else 0) + W) \<and>
     (\<forall>t. X = Some t \<longrightarrow> (queued Q (TEntry t) \<longleftrightarrow> woken) \<and> (woken \<longrightarrow> TEntry t \<in> set (runnable Q w)))"

lemma runnable_frame [simp]:
  "runnable Q (w\<lparr>w_kernel := k\<rparr>) = runnable Q w" "runnable Q (w\<lparr>w_queue := q\<rparr>) = runnable Q w"
  "runnable Q (w\<lparr>w_tasks := T\<rparr>) = runnable Q w" "runnable Q (w\<lparr>w_handles := H\<rparr>) = runnable Q w"
  "runnable Q (put_task t k' w) = runnable Q w"
  by (simp_all add: runnable_def runq_head put_task_def)

lemma entry_work_cong:
  "(\<And>s. e = TEntry s \<Longrightarrow> w_tasks w' s = w_tasks w s) \<Longrightarrow> entry_work \<mu> w' e = entry_work \<mu> w e"
  by (simp add: entry_work_def split: ptr.split)

lemma work_cong:
  assumes "runnable Q w' = runnable Q w"
    and "\<And>s. TEntry s \<in> set (runnable Q w) \<Longrightarrow> X \<noteq> Some s \<Longrightarrow> w_tasks w' s = w_tasks w s"
  shows "work \<mu> X c Q w' = work \<mu> X c Q w"
  unfolding work_def assms(1)
  by (intro arg_cong [of _ _ sum_list] map_cong refl if_cong entry_work_cong) (use assms(2) in auto)

lemma polling_busy: "polling \<mu> X woken W Q w \<Longrightarrow> busy X Q w"
  and busy_wfq: "busy X Q w \<Longrightarrow> wfq (turn X) Q w"
  and busy_sleep: "busy X Q w \<Longrightarrow> members Q (head_of Sleepq w) = []"
  and busy_up: "busy X Q w \<Longrightarrow> \<not> x_shutdown (w_exec w)"
  and busy_runs: "busy X Q w \<Longrightarrow> TEntry t \<in> set (runnable Q w) \<or> X = Some t \<Longrightarrow> runs_freely X w t"
  unfolding polling_def busy_def by blast+

lemma polling_kernel [simp]: "polling \<mu> X woken W Q (w\<lparr>w_kernel := k\<rparr>) = polling \<mu> X woken W Q w"
  by (simp add: polling_def busy_def runs_freely_def head_of_def work_cong [of Q "w\<lparr>w_kernel := k\<rparr>" w])

lemma runnable_queued: "TEntry t \<in> set (runnable Q w) \<Longrightarrow> queued Q (TEntry t)"
  by (auto simp: runnable_def dest: members_queued)

lemma runnable_qpush_sum:
  assumes "wfq E Q w" and "\<not> queued Q e"
  shows "(\<Sum>x \<leftarrow> runnable (qpush (runq p w) e Q) w. g x) = (g e :: nat) + (\<Sum>x \<leftarrow> runnable Q w. g x)"
    and "set (runnable (qpush (runq p w) e Q) w) = insert e (set (runnable Q w))"
    and "members (qpush (runq p w) e Q) (head_of Sleepq w) = members Q (head_of Sleepq w)"
proof -
  obtain xs where xs: "Q (runq p w) = Some xs" using wfq_head(2) [OF assms(1)] by blast
  have id: "qremove e Q = Q" using assms(2) by (rule qremove_id)
  have m: "members (qpush (runq p w) e Q) h = (if h = runq p w then members Q h @ [e] else members Q h)" for h
    by (simp add: qpush_def id members_def xs)
  show "(\<Sum>x \<leftarrow> runnable (qpush (runq p w) e Q) w. g x) = g e + (\<Sum>x \<leftarrow> runnable Q w. g x)"
    "set (runnable (qpush (runq p w) e Q) w) = insert e (set (runnable Q w))"
    unfolding runnable_def m by (cases p; simp add: runq_head; blast)+
  show "members (qpush (runq p w) e Q) (head_of Sleepq w) = members Q (head_of Sleepq w)"
    unfolding m by (cases p) (simp_all add: runq_head head_of_def)
qed

section \<open>The calls of a poll\<close>

lemma spawn_polling:
  assumes P: "polling \<mu> X woken W Q w"
  shows "\<exists>h w' Q'. spawn b w = Ok (h, w') \<and> polling \<mu> X woken (Suc (\<mu> (b_future b)) + W) Q' w'"
proof -
  note B = polling_busy [OF P]
  note Q = busy_wfq [OF B]
  obtain f md p where b: "into_parts b = (f, md, p)" "f = b_future b" by (simp add: into_parts_def)
  let ?t = "w_next w" and ?k = "executor_task_new (x_pipe_wr (w_exec w)) (User f) p md"
  obtain h w' Q' where s: "spawn_task (User f) p md w = Ok (h, w')" "wfq (turn X) Q' w'"
    "Q' = qpush (runq p w) (TEntry ?t) Q" "\<not> queued Q (TEntry ?t)" "w_tasks w ?t = None"
    and w': "w_tasks w' = (w_tasks w)(?t \<mapsto> ?k)" "w_exec w' = w_exec w"
    using spawn_task_wfq [OF Q, of "User f" p md] by auto
  note push = runnable_qpush_sum [where p = p, OF Q s(4)]
  have r: "runnable Q' w' = runnable Q' w" by (simp add: runnable_def runq_head w'(2))
  have ins: "set (runnable Q' w') = insert (TEntry ?t) (set (runnable Q w))" using push(2) r by (simp only: s(3))
  have X: "X \<noteq> Some ?t" using busy_runs [OF B, of ?t] s(5) by (auto simp: runs_freely_def)
  have others: "s \<noteq> ?t" if "TEntry s \<in> set (runnable Q w)" for s
    using that s(4) runnable_queued [of s Q w] by auto
  have k: "runs_freely X w' ?t" using X by (simp add: runs_freely_def executor_task_new_def w')
  have "runs_freely X w' s" if "TEntry s \<in> set (runnable Q' w') \<or> X = Some s" for s
    using that busy_runs [OF B, of s] k others X unfolding ins by (cases "s = ?t") (auto simp: runs_freely_def w')
  moreover have "t_has_completed k \<or> TEntry s \<in> set (runnable Q' w') \<or> X = Some s" if "w_tasks w' s = Some k" for s k
    using that B by (auto simp: ins busy_def w'(1) split: if_splits)
  moreover have "members Q' (head_of Sleepq w') = []" using busy_sleep [OF B] push(3) by (simp add: s(3) head_of_def w'(2))
  ultimately have "busy X Q' w'" using s(2) busy_up [OF B] by (simp add: busy_def w'(2))
  moreover have "work \<mu> X c Q' w' = Suc (\<mu> f) + work \<mu> X c Q w" for c
  proof -
    let ?g = "\<lambda>e. if e \<in> TEntry ` set_option X then c else entry_work \<mu> w' e"
    have "work \<mu> X c Q' w' = (\<Sum>x \<leftarrow> runnable (qpush (runq p w) (TEntry ?t) Q) w. ?g x)"
      unfolding work_def r by (simp only: s(3))
    also have "\<dots> = ?g (TEntry ?t) + (\<Sum>x \<leftarrow> runnable Q w. ?g x)" by (rule push(1))
    also have "(\<Sum>x \<leftarrow> runnable Q w. ?g x) = work \<mu> X c Q w"
      unfolding work_def
      by (intro arg_cong [of _ _ sum_list] map_cong refl if_cong entry_work_cong) (use w'(1) others in auto)
    finally show ?thesis using X by (auto simp: entry_work_def w'(1) task_work_def executor_task_new_def)
  qed
  moreover have "queued Q' (TEntry t) \<longleftrightarrow> queued Q (TEntry t)" if "X = Some t" for t
    using that X wfq_head(2) [OF Q, of p] by (simp add: s(3))
  ultimately have "polling \<mu> X woken (Suc (\<mu> f) + W) Q' w'" using P ins by (simp add: polling_def)
  with s(1) b show ?thesis by (auto simp: spawn_def)
qed

text \<open>A reference to a task is dropped: the task is freed only when it has completed.\<close>

lemma drop_finished:
  assumes Q: "wfq (own t E) Q w" and k: "w_tasks w t = Some k" "t_borrowed k \<Longrightarrow> 0 < E t" and u: "\<And>f. u_drop u f = Ret ()"
  shows "\<exists>q T. drop_task cs u t w = Ok (w\<lparr>w_queue := q, w_tasks := T\<rparr>) \<and> wfq E Q (w\<lparr>w_queue := q, w_tasks := T\<rparr>) \<and>
    (\<forall>s. s \<noteq> t \<longrightarrow> T s = w_tasks w s) \<and> (T t = None \<or> T t = w_tasks w t) \<and>
    (queued Q (TEntry t) \<or> 0 < E t \<longrightarrow> T = w_tasks w)"
proof (cases "1 < strong (w_queue w) (TEntry t)")
  case True
  obtain q' where q': "arc_dec (TEntry t) (w_queue w) = Ok q'"
      "core E Q q' (w_tasks w) (w_handles w) (w_next w) (x_id (w_exec w))"
    using core_forget [OF wfqD [OF Q] True] k by auto
  then show ?thesis
    unfolding drop_task_more [OF True] arc_forget_def with_queue_def
    by (intro exI [of _ q'] exI [of _ "w_tasks w"]) (simp add: wfq_def)
next
  case False
  have r: "strong (w_queue w) (TEntry t) = refs (own t E) Q (w_handles w) t" by (rule wfq_count [OF Q])
  with False have one: "strong (w_queue w) (TEntry t) = 1" "E t = 0" "\<not> queued Q (TEntry t)"
    by (auto simp: refs_def split: if_splits)
  obtain q' where q': "arc_dec (TEntry t) (w_queue w) = Ok q'" "strong q' (TEntry t) = 0"
    "core E Q (entry_free (TEntry t) q') ((w_tasks w)(t := None)) (w_handles w) (w_next w) (x_id (w_exec w))"
    using core_free_task [OF wfqD [OF Q] one(1,2)] by blast
  have "drop_future u (t_future k) = Ret ()" by (simp add: drop_future_def u split: task_future.split)
  with q' k one show ?thesis
    by (intro exI [of _ "entry_free (TEntry t) q'"] exI [of _ "(w_tasks w)(t := None)"])
       (simp add: drop_task_def arc_forget_def with_queue_def get_task_def wfq_def)
qed

lemma drop_polling:
  assumes P: "polling \<mu> X woken W Q w" and h: "w_handles w h = Some t" and u: "\<And>f. u_drop u f = Ret ()"
  shows "\<exists>w'. handle_drop cs u h t w = Ok w' \<and> polling \<mu> X woken W Q w'"
proof -
  note B = polling_busy [OF P]
  let ?w = "w\<lparr>w_handles := (w_handles w)(h := None)\<rparr>"
  have Q: "wfq (own t (turn X)) Q ?w"
    using core_handle_remove [OF wfqD [OF busy_wfq [OF B]] h] by (simp add: wfq_def)
  obtain k where k: "w_tasks w t = Some k" using core_handle_live [OF wfqD [OF busy_wfq [OF B]] h] by blast
  have k1: "w_tasks ?w t = Some k" using k by simp
  have bor: "0 < turn X t" if "t_borrowed k" using wfq_borrowed [OF busy_wfq [OF B] k that] .
  obtain q T where d: "drop_task cs u t ?w = Ok (?w\<lparr>w_queue := q, w_tasks := T\<rparr>)"
    "wfq (turn X) Q (?w\<lparr>w_queue := q, w_tasks := T\<rparr>)" "\<And>s. s \<noteq> t \<Longrightarrow> T s = w_tasks w s" "T t = None \<or> T t = w_tasks w t"
    "queued Q (TEntry t) \<or> 0 < turn X t \<Longrightarrow> T = w_tasks w"
    using drop_finished [where u = u and cs = cs, OF Q k1 bor u] by auto
  let ?w' = "?w\<lparr>w_queue := q, w_tasks := T\<rparr>"
  have same: "T s = w_tasks w s" if "TEntry s \<in> set (runnable Q w) \<or> X = Some s" for s
    using that d(3,5) runnable_queued [of s Q w] by (cases "s = t") (auto simp: turn_apply)
  have "T s = None \<or> T s = w_tasks w s" for s using d(3,4) by (cases "s = t") auto
  then have "t_has_completed k \<or> TEntry s \<in> set (runnable Q w) \<or> X = Some s" if "T s = Some k" for s k
    using that B by (metis busy_def option.distinct(1))
  then have "busy X Q ?w'"
    using B d(2) same by (simp add: busy_def runs_freely_def head_of_def)
  moreover have "work \<mu> X c Q ?w' = work \<mu> X c Q w" for c
    by (rule work_cong) (use same in auto)
  ultimately show ?thesis using P d(1) by (simp add: polling_def handle_drop_def)
qed

lemma wake_polling:
  assumes S: "quiet_kernel S" and P: "polling \<mu> (Some t) False W Q w"
  shows "\<exists>w' Q'. wake_by_ref S (TaskWaker t) w = Ok w' \<and> polling \<mu> (Some t) True W Q' w'"
proof -
  note B = polling_busy [OF P]
  have Q: "wfq (own t (\<lambda>_. 0)) Q w" and nq: "\<not> queued Q (TEntry t)"
    using busy_wfq [OF B] P by (simp_all add: polling_def)
  obtain k f where k: "w_tasks w t = Some k" "t_borrowed k" "\<not> t_has_completed k" "t_pipe_wr k = x_pipe_wr (w_exec w)"
    using busy_runs [OF B, of t] by (auto simp: runs_freely_def)
  have live: "0 < strong (w_queue w) (TEntry t)" using wfq_live [OF Q] k(1) by blast
  obtain k' where k': "epoll_wait S TimeoutZero (arc_clone t w) = Ok (Inr (), (arc_clone t w)\<lparr>w_kernel := k'\<rparr>)"
    using quiet_wait [OF S] .
  let ?w = "(arc_clone t w)\<lparr>w_kernel := k'\<rparr>"
  have Q1: "wfq (own t (own t (\<lambda>_. 0))) Q ?w" using clone_wfq [OF Q live] by (simp add: wfq_def)
  have k1: "w_tasks ?w t = Some k" using k(1) by (simp add: arc_clone_def)
  obtain q where q: "enqueue t ?w = Ok (?w\<lparr>w_queue := q\<rparr>)"
    "wfq (own t (\<lambda>_. 0)) (if t_has_completed k then Q else qpush (runq (t_priority k) ?w) (TEntry t) Q) (?w\<lparr>w_queue := q\<rparr>)"
    by (rule enqueue_wfq [OF Q1 k1]) (use k(3) in simp_all)
  have e: "w_exec ?w = w_exec w" "?w\<lparr>w_queue := q\<rparr> = w\<lparr>w_kernel := k', w_queue := q\<rparr>"
    by (simp_all add: arc_clone_def)
  let ?Q = "qpush (runq (t_priority k) w) (TEntry t) Q" and ?w' = "w\<lparr>w_kernel := k', w_queue := q\<rparr>"
  have wake: "wake_by_ref S (TaskWaker t) w = Ok ?w'"
    using k k' weak_upgrade_live [OF Q k(1)] q(1) e(2)
    by (simp add: wake_by_ref_def wake_task_def get_task_def arc_clone_def)
  have Q': "wfq (own t (\<lambda>_. 0)) ?Q ?w'" using q(2) k(3) e by (simp add: runq_head)
  note push = runnable_qpush_sum [where p = "t_priority k", OF Q nq]
  have "busy (Some t) ?Q ?w'" unfolding busy_def
    using Q' push(2,3) B by (auto simp: busy_def runs_freely_def head_of_def)
  moreover have "work \<mu> (Some t) c ?Q ?w' = c + work \<mu> (Some t) c Q w" for c
  proof -
    have "work \<mu> (Some t) c ?Q ?w' = work \<mu> (Some t) c ?Q w" by (rule work_cong) simp_all
    then show ?thesis unfolding work_def push(1) by simp
  qed
  moreover have "queued ?Q (TEntry t)" using wfq_head(2) [OF Q] by simp
  ultimately have "polling \<mu> (Some t) True W ?Q ?w'" using P push(2) by (simp add: polling_def)
  with wake show ?thesis by blast
qed


lemma coop_interp:
  assumes S: "quiet_kernel S" and u: "\<And>f. u_drop u f = Ret ()"
  shows "coop \<mu> (map_option TaskWaker X) R p woken b \<Longrightarrow> polling \<mu> X woken W Q w \<Longrightarrow>
    \<exists>r w' Q' woken' W' b'. interp (do_call S u (Suc m)) p w = Ok (r, w') \<and> polling \<mu> X woken' W' Q' w' \<and>
      R r woken' b' \<and> W' + b' \<le> W + b"
proof (induction p arbitrary: woken b W Q w)
  case (Ret r)
  then show ?case by fastforce
next
  case (Call c k)
  have step: ?case if c: "do_call S u (Suc m) c w = Ok (x, w1)" and co: "coop \<mu> (map_option TaskWaker X) R (k x) v b1"
    and P1: "polling \<mu> X v W1 Q1 w1" and le: "W1 + b1 \<le> W + b" for x w1 v b1 W1 Q1
  proof -
    obtain r w' Q' woken' W' b' where "interp (do_call S u (Suc m)) (k x) w1 = Ok (r, w')" "polling \<mu> X woken' W' Q' w'"
      "R r woken' b'" "W' + b' \<le> W1 + b1"
      using Call.IH [OF rangeI co P1] by blast
    moreover from this(1) c have "interp (do_call S u (Suc m)) (Call c k) w = Ok (r, w')"
      by (simp del: do_call.simps)
    ultimately show ?thesis using le order_trans by blast
  qed
  show ?case
  proof (cases c)
    case (CSys n)
    obtain z kk where z: "sys_other S n (w_kernel w) = (z, kk)" by force
    then show ?thesis using CSys Call.prems
      by (intro step [of "RSys z" "w\<lparr>w_kernel := kk\<rparr>" woken b W Q]) auto
  next
    case (CSpawn bd)
    obtain h w1 Q1 where "spawn bd w = Ok (h, w1)" "polling \<mu> X woken (Suc (\<mu> (b_future bd)) + W) Q1 w1"
      using spawn_polling [OF Call.prems(2)] by blast
    then show ?thesis using CSpawn Call.prems(1) by (intro step [of "RHandle h" w1 woken "b - Suc (\<mu> (b_future bd))"]) auto
  next
    case (CHandleDrop h)
    show ?thesis
    proof (cases "w_handles w h")
      case None
      then show ?thesis using CHandleDrop Call.prems by (intro step [OF _ _ _ order_refl]) (auto simp: with_handle_def)
    next
      case (Some t)
      obtain w1 where "handle_drop (do_call S u m) u h t w = Ok w1" "polling \<mu> X woken W Q w1"
        using drop_polling [OF Call.prems(2) Some u] by blast
      then show ?thesis using CHandleDrop Call.prems(1) Some by (intro step [of RUnit w1 woken b]) (auto simp: with_handle_def)
    qed
  next
    case (CWake wk)
    then obtain t where t: "X = Some t" "wk = TaskWaker t" "\<not> woken" using Call.prems(1) by auto
    obtain w1 Q1 where "wake_by_ref S (TaskWaker t) w = Ok w1" "polling \<mu> (Some t) True W Q1 w1"
      using wake_polling [OF S, of \<mu> t W Q w] Call.prems(2) t by auto
    then show ?thesis using CWake Call.prems(1) t by (intro step [of RUnit w1 True b]) auto
  qed (use Call.prems(1) in simp_all)
qed simp

section \<open>One iteration\<close>

text \<open>The task \<open>t\<close> has been taken from its queue and is about to be polled.\<close>

lemma take_polling:
  assumes B: "busy None Q w" and run: "runnable Q w = e # es"
  shows "\<exists>t q' Q' k f. e = TEntry t \<and> highest_priority_runnable_task w = Ok (Some e, w\<lparr>w_queue := q'\<rparr>) \<and>
    w_tasks w t = Some k \<and> \<not> t_borrowed k \<and> t_future k = User f \<and>
    polling \<mu> (Some t) False (sum_list (map (entry_work \<mu> w) es)) Q' (put_task t (k\<lparr>t_borrowed := True\<rparr>) (w\<lparr>w_queue := q'\<rparr>)) \<and>
    work \<mu> None c Q w = Suc (\<mu> f) + sum_list (map (entry_work \<mu> w) es)"
proof -
  have Q: "wfq (\<lambda>_. 0) Q w" using busy_wfq [OF B] by simp
  obtain t q' n where t: "e = TEntry t" "highest_priority_runnable_task w = Ok (Some (TEntry t), w\<lparr>w_queue := q'\<rparr>)"
    "wfq (own t (\<lambda>_. 0)) (qtail (head_of n w) Q) (w\<lparr>w_queue := q'\<rparr>)" "runnable (qtail (head_of n w) Q) w = es"
    "n \<noteq> Sleepq" "\<not> queued (qtail (head_of n w) Q) (TEntry t)"
    using highest_priority_some [OF Q run] by metis
  let ?Q = "qtail (head_of n w) Q" and ?w = "w\<lparr>w_queue := q'\<rparr>"
  obtain k f where k: "w_tasks w t = Some k" "\<not> t_has_completed k" "t_handle_waker k = NoopWaker"
    "t_pipe_wr k = x_pipe_wr (w_exec w)" "\<not> t_borrowed k" "t_future k = User f"
    using busy_runs [OF B, of t] run t(1) by (auto simp: runs_freely_def)
  let ?w1 = "put_task t (k\<lparr>t_borrowed := True\<rparr>) ?w"
  have others: "s \<noteq> t" if "TEntry s \<in> set es" for s
    using that t(4,6) runnable_queued [of s ?Q w] by auto
  have es: "runnable ?Q ?w1 = es" using t(4) by simp
  have "wfq (own t (\<lambda>_. 0)) ?Q ?w1" by (rule put_task_wfq [OF t(3)]) (use k(1) in simp_all)
  moreover have "members ?Q (head_of Sleepq ?w1) = []"
    using busy_sleep [OF B] t(5) by (simp add: qtail_def members_def head_of_def put_task_def)
  moreover have "runs_freely (Some t) ?w1 s" if "TEntry s \<in> set es \<or> Some t = Some s" for s
    using that busy_runs [OF B, of s] run k others by (cases "s = t") (auto simp: runs_freely_def put_task_def)
  moreover have "t_has_completed k' \<or> TEntry s \<in> set es \<or> Some t = Some s" if "w_tasks ?w1 s = Some k'" for s k'
    using that B run t(1) by (cases "s = t") (auto simp: busy_def put_task_def)
  ultimately have "busy (Some t) ?Q ?w1" using busy_up [OF B] es by (simp add: busy_def put_task_def)
  moreover have "work \<mu> (Some t) c ?Q ?w1 = sum_list (map (entry_work \<mu> w) es)" for c
    unfolding work_def es
    by (intro arg_cong [of _ _ sum_list] map_cong refl) (use others in \<open>auto simp: put_task_def intro!: entry_work_cong\<close>)
  ultimately have "polling \<mu> (Some t) False (sum_list (map (entry_work \<mu> w) es)) ?Q ?w1"
    using t(6) by (simp add: polling_def)
  moreover have "work \<mu> None c Q w = Suc (\<mu> f) + sum_list (map (entry_work \<mu> w) es)"
    using run k(1,6) t(1) by (simp add: work_def entry_work_def [of \<mu> w "TEntry t"] task_work_def)
  ultimately show ?thesis using t(1,2) k by blast
qed

text \<open>The end of a poll: the task gives up its turn, and is freed if it has completed.\<close>

lemma end_polling:
  assumes P: "polling \<mu> (Some t) woken W Q w" and k: "w_tasks w t = Some k"
    and k': "t_priority k' = t_priority k" "\<not> t_borrowed k'" "t_has_completed k' \<longleftrightarrow> \<not> woken"
    and free: "woken \<Longrightarrow> t_handle_waker k' = NoopWaker \<and> t_pipe_wr k' = t_pipe_wr k \<and> t_future k' = User f"
    and u: "\<And>f. u_drop u f = Ret ()"
  shows "\<exists>w'. drop_task cs u t (put_task t k' w) = Ok w' \<and> busy None Q w' \<and>
    work \<mu> None c Q w' = (if woken then Suc (\<mu> f) else 0) + W"
proof -
  note B = polling_busy [OF P]
  let ?w = "put_task t k' w"
  have Q: "wfq (own t (\<lambda>_. 0)) Q ?w" using busy_wfq [OF B] by (intro put_task_wfq [OF _ k k'(1)]) simp_all
  have q: "queued Q (TEntry t) \<longleftrightarrow> woken" "woken \<Longrightarrow> TEntry t \<in> set (runnable Q w)" using P by (simp_all add: polling_def)
  have k1: "w_tasks ?w t = Some k'" by (simp add: put_task_def)
  obtain q1 T where d: "drop_task cs u t ?w = Ok (?w\<lparr>w_queue := q1, w_tasks := T\<rparr>)"
    "wfq (\<lambda>_. 0) Q (?w\<lparr>w_queue := q1, w_tasks := T\<rparr>)" "\<And>s. s \<noteq> t \<Longrightarrow> T s = w_tasks w s"
    "T t = None \<or> T t = Some k'" "woken \<Longrightarrow> T t = Some k'"
    using drop_finished [where u = u and cs = cs, OF Q k1 _ u] k'(2) q(1) k1 by (auto simp: put_task_def)
  let ?w' = "?w\<lparr>w_queue := q1, w_tasks := T\<rparr>"
  have r: "runnable Q ?w' = runnable Q w" by simp
  have "runs_freely None ?w' s" if s: "TEntry s \<in> set (runnable Q w)" for s
  proof (cases "s = t")
    case True
    then have w: woken using s runnable_queued [of t Q w] q(1) by simp
    have "t_pipe_wr k = x_pipe_wr (w_exec w)" using busy_runs [OF B, of t] k by (auto simp: runs_freely_def)
    with True d(5) w k' free show ?thesis by (simp add: runs_freely_def put_task_def)
  next
    case False
    then show ?thesis using busy_runs [OF B, of s] s d(3) by (auto simp: runs_freely_def put_task_def)
  qed
  moreover have "t_has_completed k2 \<or> TEntry s \<in> set (runnable Q w)" if "T s = Some k2" for s k2
    using that B d(3) [of s] d(4) k'(3) q(2) by (cases "s = t") (auto simp: busy_def)
  ultimately have "busy None Q ?w'" using d(2) busy_sleep [OF B] busy_up [OF B] by (simp add: busy_def head_of_def put_task_def)
  moreover have "work \<mu> None c Q ?w' = work \<mu> (Some t) (Suc (\<mu> f)) Q w"
    unfolding work_def r
  proof (intro arg_cong [of _ _ sum_list] map_cong refl)
    fix e assume e: "e \<in> set (runnable Q w)"
    show "(if e \<in> TEntry ` set_option None then c else entry_work \<mu> ?w' e) =
      (if e \<in> TEntry ` set_option (Some t) then Suc (\<mu> f) else entry_work \<mu> w e)"
    proof (cases "e = TEntry t")
      case True
      then have "woken" using e runnable_queued [of t Q w] q(1) by simp
      with True d(5) free show ?thesis by (simp add: entry_work_def task_work_def)
    next
      case False
      have "entry_work \<mu> ?w' e = entry_work \<mu> w e" by (rule entry_work_cong) (use False d(3) in auto)
      with False show ?thesis by auto
    qed
  qed
  ultimately show ?thesis using d(1) P by (auto simp: polling_def)
qed

lemma run_busy_task:
  assumes S: "quiet_kernel S" and u: "cooperative \<mu> u" and B: "busy None Q w" and run: "runnable Q w = e # es"
  shows "\<exists>w1 w2 Q2. highest_priority_runnable_task w = Ok (Some e, w1) \<and>
    run_entry (do_call S u (Suc m)) S u e w1 = Ok w2 \<and> busy None Q2 w2 \<and> work \<mu> None 0 Q2 w2 < work \<mu> None 0 Q w"
proof -
  let ?cs = "do_call S u (Suc m)"
  obtain t q' Q1 k f where t: "e = TEntry t" "highest_priority_runnable_task w = Ok (Some e, w\<lparr>w_queue := q'\<rparr>)"
    "w_tasks w t = Some k" "\<not> t_borrowed k" "t_future k = User f"
    and P: "polling \<mu> (Some t) False (sum_list (map (entry_work \<mu> w) es)) Q1 (put_task t (k\<lparr>t_borrowed := True\<rparr>) (w\<lparr>w_queue := q'\<rparr>))"
    and W: "work \<mu> None 0 Q w = Suc (\<mu> f) + sum_list (map (entry_work \<mu> w) es)"
    using take_polling [OF B run, of \<mu> 0] by blast
  let ?w = "w\<lparr>w_queue := q'\<rparr>" and ?w1 = "put_task t (k\<lparr>t_borrowed := True\<rparr>) (w\<lparr>w_queue := q'\<rparr>)"
  have u_drop: "u_drop u f = Ret ()" for f using u by (simp add: cooperative_def)
  have "coop \<mu> (map_option TaskWaker (Some t)) (\<lambda>(f1, r) woken b. if r = Pending then woken \<and> \<mu> f1 < b else \<not> woken)
      (u_poll u f (TaskWaker t)) False (\<mu> f)"
    using u by (simp add: cooperative_def)
  from coop_interp [OF S u_drop this P, of m]
  obtain f1 r w2 Q2 woken W2 b where p: "interp ?cs (u_poll u f (TaskWaker t)) ?w1 = Ok ((f1, r), w2)"
    "polling \<mu> (Some t) woken W2 Q2 w2" "if r = Pending then woken \<and> \<mu> f1 < b else \<not> woken"
    "W2 + b \<le> sum_list (map (entry_work \<mu> w) es) + \<mu> f"
    by (auto simp del: do_call.simps interp.simps)
  have poll: "poll_future ?cs u (t_future k) (TaskWaker t) ?w1 = Ok ((User f1, r), w2)"
    using p(1) t(5) by (simp add: poll_future_def del: do_call.simps)
  obtain k1 where k1: "w_tasks w2 t = Some k1" "\<not> t_has_completed k1" "t_handle_waker k1 = NoopWaker"
    using busy_runs [OF polling_busy [OF p(2)], of t] by (auto simp: runs_freely_def)
  have task: "get_task t ?w = Ok k" "get_task t w2 = Ok k1" using t(3) k1(1) by (simp_all add: get_task_def)
  have "\<exists>w3 Q3. run_task ?cs S u t ?w = Ok w3 \<and> busy None Q3 w3 \<and> work \<mu> None 0 Q3 w3 < work \<mu> None 0 Q w"
  proof (cases r)
    case (Ready v)
    let ?k4 = "k1\<lparr>t_future := User f1, t_output := Some v, t_handle_waker := NoopWaker, t_has_completed := True, t_borrowed := False\<rparr>"
    have "run_task ?cs S u t ?w = drop_task ?cs u t (put_task t ?k4 w2)"
      using task t(4) poll k1(3) Ready
      by (simp add: run_task_def wake_by_ref_def Let_def get_task_def put_task_def del: do_call.simps)
    moreover obtain w3 where "drop_task ?cs u t (put_task t ?k4 w2) = Ok w3" "busy None Q2 w3" "work \<mu> None 0 Q2 w3 = W2"
      using end_polling [where k' = ?k4 and u = u and cs = ?cs, OF p(2) k1(1)] p(3) Ready u_drop by auto
    ultimately show ?thesis using p(4) W by (intro exI [of _ w3] exI [of _ Q2]) simp
  next
    case Pending
    let ?k3 = "k1\<lparr>t_future := User f1, t_borrowed := False\<rparr>"
    let ?w3 = "put_task t ?k3 w2"
    have "wfq (own t (\<lambda>_. 0)) Q2 w2" using busy_wfq [OF polling_busy [OF p(2)]] by simp
    then have "wfq (own t (\<lambda>_. 0)) Q2 ?w3" by (rule put_task_wfq [OF _ k1(1)]) simp_all
    moreover have "w_tasks ?w3 t = Some ?k3" by (simp add: put_task_def)
    moreover have "queued Q2 (TEntry t)" using p(2,3) Pending by (simp add: polling_def)
    ultimately have "run_task ?cs S u t ?w = drop_task ?cs u t ?w3"
      using task t(4) poll Pending task_is_queued_wfq [of _ Q2 ?w3 t]
      by (simp add: run_task_def Let_def del: do_call.simps)
    moreover obtain w4 where "drop_task ?cs u t ?w3 = Ok w4" "busy None Q2 w4" "work \<mu> None 0 Q2 w4 = Suc (\<mu> f1) + W2"
      using end_polling [where k' = ?k3 and u = u and cs = ?cs and f = f1, OF p(2) k1(1)] p(3) Pending u_drop k1 by auto
    ultimately show ?thesis using p(3,4) Pending W by (intro exI [of _ w4] exI [of _ Q2]) simp
  qed
  with t(1,2) show ?thesis by (auto simp: run_entry_def simp del: do_call.simps)
qed

section \<open>The loop\<close>

lemma busy_loop:
  assumes S: "quiet_kernel S" and u: "cooperative \<mu> u"
  shows "busy None Q w \<Longrightarrow> work \<mu> None 0 Q w < n \<Longrightarrow> \<exists>w' Q'. run_loop (do_call S u (Suc m)) S u n w = Ok (Inr (), w') \<and>
    busy None Q' w' \<and> runnable Q' w' = []"
proof (induction n arbitrary: Q w)
  case (Suc n)
  have Q: "wfq (\<lambda>_. 0) Q w" using busy_wfq [OF Suc.prems(1)] by simp
  show ?case
  proof (cases "runnable Q w")
    case Nil
    with Suc.prems(1) highest_priority_none [OF Q Nil] sleepq_is_empty_wfq [OF Q] show ?thesis
      by (intro exI [of _ w] exI [of _ Q]) (simp add: busy_def)
  next
    case (Cons e es)
    obtain w1 w2 Q2 where w2: "highest_priority_runnable_task w = Ok (Some e, w1)"
      "run_entry (do_call S u (Suc m)) S u e w1 = Ok w2" "busy None Q2 w2" "work \<mu> None 0 Q2 w2 < work \<mu> None 0 Q w"
      using run_busy_task [OF S u Suc.prems(1) Cons, of m] by blast
    obtain k where k: "epoll_wait S TimeoutZero w2 = Ok (Inr (), w2\<lparr>w_kernel := k\<rparr>)" using quiet_wait [OF S] .
    have B: "busy None Q2 (w2\<lparr>w_kernel := k\<rparr>)" using w2(3) by (simp add: busy_def runs_freely_def head_of_def)
    have "work \<mu> None 0 Q2 (w2\<lparr>w_kernel := k\<rparr>) = work \<mu> None 0 Q2 w2" by (rule work_cong) simp_all
    then have "work \<mu> None 0 Q2 (w2\<lparr>w_kernel := k\<rparr>) < n" using w2(4) Suc.prems(2) by simp
    then have "\<exists>w' Q'. run_loop (do_call S u (Suc m)) S u n (w2\<lparr>w_kernel := k\<rparr>) = Ok (Inr (), w') \<and>
        busy None Q' w' \<and> runnable Q' w' = []"
      by (rule Suc.IH [OF B])
    with w2(1,2) k busy_up [OF w2(3)] show ?thesis by (simp del: do_call.simps)
  qed
qed simp

lemma quiet_executor_new:
  assumes S: "quiet_kernel S" and Q: "wfq E Q w"
  shows "\<exists>r w'. executor_new S w = Ok (r, w')"
proof -
  obtain z k1 where z: "sys_pipe2 S (w_kernel w) = (z, k1)" by force
  obtain y k2 where y: "sys_epoll_create S k1 = (y, k2)" by force
  obtain q where q: "init_queues (w_next w) (w_queue w) = Ok q"
    using core_new_executor [OF wfqD [OF Q]] by metis
  show ?thesis
  proof (cases "\<exists>rd wr ep. z = Inr (rd, wr) \<and> y = Inr ep")
    case True
    then obtain rd wr ep where e: "z = Inr (rd, wr)" "y = Inr ep" by blast
    then obtain k3 where "sys_epoll_add S ep rd \<lparr>ev_events = EPOLLIN, ev_data = 0\<rparr> k2 = (Inr (), k3)"
      using S z y unfolding quiet_kernel_def by blast
    with z y e q show ?thesis by (simp add: executor_new_def Let_def)
  next
    case False
    with z y show ?thesis by (cases z; cases y) (auto simp: executor_new_def)
  qed
qed

lemma drop_idle_executor:
  assumes Q: "wfq E Q w" and e: "\<And>n. Q (QHead (x_id (w_exec w)) n) = Some []"
    and new: "executor_new S w = Ok (Inr new, w2)"
  shows "\<exists>w3. drop_executor cs S u (Suc n) (w_exec w2) (w2\<lparr>w_exec := new\<rparr>) = Ok w3 \<and> w_tasks w3 = w_tasks w"
proof -
  let ?nx = "w_next w" and ?x = "x_id (w_exec w)"
  obtain k q' where q': "init_queues ?nx (w_queue w) = Ok q'"
    and w2: "w2 = w\<lparr>w_kernel := k, w_queue := q', w_next := Suc ?nx\<rparr>"
    using executor_new_Inr [OF new] by metis
  have pop: "pop (QHead ?x m) q' = Ok (None, q')" for m
    by (rule replaced_heads_empty [OF Q e q'])
  show ?thesis using pop by (simp add: drop_executor_def w2)
qed

section \<open>Programs that spawn tasks and run\<close>

lemma thread_start_busy:
  assumes K: "kernel_ok reg S" and r: "thread_start S k = Ok w"
  shows "\<exists>Q. polling \<mu> None False 0 Q w"
proof (rule winvE [OF sound_inv [OF thread_start_sound [OF K r]]])
  fix Q assume Q: "wfq (\<lambda>_. 0) Q w"
  have none: "members Q h = []" for h
  proof (rule ccontr)
    assume "members Q h \<noteq> []"
    then have "queued Q (hd (members Q h))" by (intro members_queued) (rule hd_in_set)
    from core_queued_live [OF wfqD [OF Q] this] show False by (simp add: thread_start_fresh(1) [OF r])
  qed
  then have "runnable Q w = []" by (simp add: runnable_def)
  with Q none thread_start_fresh [OF r] show ?thesis
    by (intro exI [of _ Q]) (simp add: polling_def busy_def work_def settled_def)
qed

text \<open>
  C3: \<open>run\<close> terminates, and all tasks with it. A program spawns cooperative tasks, of any
  number and priorities, and calls \<open>run\<close>; these tasks may spawn others, make system calls with
  arbitrary results, and yield. Then \<open>run\<close> returns, every task that still exists has completed,
  and the number of iterations is bounded by the work \<open>b\<close> that the program hands out.
\<close>

theorem cooperative_tasks_finish:
  fixes u :: "('f, 'v) user"
  assumes "kernel_ok reg S" and "quiet_kernel S" and "cooperative \<mu> u"
    and "thread_start S k = Ok (w0 :: ('k, 'f, 'v) sched)" and "coop \<mu> None (\<lambda>_ _ _. True) p False b" and "b < n"
  shows "\<exists>r w. run_thread S u (Suc n) (bind_prog p (\<lambda>_. Call CRun Ret)) k = Ok (RRun r, w) \<and>
     (\<forall>t. pred_option t_has_completed (w_tasks w t))"
proof -
  let ?cs = "do_call S u n"
  obtain m where m: "n = Suc m" using assms(6) by (cases n) auto
  have u_drop: "u_drop u f = Ret ()" for f using assms(3) by (simp add: cooperative_def)
  obtain Q0 where "polling \<mu> None False 0 Q0 w0" using thread_start_busy [OF assms(1,4)] by blast
  with coop_interp [OF assms(2) u_drop, of \<mu> None "\<lambda>_ _ _. True" p False b 0 Q0 w0 n] assms(5)
  obtain x w1 Q1 v W1 where w1: "interp (do_call S u (Suc n)) p w0 = Ok (x, w1)" "polling \<mu> None v W1 Q1 w1" "W1 \<le> b"
    by (auto simp del: do_call.simps)
  have start: "run_thread S u (Suc n) (bind_prog p (\<lambda>_. Call CRun Ret)) k =
      bind_res (run ?cs S u n w1) (\<lambda>(r, w). Ok (RRun r, w))"
    using w1(1) assms(4) by (cases "run ?cs S u n w1") (auto simp: run_thread_def interp_bind_prog)
  have B1: "busy None Q1 w1" "work \<mu> None 0 Q1 w1 < n"
    using w1(2,3) assms(6) by (auto simp: polling_def)
  obtain w2 Q2 where w2: "run_loop ?cs S u n w1 = Ok (Inr (), w2)" "busy None Q2 w2" "runnable Q2 w2 = []"
    using busy_loop [OF assms(2,3) B1, of m] unfolding m by blast
  have Q: "wfq (\<lambda>_. 0) Q2 w2" and fin: "\<forall>t. pred_option t_has_completed (w_tasks w2 t)"
    and sl: "members Q2 (head_of Sleepq w2) = []"
    using w2(2,3) by (auto simp: busy_def pred_option_def split: option.split)
  obtain y w3 where y: "executor_new S w2 = Ok (y, w3)" using quiet_executor_new [OF assms(2) Q] by blast
  have "\<exists>r w. run ?cs S u n w1 = Ok (r, w) \<and> w_tasks w = w_tasks w2"
  proof (cases y)
    case (Inl e)
    with executor_new_Inl y obtain k where "w3 = w2\<lparr>w_kernel := k\<rparr>" by metis
    with w2(1) y Inl show ?thesis by (simp add: run_def)
  next
    case (Inr new)
    with drop_idle_executor [OF Q idle_heads [OF Q w2(3) sl] y [unfolded Inr], of ?cs u m] w2(1) y show ?thesis
      by (auto simp: run_def m)
  qed
  with fin start show ?thesis by auto
qed

text \<open>
  A kernel in which nothing happens, and tasks \<open>f\<close> that yield \<open>f\<close> times and spawn a task
  \<open>f - 1\<close> each time: more than \<open>2 ^ f\<close> tasks in all.
\<close>

definition calm_kernel :: "demo kernel" where
  "calm_kernel = demo\<lparr>sys_epoll_wait := (\<lambda>ep n tmo k. if tmo = TimeoutZero then (WaitEvents [], k) else (WaitForever, k))\<rparr>"

definition forking_poll :: "nat \<Rightarrow> waker \<Rightarrow> (nat \<times> nat poll, nat, nat) prog" where
  "forking_poll f wk = (case f of 0 \<Rightarrow> Call (CSys 0) (\<lambda>_. Ret (0, Ready 7))
     | Suc g \<Rightarrow> Call (CSpawn (builder_new g here)) (\<lambda>x. case x of RHandle h \<Rightarrow>
         Call (CHandleDrop h) (\<lambda>_. Call (CWake wk) (\<lambda>_. Ret (g, Pending))) | _ \<Rightarrow> UserPanics))"

definition forking_user :: "(nat, nat) user" where
  "forking_user = \<lparr>u_poll = forking_poll, u_drop = (\<lambda>_. Ret ()), u_is_err = (\<lambda>_. False)\<rparr>"

definition forking_main :: "(unit, nat, nat) prog" where
  "forking_main = Call (CSpawn (builder_priority High (builder_new 2 here))) (\<lambda>_.
     Call (CSpawn (builder_new 1 here)) (\<lambda>_. Ret ()))"

theorem cooperative_tasks_finish_witness:
  "\<exists>r w. run_thread calm_kernel forking_user 38 (bind_prog forking_main (\<lambda>_. Call CRun Ret)) demo_start = Ok (RRun r, w) \<and>
     (\<forall>t. pred_option t_has_completed (w_tasks w t))"
proof -
  let ?\<mu> = "\<lambda>f. 2 * 3 ^ f :: nat"
  have "kernel_ok demo_reg calm_kernel" using demo_ok by (simp add: kernel_ok_def calm_kernel_def)
  moreover have "quiet_kernel calm_kernel"
    by (auto simp: quiet_kernel_def calm_kernel_def demo_def map_of_remove_epoll)
  moreover have "cooperative ?\<mu> forking_user"
  proof -
    have "2 * 3 ^ g < 2 * 3 ^ Suc g - Suc (2 * 3 ^ g :: nat)" for g
    proof -
      have "1 \<le> (3 :: nat) ^ g" by simp
      then show ?thesis unfolding power_Suc by linarith
    qed
    then show ?thesis
      by (auto simp: cooperative_def forking_user_def forking_poll_def builder_new_def split: nat.split)
  qed
  moreover obtain w :: "(demo, nat, nat) sched" where "thread_start calm_kernel demo_start = Ok w"
  proof -
    have "\<exists>w. thread_start calm_kernel demo_start = Ok (w :: (demo, nat, nat) sched)"
      by (simp add: calm_kernel_def eval_simps cong: eval_congs)
    then show ?thesis using that by blast
  qed
  moreover have "coop ?\<mu> None (\<lambda>_ _ _. True) forking_main False 36"
    by (simp add: forking_main_def builder_new_def builder_priority_def)
  ultimately have "\<exists>r w. run_thread calm_kernel forking_user (Suc 37) (bind_prog forking_main (\<lambda>_. Call CRun Ret)) demo_start = Ok (RRun r, w) \<and>
     (\<forall>t. pred_option t_has_completed (w_tasks w t))"
    by (rule cooperative_tasks_finish) simp
  then show ?thesis by simp
qed

end
