(* ===== verification/Epox_Examples.thy ===== *)
theory Epox_Examples
  imports Epox_Typing Epox_Time
begin

text \<open>
  Programs that use the crate: \<^verbatim>\<open>examples/tasks.rs\<close>. Each is user code for the scheduler: an
  \<open>async\<close> block is the datatype of its suspension points, polled by a program that runs to
  the next one, and \<open>main\<close> is the program of its thread. What a program prints while it runs
  is not modelled; what it prints at its end is its result.

  The lemmas prove whole programs: whatever the kernel does, if \<open>main\<close> returns, it returns
  what is stated.
\<close>

section \<open>Building blocks\<close>

text \<open>\<open>p.await\<close>, where \<open>s\<close> is the suspension point; and \<open>unwrap\<close>.\<close>

definition await :: "('x poll, 'f, 'v) prog \<Rightarrow> 's \<Rightarrow> ('x \<Rightarrow> ('s \<times> 'o poll, 'f, 'v) prog) \<Rightarrow> ('s \<times> 'o poll, 'f, 'v) prog" where
  "await p s k = bind_prog p (\<lambda>r. case r of Pending \<Rightarrow> Ret (s, Pending) | Ready x \<Rightarrow> k x)"

definition unwrap_then :: "'e + 'x \<Rightarrow> ('x \<Rightarrow> ('r, 'f, 'v) prog) \<Rightarrow> ('r, 'f, 'v) prog" where
  "unwrap_then r k = (case r of Inl _ \<Rightarrow> UserPanics | Inr x \<Rightarrow> k x)"

text \<open>Calls of \<open>main\<close>; \<open>Handle::result().unwrap()\<close>.\<close>

definition spawn_then :: "'f builder \<Rightarrow> (nat \<Rightarrow> ('r, 'f, 'v) prog) \<Rightarrow> ('r, 'f, 'v) prog" where
  "spawn_then b k = Call (CSpawn b) (\<lambda>x. case x of RHandle h \<Rightarrow> k h | _ \<Rightarrow> UserPanics)"

definition run_then :: "('r, 'f, 'v) prog \<Rightarrow> ('r, 'f, 'v) prog" where
  "run_then p = Call CRun (\<lambda>x. case x of RRun (Inr _) \<Rightarrow> p | _ \<Rightarrow> UserPanics)"

definition result_then :: "nat \<Rightarrow> ('v \<Rightarrow> ('r, 'f, 'v) prog) \<Rightarrow> ('r, 'f, 'v) prog" where
  "result_then h k = Call (CHandleResult h) (\<lambda>x. case x of RResult (Some v) \<Rightarrow> k v | _ \<Rightarrow> UserPanics)"

definition handle_await :: "nat \<Rightarrow> waker \<Rightarrow> ('v poll, 'f, 'v) prog" where
  "handle_await h wk = Call (CHandlePoll h wk) (\<lambda>x. case x of RPoll r \<Rightarrow> Ret r | _ \<Rightarrow> UserPanics)"

definition handle_release :: "nat \<Rightarrow> ('r, 'f, 'v) prog \<Rightarrow> ('r, 'f, 'v) prog" where
  "handle_release h p = Call (CHandleDrop h) (\<lambda>_. p)"

section \<open>\<^verbatim>\<open>tasks.rs\<close>\<close>

datatype out_value = OutInt "32 word" | OutStr string

datatype timer_block = BlockStart | BlockTick owned_fd | BlockDone

datatype sum_block = AwaitFirst nat nat | AwaitSecond "32 word" nat | SumDone

datatype tasks_future = Task1 timer_block | Task2 timer_block | Task3 sum_block | Task4 timer_block

text \<open>
  The tasks 1, 2 and 4 create a timer, wait for its tick and return a value. Durations are
  in milliseconds.
\<close>

definition timer_block_tick :: "os_calls \<Rightarrow> out_value \<Rightarrow> owned_fd \<Rightarrow> waker \<Rightarrow> (timer_block \<times> out_value poll, 'f, 'v) prog" where
  "timer_block_tick oc v t wk = await (timer_tick oc t wk) (BlockTick t) (\<lambda>r. unwrap_then r (\<lambda>_.
     bind_prog (close_owned oc t) (\<lambda>_. Ret (BlockDone, Ready v))))"

definition timer_block_poll :: "os_calls \<Rightarrow> nat \<Rightarrow> out_value \<Rightarrow> timer_block \<Rightarrow> waker
    \<Rightarrow> (timer_block \<times> out_value poll, 'f, 'v) prog" where
  "timer_block_poll oc d v s wk = (case s of
     BlockStart \<Rightarrow> bind_prog (timer_new oc) (\<lambda>r. unwrap_then r (\<lambda>t.
       bind_prog (timer_set oc t (OneShot d)) (\<lambda>r. unwrap_then r (\<lambda>_. timer_block_tick oc v t wk))))
   | BlockTick t \<Rightarrow> timer_block_tick oc v t wk
   | BlockDone \<Rightarrow> UserPanics)"

definition timer_block_drop :: "os_calls \<Rightarrow> timer_block \<Rightarrow> (unit, 'f, 'v) prog" where
  "timer_block_drop oc s = (case s of BlockTick t \<Rightarrow> close_owned oc t | _ \<Rightarrow> Ret ())"

text \<open>\<open>t1.await + t2.await\<close>: a handle is dropped when its value is there.\<close>

definition sum_second :: "32 word \<Rightarrow> nat \<Rightarrow> waker \<Rightarrow> (sum_block \<times> out_value poll, 'f, out_value) prog" where
  "sum_second a t2 wk = await (handle_await t2 wk) (AwaitSecond a t2) (\<lambda>v. case v of
     OutInt b \<Rightarrow> handle_release t2 (Ret (SumDone, Ready (OutInt (a + b))))
   | OutStr _ \<Rightarrow> UserPanics)"

definition sum_poll :: "sum_block \<Rightarrow> waker \<Rightarrow> (sum_block \<times> out_value poll, 'f, out_value) prog" where
  "sum_poll s wk = (case s of
     AwaitFirst t1 t2 \<Rightarrow> await (handle_await t1 wk) (AwaitFirst t1 t2) (\<lambda>v. case v of
         OutInt a \<Rightarrow> handle_release t1 (sum_second a t2 wk)
       | OutStr _ \<Rightarrow> UserPanics)
   | AwaitSecond a t2 \<Rightarrow> sum_second a t2 wk
   | SumDone \<Rightarrow> UserPanics)"

definition sum_drop :: "sum_block \<Rightarrow> (unit, 'f, 'v) prog" where
  "sum_drop s = (case s of
     AwaitFirst t1 t2 \<Rightarrow> handle_release t1 (handle_release t2 (Ret ()))
   | AwaitSecond _ t2 \<Rightarrow> handle_release t2 (Ret ())
   | SumDone \<Rightarrow> Ret ())"

definition wrap_state :: "('s \<Rightarrow> 'f) \<Rightarrow> ('s \<times> 'o poll, 'f, 'v) prog \<Rightarrow> ('f \<times> 'o poll, 'f, 'v) prog" where
  "wrap_state c p = bind_prog p (\<lambda>(s, r). Ret (c s, r))"

fun tasks_poll :: "os_calls \<Rightarrow> tasks_future \<Rightarrow> waker \<Rightarrow> (tasks_future \<times> out_value poll, tasks_future, out_value) prog" where
  "tasks_poll oc (Task1 s) wk = wrap_state Task1 (timer_block_poll oc 100 (OutInt 20) s wk)"
| "tasks_poll oc (Task2 s) wk = wrap_state Task2 (timer_block_poll oc 200 (OutInt 22) s wk)"
| "tasks_poll oc (Task3 s) wk = wrap_state Task3 (sum_poll s wk)"
| "tasks_poll oc (Task4 s) wk = wrap_state Task4 (timer_block_poll oc 600 (OutStr ''value'') s wk)"

fun tasks_drop :: "os_calls \<Rightarrow> tasks_future \<Rightarrow> (unit, tasks_future, out_value) prog" where
  "tasks_drop oc (Task1 s) = timer_block_drop oc s"
| "tasks_drop oc (Task2 s) = timer_block_drop oc s"
| "tasks_drop oc (Task3 s) = sum_drop s"
| "tasks_drop oc (Task4 s) = timer_block_drop oc s"

definition tasks_user :: "os_calls \<Rightarrow> (tasks_future, out_value) user" where
  "tasks_user oc = \<lparr>u_poll = tasks_poll oc, u_drop = tasks_drop oc, u_is_err = (\<lambda>_. False)\<rparr>"

definition at_line :: "string \<Rightarrow> nat \<Rightarrow> location" where
  "at_line file n = \<lparr>loc_file = file, loc_line = n, loc_column = 14\<rparr>"

definition tasks_main :: "(out_value \<times> out_value, tasks_future, out_value) prog" where
  "tasks_main =
     spawn_then (builder_new (Task1 BlockStart) (at_line ''examples/tasks.rs'' 3)) (\<lambda>t1.
     spawn_then (builder_new (Task2 BlockStart) (at_line ''examples/tasks.rs'' 17)) (\<lambda>t2.
     spawn_then (builder_new (Task3 (AwaitFirst t1 t2)) (at_line ''examples/tasks.rs'' 31)) (\<lambda>t3.
     spawn_then (builder_new (Task4 BlockStart) (at_line ''examples/tasks.rs'' 40)) (\<lambda>t4.
     run_then
       (result_then t3 (\<lambda>r3. result_then t4 (\<lambda>r4.
         handle_release t4 (handle_release t3 (Ret (r3, r4))))))))))"

section \<open>Neutral programs\<close>

text \<open>Programs that only use descriptors are well typed in every discipline.\<close>

lemma neutral_bind:
  "prog_typed D p (\<lambda>_ _. True) \<Gamma> \<Longrightarrow> (\<And>\<Gamma>' r. \<Gamma> \<subseteq>\<^sub>m \<Gamma>' \<Longrightarrow> prog_typed D (g r) Q \<Gamma>') \<Longrightarrow> prog_typed D (bind_prog p g) Q \<Gamma>"
  unfolding prog_typed_bind by (erule prog_typed_conseq)

lemma neutral_os:
  "prog_typed D (sys m) (\<lambda>_ _. True) \<Gamma>" "prog_typed D (new_fd fd ev) (\<lambda>_ _. True) \<Gamma>"
  "prog_typed D (drop_fd i) (\<lambda>_ _. True) \<Gamma>" "prog_typed D (poll_fd i wk m) (\<lambda>_ _. True) \<Gamma>"
  by (auto simp: sys_def new_fd_def drop_fd_def poll_fd_def)

lemma neutral_timer:
  "prog_typed D (open_owned oc fd ev) (\<lambda>_ _. True) \<Gamma>" "prog_typed D (close_owned oc f) (\<lambda>_ _. True) \<Gamma>"
  "prog_typed D (timer_new oc) (\<lambda>_ _. True) \<Gamma>" "prog_typed D (timer_set oc t x) (\<lambda>_ _. True) \<Gamma>"
  "prog_typed D (timer_tick oc t wk) (\<lambda>_ _. True) \<Gamma>"
  by (auto simp: open_owned_def close_owned_def timer_new_def timer_set_def timer_tick_def
      intro!: neutral_bind neutral_os split: sum.split)

lemma typed_await:
  "prog_typed D p (\<lambda>\<Gamma>' r. case r of Pending \<Rightarrow> Q \<Gamma>' (s, Pending) | Ready x \<Rightarrow> prog_typed D (k x) Q \<Gamma>') \<Gamma> \<Longrightarrow>
   prog_typed D (await p s k) Q \<Gamma>"
  unfolding await_def prog_typed_bind by (erule prog_typed_conseq) (simp split: poll.splits)

lemma neutral_await:
  assumes "prog_typed D p (\<lambda>_ _. True) \<Gamma>" and "\<And>\<Gamma>'. \<Gamma> \<subseteq>\<^sub>m \<Gamma>' \<Longrightarrow> Q \<Gamma>' (s, Pending)"
    and "\<And>\<Gamma>' x. \<Gamma> \<subseteq>\<^sub>m \<Gamma>' \<Longrightarrow> prog_typed D (k x) Q \<Gamma>'"
  shows "prog_typed D (await p s k) Q \<Gamma>"
  by (rule typed_await, rule prog_typed_conseq [OF assms(1)]) (use assms(2,3) in \<open>simp split: poll.split\<close>)

lemma typed_unwrap: "(\<And>x. r = Inr x \<Longrightarrow> prog_typed D (k x) Q \<Gamma>) \<Longrightarrow> prog_typed D (unwrap_then r k) Q \<Gamma>"
  by (simp add: unwrap_then_def split: sum.split)

lemma map_le_Some: "\<Gamma> \<subseteq>\<^sub>m \<Gamma>' \<Longrightarrow> \<Gamma> h = Some \<tau> \<Longrightarrow> \<Gamma>' h = Some \<tau>"
  by (metis domI map_le_def)

lemma typed_handle_await:
  assumes "\<Gamma> h = Some \<tau>" and "\<And>\<Gamma>'. \<Gamma> \<subseteq>\<^sub>m \<Gamma>' \<Longrightarrow> Q \<Gamma>' (s, Pending)"
    and "\<And>\<Gamma>' v. \<Gamma> \<subseteq>\<^sub>m \<Gamma>' \<Longrightarrow> ty_value D \<Gamma>' v \<tau> \<Longrightarrow> prog_typed D (k v) Q \<Gamma>'"
  shows "prog_typed D (await (handle_await h wk) s k) Q \<Gamma>"
proof -
  have "prog_typed D (k v) Q \<Gamma>'" if "\<Gamma> \<subseteq>\<^sub>m \<Gamma>'" "value_of_handle D \<Gamma>' h v" for \<Gamma>' v
    using that assms(3) map_le_Some [OF that(1) assms(1)] by (auto simp: value_of_handle_def)
  with assms(2) show ?thesis
    by (auto intro!: typed_await simp: handle_await_def split: poll.split)
qed

lemma typed_release: "(\<And>\<Gamma>'. \<Gamma> \<subseteq>\<^sub>m \<Gamma>' \<Longrightarrow> prog_typed D p Q \<Gamma>') \<Longrightarrow> prog_typed D (handle_release h p) Q \<Gamma>"
  by (simp add: handle_release_def)

lemma typed_wrap_state:
  "prog_typed D p (\<lambda>\<Gamma>' x. Q \<Gamma>' (c (fst x), snd x)) \<Gamma> \<Longrightarrow> prog_typed D (wrap_state c p) Q \<Gamma>"
  unfolding wrap_state_def prog_typed_bind by (erule prog_typed_conseq) (auto split: prod.split)

section \<open>What \<^verbatim>\<open>tasks.rs\<close> prints\<close>

text \<open>The types name the tasks; a handle of the type \<open>TSum\<close> belongs to task 3.\<close>

datatype tasks_type = TFirst | TSecond | TSum | TOther

fun tasks_value :: "tasks_type \<Rightarrow> out_value" where
  "tasks_value TFirst = OutInt 20"
| "tasks_value TSecond = OutInt 22"
| "tasks_value TSum = OutInt 42"
| "tasks_value TOther = OutStr ''value''"

fun tasks_ty_future :: "tasks_type typing_env \<Rightarrow> tasks_future \<Rightarrow> tasks_type \<Rightarrow> bool" where
  "tasks_ty_future \<Gamma> (Task1 s) \<tau> \<longleftrightarrow> \<tau> = TFirst"
| "tasks_ty_future \<Gamma> (Task2 s) \<tau> \<longleftrightarrow> \<tau> = TSecond"
| "tasks_ty_future \<Gamma> (Task3 s) \<tau> \<longleftrightarrow> \<tau> = TSum \<and> (case s of
     AwaitFirst t1 t2 \<Rightarrow> \<Gamma> t1 = Some TFirst \<and> \<Gamma> t2 = Some TSecond
   | AwaitSecond a t2 \<Rightarrow> a = 20 \<and> \<Gamma> t2 = Some TSecond
   | SumDone \<Rightarrow> True)"
| "tasks_ty_future \<Gamma> (Task4 s) \<tau> \<longleftrightarrow> \<tau> = TOther"

definition tasks_discipline :: "(tasks_future, out_value, tasks_type) discipline" where
  "tasks_discipline = \<lparr>ty_future = tasks_ty_future, ty_value = (\<lambda>_ v \<tau>. v = tasks_value \<tau>)\<rparr>"

lemma tasks_mono: "discipline_mono tasks_discipline"
  unfolding discipline_mono_def tasks_discipline_def discipline.simps
proof (intro allI impI conjI)
  fix \<Gamma> \<Gamma>' f \<tau> assume "\<Gamma> \<subseteq>\<^sub>m \<Gamma>'" "tasks_ty_future \<Gamma> f \<tau>"
  then show "tasks_ty_future \<Gamma>' f \<tau>"
    by (cases f) (auto dest: map_le_Some split: sum_block.splits)
qed

lemma timer_block_typed:
  "prog_typed D (timer_block_poll oc d v s wk) (\<lambda>_ x. \<forall>v'. snd x = Ready v' \<longrightarrow> v' = v) \<Gamma>"
proof -
  have tick: "prog_typed D (timer_block_tick oc v t wk) (\<lambda>_ x. \<forall>v'. snd x = Ready v' \<longrightarrow> v' = v) \<Gamma>'" for t \<Gamma>'
    unfolding timer_block_tick_def
    by (auto intro!: neutral_await typed_unwrap neutral_bind neutral_timer)
  show ?thesis
    unfolding timer_block_poll_def
    by (auto intro!: tick typed_unwrap neutral_bind neutral_timer split: timer_block.split)
qed

lemma sum_poll_typed:
  assumes "tasks_ty_future \<Gamma> (Task3 s) TSum"
  shows "prog_typed tasks_discipline (sum_poll s wk)
    (\<lambda>\<Gamma>' x. tasks_ty_future \<Gamma>' (Task3 (fst x)) TSum \<and> (\<forall>v. snd x = Ready v \<longrightarrow> v = OutInt 42)) \<Gamma>"
proof -
  let ?Q = "\<lambda>\<Gamma>' x. tasks_ty_future \<Gamma>' (Task3 (fst x)) TSum \<and> (\<forall>v. snd x = Ready v \<longrightarrow> v = OutInt 42)"
  have v: "ty_value tasks_discipline \<Gamma>' v \<tau> \<longleftrightarrow> v = tasks_value \<tau>" for \<Gamma>' v \<tau>
    by (simp add: tasks_discipline_def)
  have second: "prog_typed tasks_discipline (sum_second 20 t2 wk) ?Q \<Gamma>'" if "\<Gamma>' t2 = Some TSecond" for t2 \<Gamma>'
    unfolding sum_second_def
    by (rule typed_handle_await [where \<tau> = TSecond]) (use that map_le_Some in \<open>auto simp: v intro!: typed_release\<close>)
  have first: "prog_typed tasks_discipline (await (handle_await t1 wk) (AwaitFirst t1 t2) (\<lambda>v. case v of
      OutInt a \<Rightarrow> handle_release t1 (sum_second a t2 wk) | OutStr _ \<Rightarrow> UserPanics)) ?Q \<Gamma>"
    if t: "\<Gamma> t1 = Some TFirst" "\<Gamma> t2 = Some TSecond" for t1 t2
    by (rule typed_handle_await [where \<tau> = TFirst])
      (use t in \<open>auto simp: v intro!: typed_release intro: second [simplified] dest: map_le_Some\<close>)
  show ?thesis
    using assms first second by (cases s) (auto simp: sum_poll_def)
qed

lemma neutral_drops:
  "prog_typed D (timer_block_drop oc s) (\<lambda>_ _. True) \<Gamma>" "prog_typed D (sum_drop b) (\<lambda>_ _. True) \<Gamma>"
  by (auto simp: timer_block_drop_def sum_drop_def intro!: neutral_timer typed_release split: timer_block.split sum_block.split)

lemma tasks_user_typed: "user_typed tasks_discipline (tasks_user oc)"
  unfolding user_typed_def
proof (intro conjI allI impI tasks_mono)
  fix \<Gamma> f \<tau> wk assume f: "ty_future tasks_discipline \<Gamma> f \<tau>"
  have d: "ty_future tasks_discipline = tasks_ty_future" "\<And>\<Gamma> v \<tau>. ty_value tasks_discipline \<Gamma> v \<tau> \<longleftrightarrow> v = tasks_value \<tau>"
    by (simp_all add: tasks_discipline_def)
  show "prog_typed tasks_discipline (u_drop (tasks_user oc) f) (\<lambda>_ _. True) \<Gamma>"
    by (cases f) (simp_all add: tasks_user_def neutral_drops)
  have block: "prog_typed tasks_discipline (wrap_state c (timer_block_poll oc d v s wk)) (poll_typed tasks_discipline \<tau>) \<Gamma>"
    if "\<And>\<Gamma> s. tasks_ty_future \<Gamma> (c s) \<tau>" "v = tasks_value \<tau>" for c d v s \<tau>
    by (rule typed_wrap_state, rule prog_typed_conseq [OF timer_block_typed])
      (use that in \<open>auto simp: poll_typed_def d\<close>)
  show "prog_typed tasks_discipline (u_poll (tasks_user oc) f wk) (poll_typed tasks_discipline \<tau>) \<Gamma>"
  proof (cases f)
    case (Task3 s)
    with f have \<tau>: "\<tau> = TSum" and s: "tasks_ty_future \<Gamma> (Task3 s) TSum" by (simp_all add: d)
    have "prog_typed tasks_discipline (wrap_state Task3 (sum_poll s wk)) (poll_typed tasks_discipline TSum) \<Gamma>"
      by (rule typed_wrap_state, rule prog_typed_conseq [OF sum_poll_typed [OF s]]) (auto simp: poll_typed_def d)
    then show ?thesis by (simp add: Task3 \<tau> tasks_user_def)
  qed (use f in \<open>auto simp: tasks_user_def d intro!: block\<close>)
qed

lemma typed_spawn_then:
  assumes "ty_future D \<Gamma> (b_future b) \<tau>"
    and "\<And>\<Gamma>' h \<sigma>. \<Gamma> \<subseteq>\<^sub>m \<Gamma>' \<Longrightarrow> \<Gamma>' h = Some \<sigma> \<Longrightarrow> ty_future D \<Gamma>' (b_future b) \<sigma> \<Longrightarrow> prog_typed D (k h) Q \<Gamma>'"
  shows "prog_typed D (spawn_then b k) Q \<Gamma>"
  using assms by (auto simp: spawn_then_def)

lemma typed_run_then: "(\<And>\<Gamma>'. \<Gamma> \<subseteq>\<^sub>m \<Gamma>' \<Longrightarrow> prog_typed D p Q \<Gamma>') \<Longrightarrow> prog_typed D (run_then p) Q \<Gamma>"
  by (auto simp: run_then_def split: sum.split)

lemma typed_result_then:
  assumes "\<Gamma> h = Some \<tau>" and "\<And>\<Gamma>' v. \<Gamma> \<subseteq>\<^sub>m \<Gamma>' \<Longrightarrow> ty_value D \<Gamma>' v \<tau> \<Longrightarrow> prog_typed D (k v) Q \<Gamma>'"
  shows "prog_typed D (result_then h k) Q \<Gamma>"
proof -
  have "prog_typed D (k v) Q \<Gamma>'" if "\<Gamma> \<subseteq>\<^sub>m \<Gamma>'" "value_of_handle D \<Gamma>' h v" for \<Gamma>' v
    using that assms(2) map_le_Some [OF that(1) assms(1)] by (auto simp: value_of_handle_def)
  then show ?thesis by (auto simp: result_then_def split: option.split)
qed

lemma tasks_main_typed:
  "prog_typed tasks_discipline tasks_main (\<lambda>_ r. r = (OutInt 42, OutStr ''value'')) Map.empty"
proof -
  let ?Q = "\<lambda>_ r. r = (OutInt 42, OutStr ''value'')"
  have d: "ty_future tasks_discipline = tasks_ty_future" "\<And>\<Gamma> v \<tau>. ty_value tasks_discipline \<Gamma> v \<tau> \<longleftrightarrow> v = tasks_value \<tau>"
    by (simp_all add: tasks_discipline_def)
  have end_of_main: "prog_typed tasks_discipline (run_then (result_then t3 (\<lambda>r3. result_then t4 (\<lambda>r4.
      handle_release t4 (handle_release t3 (Ret (r3, r4))))))) ?Q \<Gamma>"
    if "\<Gamma> t3 = Some TSum" "\<Gamma> t4 = Some TOther" for \<Gamma> t3 t4
  proof (rule typed_run_then, rule typed_result_then [where \<tau> = TSum])
    fix \<Gamma>1 assume 1: "\<Gamma> \<subseteq>\<^sub>m \<Gamma>1"
    show "\<Gamma>1 t3 = Some TSum" by (rule map_le_Some [OF 1 that(1)])
    fix \<Gamma>2 r3 assume 2: "\<Gamma>1 \<subseteq>\<^sub>m \<Gamma>2" and r3: "ty_value tasks_discipline \<Gamma>2 r3 TSum"
    show "prog_typed tasks_discipline (result_then t4 (\<lambda>r4. handle_release t4 (handle_release t3 (Ret (r3, r4))))) ?Q \<Gamma>2"
      by (rule typed_result_then [where \<tau> = TOther])
        (use r3 map_le_Some [OF 2 map_le_Some [OF 1 that(2)]] in \<open>auto simp: d intro!: typed_release\<close>)
  qed
  show ?thesis
    unfolding tasks_main_def
    by (auto simp: d builder_new_def intro!: typed_spawn_then end_of_main intro: map_le_Some)
qed

text \<open>
  C30: whatever the kernel does, and in whatever order the timers expire, if the \<open>main\<close> of
  \<^verbatim>\<open>tasks.rs\<close> returns, it has printed 42 for task 3, the sum of what the tasks 1 and 2
  returned, and \<open>value\<close> for task 4.
\<close>

theorem tasks_example_prints_sum:
  assumes "run_thread S (tasks_user oc) n tasks_main k = Ok (r, w)"
  shows "r = (OutInt 42, OutStr ''value'')"
  using run_thread_typed [OF tasks_user_typed tasks_main_typed, of S oc n k] assms by (simp add: grows_def)

text \<open>
  A run of \<open>main\<close> in which the three timers expire one after the other. The tables of the
  kernel are its events, one entry for each \<open>epoll_wait\<close>, and the results of the system calls.
  Evaluating it needs the fields of \<open>demo\<close> one by one.
\<close>

lemma timer_block_demo: "timer_block_poll demo_os d v s wk = timer_block_poll demo_os 0 v s wk"
  by (cases s) (simp_all add: timer_block_poll_def timer_set_def demo_os_def)

lemma tasks_poll_demo:
  "tasks_poll demo_os (Task1 s) wk = wrap_state Task1 (timer_block_poll demo_os 0 (OutInt 20) s wk)"
  "tasks_poll demo_os (Task2 s) wk = wrap_state Task2 (timer_block_poll demo_os 0 (OutInt 22) s wk)"
  "tasks_poll demo_os (Task3 z) wk = wrap_state Task3 (sum_poll z wk)"
  "tasks_poll demo_os (Task4 s) wk = wrap_state Task4 (timer_block_poll demo_os 0 (OutStr ''value'') s wk)"
  by simp_all (rule arg_cong [OF timer_block_demo])+

lemma demo_os_simps:
  "os_close demo_os fd = 0" "os_read demo_os fd m = 0" "os_timerfd_create demo_os = 0"
  "os_timerfd_settime demo_os fd x = 0"
  by (simp_all add: demo_os_def)

lemma tasks_user_simps: "u_poll (tasks_user oc) = tasks_poll oc" "u_drop (tasks_user oc) = tasks_drop oc"
  "u_is_err (tasks_user oc) v = False"
  by (simp_all add: tasks_user_def)

lemma demo_kernel_simps:
     "sys_pipe2 demo k = (Inr (d_next k, d_next k + 1),
       k\<lparr>d_next := d_next k + 2, d_pipes := ((d_next k, d_next k + 1), []) # d_pipes k\<rparr>)"
     "sys_epoll_create demo k = (Inr (d_next k),
       k\<lparr>d_next := d_next k + 1, d_reg := filter (\<lambda>((ep, _), _). ep \<noteq> d_next k) (d_reg k)\<rparr>)"
     "sys_epoll_add demo ep fd ev k = (case map_of (d_reg k) (ep, fd) of
         Some _ \<Rightarrow> (Inl (Errno 17), k)
       | None \<Rightarrow> (Inr (), k\<lparr>d_reg := ((ep, fd), ev_data ev) # d_reg k\<rparr>))"
     "sys_epoll_del demo ep fd k = (case map_of (d_reg k) (ep, fd) of
         None \<Rightarrow> (Inl (Errno 2), k)
       | Some _ \<Rightarrow> (Inr (), k\<lparr>d_reg := filter (\<lambda>(a, _). a \<noteq> (ep, fd)) (d_reg k)\<rparr>))"
     "sys_epoll_wait demo ep n tmo k =
       (let es = take n (demo_events ep k); k1 = k\<lparr>d_schedule := tl (d_schedule k)\<rparr>
       in if es = [] \<and> tmo = TimeoutNone then (WaitForever, k1) else (WaitEvents es, k1))"
     "sys_close demo fd k = k\<lparr>d_pipes := filter (\<lambda>((a, b), _). a \<noteq> fd \<and> b \<noteq> fd) (d_pipes k)\<rparr>"
     "sys_getfl demo fd k = (Inr 0, k)" "sys_setfl demo fd f k = (Inr (), k)"
     "sys_other demo m k = (case d_script k of
         [] \<Rightarrow> (Inl (OsError EAGAIN), k)
       | r # rs \<Rightarrow> (r, k\<lparr>d_script := rs\<rparr>))"
  by (simp_all add: demo_def)

lemmas eval_tasks_simps = eval_queue eval_executor eval_fd eval_scheduler demo_kernel_simps demo_start_def
  demo_events_def List.map_filter_def numeral_eq_Suc Let_def retry_interrupted.simps

lemmas eval_tasks = tasks_main_def tasks_user_simps spawn_then_def run_then_def result_then_def handle_release_def
  handle_await_def wrap_state_def timer_block_poll_def timer_block_tick_def sum_poll_def sum_second_def
  timer_block_drop_def sum_drop_def await_def unwrap_then_def timer_new_def timer_set_def timer_tick_def
  open_owned_def close_owned_def sys_def new_fd_def poll_fd_def drop_fd_def demo_os_simps at_line_def

definition tasks_start :: demo where
  "tasks_start = demo_start\<lparr>
     d_schedule := [[], [], [], [], [(6, EPOLLIN)], [], [], [(7, EPOLLIN)], [], [], [(8, EPOLLIN)]],
     d_script := [Inr 6, Inr 0, Inl (OsError EAGAIN), Inr 7, Inr 0, Inl (OsError EAGAIN), Inr 8, Inr 0, Inl (OsError EAGAIN),
       Inr 1, Inr 0, Inr 1, Inr 0, Inr 1, Inr 0]\<rparr>"

lemma tasks_example_returns: "\<exists>r w. run_thread demo (tasks_user demo_os) 14 tasks_main tasks_start = Ok (r, w)"
  by (simp add: tasks_start_def eval_tasks tasks_poll_demo eval_tasks_simps cong: eval_congs del: tasks_poll.simps)

theorem tasks_example_prints_sum_witness:
  "\<exists>w. run_thread demo (tasks_user demo_os) 14 tasks_main tasks_start = Ok ((OutInt 42, OutStr ''value''), w)"
  using tasks_example_returns tasks_example_prints_sum by metis

end
