(* ===== verification/Epox_Programs.thy ===== *)
theory Epox_Programs
  imports Epox_Examples Epox_Signal
begin

text \<open>
  More programs that use the crate: \<^verbatim>\<open>examples/yield.rs\<close>, \<^verbatim>\<open>examples/timer.rs\<close> and
  \<^verbatim>\<open>examples/sigint.rs\<close>, in the way of \<open>Epox_Examples\<close>. The lemmas follow a future through all
  its polls, whatever the calls it makes return, and count what it has done when it is ready.
\<close>

section \<open>Traces of futures\<close>

text \<open>The calls on a path through a program, with their replies, and its result.\<close>

inductive prog_path :: "('r, 'f, 'v) prog \<Rightarrow> ('f call \<times> 'v reply) list \<Rightarrow> 'r \<Rightarrow> bool" where
  ret: "prog_path (Ret r) [] r"
| call: "prog_path (k x) tr r \<Longrightarrow> prog_path (Call c k) ((c, x) # tr) r"

inductive_simps prog_path_simps [simp]:
  "prog_path (Ret r) tr s" "prog_path (Call c k) tr s" "prog_path UserPanics tr s"

text \<open>Every run of the scheduler's semantics follows such a path.\<close>

lemma interp_path: "interp cs p w = Ok (r, w') \<Longrightarrow> \<exists>tr. prog_path p tr r"
proof (induction p arbitrary: w)
  case (Call c k)
  then obtain x w1 where "interp cs (k x) w1 = Ok (r, w')" by (auto simp: res_simps)
  with Call.IH [OF rangeI] show ?case by fastforce
qed auto

lemma prog_path_bindE [elim!]:
  assumes "prog_path (bind_prog p g) tr r"
  obtains tr1 tr2 x where "tr = tr1 @ tr2" "prog_path p tr1 x" "prog_path (g x) tr2 r"
proof -
  have "\<exists>tr1 tr2 x. tr = tr1 @ tr2 \<and> prog_path p tr1 x \<and> prog_path (g x) tr2 r"
    using assms
  proof (induction p arbitrary: tr)
    case (Call c k)
    then obtain y tr' where y: "tr = (c, y) # tr'" "prog_path (bind_prog (k y) g) tr' r" by auto
    from Call.IH [OF rangeI y(2)] obtain tr1 tr2 x where "tr' = tr1 @ tr2" "prog_path (k y) tr1 x" "prog_path (g x) tr2 r"
      by blast
    with y(1) show ?case by (intro exI [of _ "(c, y) # tr1"] exI [of _ tr2] exI [of _ x]) simp
  qed simp_all
  with that show ?thesis by blast
qed

text \<open>A future polled again and again, with any wakers, up to a poll with the outcome \<open>r\<close>.\<close>

inductive polled :: "('s \<Rightarrow> waker \<Rightarrow> ('s \<times> 'o poll, 'f, 'v) prog) \<Rightarrow> 's \<Rightarrow> ('f call \<times> 'v reply) list \<Rightarrow> 's \<Rightarrow> 'o poll \<Rightarrow> bool"
  for poll s where
  first: "prog_path (poll s wk) tr (s', r) \<Longrightarrow> polled poll s tr s' r"
| again: "polled poll s tr s1 Pending \<Longrightarrow> prog_path (poll s1 wk) tr1 (s', r) \<Longrightarrow> polled poll s (tr @ tr1) s' r"

text \<open>The values that were read from descriptors, and the number of wake-ups.\<close>

definition reads :: "('f call \<times> 'v reply) list \<Rightarrow> nat list" where
  "reads tr = List.map_filter (\<lambda>(c, x). case (c, x) of (CFdPollWith _ _ _, RFdPoll (Ready (Inr n))) \<Rightarrow> Some n | _ \<Rightarrow> None) tr"

definition wakes :: "('f call \<times> 'v reply) list \<Rightarrow> nat" where
  "wakes tr = length (filter (\<lambda>(c, x). case c of CWake _ \<Rightarrow> True | _ \<Rightarrow> False) tr)"

lemma reads_simps [simp]:
  "reads [] = []" "reads (tr @ tr') = reads tr @ reads tr'"
  "reads ((c, x) # tr) = (case (c, x) of (CFdPollWith _ _ _, RFdPoll (Ready (Inr n))) \<Rightarrow> n # reads tr | _ \<Rightarrow> reads tr)"
  by (auto simp: reads_def List.map_filter_def split: call.split reply.split poll.split sum.split)

lemma wakes_simps [simp]:
  "wakes [] = 0" "wakes (tr @ tr') = wakes tr + wakes tr'"
  "wakes ((c, x) # tr) = (case c of CWake _ \<Rightarrow> Suc (wakes tr) | _ \<Rightarrow> wakes tr)"
  by (auto simp: wakes_def split: call.split)

text \<open>Programs that read nothing, and the calls of the crate's objects.\<close>

lemma path_os [simp]:
  "prog_path (sys m) tr r \<longleftrightarrow> tr = [(CSys m, RSys r)]"
  "prog_path (new_fd fd ev) tr r' \<longleftrightarrow> tr = [(CFdNew fd ev, RFd r')]"
  "prog_path (drop_fd i) tr u \<longleftrightarrow> (\<exists>x. tr = [(CFdDrop i, x)])"
  "prog_path (poll_fd i wk m) tr z \<longleftrightarrow> tr = [(CFdPollWith i wk (\<lambda>_. m), RFdPoll z)]"
  by (auto simp: sys_def new_fd_def drop_fd_def poll_fd_def split: reply.split_asm)

lemma quiet_open: "prog_path (open_owned oc fd ev) tr r \<Longrightarrow> reads tr = []"
  by (auto simp: open_owned_def split: sum.split_asm)

lemma quiet_close: "prog_path (close_owned oc f) tr r \<Longrightarrow> reads tr = []"
  by (auto simp: close_owned_def)

lemma quiet_timer_new: "prog_path (timer_new oc) tr r \<Longrightarrow> reads tr = []"
  by (auto simp: timer_new_def dest: quiet_open split: sum.split_asm)

lemma quiet_timer_set: "prog_path (timer_set oc t x) tr r \<Longrightarrow> reads tr = []"
  by (auto simp: timer_set_def split: sum.split_asm)

lemma path_tick: "prog_path (timer_tick oc t wk) tr z \<Longrightarrow> reads tr = (case z of Ready (Inr n) \<Rightarrow> [n] | _ \<Rightarrow> [])"
  by (auto simp: timer_tick_def split: poll.split sum.split)

lemma prog_path_unwrap: "prog_path (unwrap_then z k) tr r \<longleftrightarrow> (\<exists>x. z = Inr x \<and> prog_path (k x) tr r)"
  by (auto simp: unwrap_then_def split: sum.split)

section \<open>\<^verbatim>\<open>yield.rs\<close>\<close>

text \<open>
  Durations are in nanoseconds. The state of an \<open>async fn\<close> keeps how many rounds of its loop
  are left.
\<close>

definition TOTAL_DURATION :: nat where
  "TOTAL_DURATION = 1000000000"

definition IO_TASK_STEPS :: nat where
  "IO_TASK_STEPS = 3"

definition BLOCKING_TASK_STEPS :: nat where
  "BLOCKING_TASK_STEPS = IO_TASK_STEPS * 3"

datatype io_task = IoStart | IoTick nat owned_fd | IoDone

text \<open>An error leaves the function early; the timer is dropped on the way out.\<close>

primrec io_loop :: "os_calls \<Rightarrow> owned_fd \<Rightarrow> waker \<Rightarrow> nat \<Rightarrow> (io_task \<times> (io_error + unit) poll, 'f, 'v) prog" where
  "io_loop oc t wk 0 = bind_prog (close_owned oc t) (\<lambda>_. Ret (IoDone, Ready (Inr ())))"
| "io_loop oc t wk (Suc n) = await (timer_tick oc t wk) (IoTick (Suc n) t) (\<lambda>r. case r of
     Inl e \<Rightarrow> bind_prog (close_owned oc t) (\<lambda>_. Ret (IoDone, Ready (Inl e)))
   | Inr _ \<Rightarrow> io_loop oc t wk n)"

definition io_task_poll :: "os_calls \<Rightarrow> io_task \<Rightarrow> waker \<Rightarrow> (io_task \<times> (io_error + unit) poll, 'f, 'v) prog" where
  "io_task_poll oc s wk = (case s of
     IoStart \<Rightarrow> bind_prog (timer_new oc) (\<lambda>r. case r of
         Inl e \<Rightarrow> Ret (IoDone, Ready (Inl e))
       | Inr t \<Rightarrow> bind_prog (timer_set oc t (Interval (TOTAL_DURATION div IO_TASK_STEPS))) (\<lambda>z. case z of
           Inl e \<Rightarrow> bind_prog (close_owned oc t) (\<lambda>_. Ret (IoDone, Ready (Inl e)))
         | Inr _ \<Rightarrow> io_loop oc t wk IO_TASK_STEPS))
   | IoTick n t \<Rightarrow> io_loop oc t wk n
   | IoDone \<Rightarrow> UserPanics)"

definition io_task_drop :: "os_calls \<Rightarrow> io_task \<Rightarrow> (unit, 'f, 'v) prog" where
  "io_task_drop oc s = (case s of IoTick _ t \<Rightarrow> close_owned oc t | _ \<Rightarrow> Ret ())"

text \<open>\<open>thread::sleep\<close> is the system call \<open>nap\<close>; its result is ignored.\<close>

datatype blocking_task = BlockingStart | BlockingYield nat bool | BlockingDone

definition yield_then :: "nat \<Rightarrow> bool \<Rightarrow> waker \<Rightarrow> (blocking_task \<times> (io_error + unit) poll, 'f, 'v) prog
    \<Rightarrow> (blocking_task \<times> (io_error + unit) poll, 'f, 'v) prog" where
  "yield_then n y wk p = bind_prog (yield_poll y wk) (\<lambda>(y1, r). case r of
     Pending \<Rightarrow> Ret (BlockingYield n y1, Pending) | Ready _ \<Rightarrow> p)"

primrec blocking_loop :: "nat \<Rightarrow> waker \<Rightarrow> nat \<Rightarrow> (blocking_task \<times> (io_error + unit) poll, 'f, 'v) prog" where
  "blocking_loop nap wk 0 = Ret (BlockingDone, Ready (Inr ()))"
| "blocking_loop nap wk (Suc n) = bind_prog (sys nap) (\<lambda>_. yield_then n False wk (blocking_loop nap wk n))"

definition blocking_task_poll :: "nat \<Rightarrow> blocking_task \<Rightarrow> waker \<Rightarrow> (blocking_task \<times> (io_error + unit) poll, 'f, 'v) prog" where
  "blocking_task_poll nap s wk = (case s of
     BlockingStart \<Rightarrow> blocking_loop nap wk BLOCKING_TASK_STEPS
   | BlockingYield n y \<Rightarrow> yield_then n y wk (blocking_loop nap wk n)
   | BlockingDone \<Rightarrow> UserPanics)"

text \<open>The \<open>async\<close> blocks of \<open>main\<close> await the functions and unwrap their results.\<close>

datatype yield_future = IoTask io_task | BlockingTask blocking_task

definition unwrap_poll :: "('s \<times> ('e + unit) poll, 'f, 'v) prog \<Rightarrow> ('s \<times> unit poll, 'f, 'v) prog" where
  "unwrap_poll p = bind_prog p (\<lambda>(s, r). case r of
     Pending \<Rightarrow> Ret (s, Pending) | Ready z \<Rightarrow> unwrap_then z (\<lambda>_. Ret (s, Ready ())))"

fun yield_example_poll :: "os_calls \<Rightarrow> nat \<Rightarrow> yield_future \<Rightarrow> waker \<Rightarrow> (yield_future \<times> unit poll, yield_future, unit) prog" where
  "yield_example_poll oc nap (IoTask s) wk = wrap_state IoTask (unwrap_poll (io_task_poll oc s wk))"
| "yield_example_poll oc nap (BlockingTask s) wk = wrap_state BlockingTask (unwrap_poll (blocking_task_poll nap s wk))"

fun yield_example_drop :: "os_calls \<Rightarrow> yield_future \<Rightarrow> (unit, yield_future, unit) prog" where
  "yield_example_drop oc (IoTask s) = io_task_drop oc s"
| "yield_example_drop oc (BlockingTask s) = Ret ()"

definition yield_example_user :: "os_calls \<Rightarrow> nat \<Rightarrow> (yield_future, unit) user" where
  "yield_example_user oc nap = \<lparr>u_poll = yield_example_poll oc nap, u_drop = yield_example_drop oc, u_is_err = (\<lambda>_. False)\<rparr>"

text \<open>A handle that is not used is dropped at once.\<close>

definition spawn_only :: "'f \<Rightarrow> location \<Rightarrow> ('r, 'f, 'v) prog \<Rightarrow> ('r, 'f, 'v) prog" where
  "spawn_only f l p = spawn_then (builder_new f l) (\<lambda>h. handle_release h p)"

definition yield_example_main :: "(unit, yield_future, unit) prog" where
  "yield_example_main =
     spawn_only (IoTask IoStart) (at_line ''examples/yield.rs'' 2)
     (spawn_only (BlockingTask BlockingStart) (at_line ''examples/yield.rs'' 6)
     (run_then (Ret ())))"

section \<open>\<^verbatim>\<open>timer.rs\<close>\<close>

text \<open>The timer is made by \<open>main\<close> and moved into the block, which asserts that each tick is one.\<close>

datatype tick_block = TickLoop nat owned_fd | TickDone

primrec tick_loop :: "os_calls \<Rightarrow> owned_fd \<Rightarrow> waker \<Rightarrow> nat \<Rightarrow> (tick_block \<times> unit poll, 'f, 'v) prog" where
  "tick_loop oc t wk 0 = bind_prog (close_owned oc t) (\<lambda>_. Ret (TickDone, Ready ()))"
| "tick_loop oc t wk (Suc n) = await (timer_tick oc t wk) (TickLoop (Suc n) t) (\<lambda>r. unwrap_then r (\<lambda>c.
     if c = 1 then tick_loop oc t wk n else UserPanics))"

definition tick_block_poll :: "os_calls \<Rightarrow> tick_block \<Rightarrow> waker \<Rightarrow> (tick_block \<times> unit poll, tick_block, unit) prog" where
  "tick_block_poll oc s wk = (case s of TickLoop n t \<Rightarrow> tick_loop oc t wk n | TickDone \<Rightarrow> UserPanics)"

definition tick_block_drop :: "os_calls \<Rightarrow> tick_block \<Rightarrow> (unit, tick_block, unit) prog" where
  "tick_block_drop oc s = (case s of TickLoop _ t \<Rightarrow> close_owned oc t | TickDone \<Rightarrow> Ret ())"

definition timer_example_user :: "os_calls \<Rightarrow> (tick_block, unit) user" where
  "timer_example_user oc = \<lparr>u_poll = tick_block_poll oc, u_drop = tick_block_drop oc, u_is_err = (\<lambda>_. False)\<rparr>"

definition timer_example_main :: "os_calls \<Rightarrow> (unit, tick_block, unit) prog" where
  "timer_example_main oc = bind_prog (timer_new oc) (\<lambda>r. unwrap_then r (\<lambda>t.
     bind_prog (timer_set oc t (Interval 100000000)) (\<lambda>r. unwrap_then r (\<lambda>_.
       spawn_only (TickLoop 3 t) (at_line ''examples/timer.rs'' 8) (run_then (Ret ()))))))"

section \<open>\<^verbatim>\<open>sigint.rs\<close>\<close>

text \<open>The values of a function are dropped in the reverse order of their declarations.\<close>

datatype sigint_task = SigStart | SigReceive async_signal | SigTick async_signal owned_fd | SigDone

definition sigint_set :: sigset where
  "sigint_set = push_bit 1 1"

definition sigint_end :: "os_calls \<Rightarrow> async_signal \<Rightarrow> io_error + unit \<Rightarrow> (sigint_task \<times> (io_error + unit) poll, 'f, 'v) prog" where
  "sigint_end oc s r = bind_prog (signal_drop oc s) (\<lambda>_. Ret (SigDone, Ready r))"

definition sigint_tick :: "os_calls \<Rightarrow> async_signal \<Rightarrow> owned_fd \<Rightarrow> waker
    \<Rightarrow> (sigint_task \<times> (io_error + unit) poll, 'f, 'v) prog" where
  "sigint_tick oc s t wk = await (timer_tick oc t wk) (SigTick s t) (\<lambda>r.
     bind_prog (close_owned oc t) (\<lambda>_. sigint_end oc s (case r of Inl e \<Rightarrow> Inl e | Inr _ \<Rightarrow> Inr ())))"

definition sigint_receive :: "os_calls \<Rightarrow> async_signal \<Rightarrow> waker \<Rightarrow> (sigint_task \<times> (io_error + unit) poll, 'f, 'v) prog" where
  "sigint_receive oc s wk = await (signal_receive oc s wk) (SigReceive s) (\<lambda>r. case r of
     Inl e \<Rightarrow> sigint_end oc s (Inl e)
   | Inr _ \<Rightarrow> bind_prog (timer_new oc) (\<lambda>z. case z of
       Inl e \<Rightarrow> sigint_end oc s (Inl e)
     | Inr t \<Rightarrow> bind_prog (timer_set oc t (OneShot 2000000000)) (\<lambda>z. case z of
         Inl e \<Rightarrow> bind_prog (close_owned oc t) (\<lambda>_. sigint_end oc s (Inl e))
       | Inr _ \<Rightarrow> sigint_tick oc s t wk)))"

definition sigint_task_poll :: "os_calls \<Rightarrow> sigint_task \<Rightarrow> waker \<Rightarrow> (sigint_task \<times> (io_error + unit) poll, 'f, 'v) prog" where
  "sigint_task_poll oc s wk = (case s of
     SigStart \<Rightarrow> bind_prog (signal_new oc sigint_set) (\<lambda>r. case r of
         Inl e \<Rightarrow> Ret (SigDone, Ready (Inl e))
       | Inr a \<Rightarrow> sigint_receive oc a wk)
   | SigReceive a \<Rightarrow> sigint_receive oc a wk
   | SigTick a t \<Rightarrow> sigint_tick oc a t wk
   | SigDone \<Rightarrow> UserPanics)"

definition sigint_task_drop :: "os_calls \<Rightarrow> sigint_task \<Rightarrow> (unit, sigint_task, unit) prog" where
  "sigint_task_drop oc s = (case s of
     SigReceive a \<Rightarrow> signal_drop oc a
   | SigTick a t \<Rightarrow> bind_prog (close_owned oc t) (\<lambda>_. signal_drop oc a)
   | _ \<Rightarrow> Ret ())"

definition sigint_example_user :: "os_calls \<Rightarrow> (sigint_task, unit) user" where
  "sigint_example_user oc = \<lparr>u_poll = (\<lambda>s wk. unwrap_poll (sigint_task_poll oc s wk)), u_drop = sigint_task_drop oc,
     u_is_err = (\<lambda>_. False)\<rparr>"

definition sigint_example_main :: "(unit, sigint_task, unit) prog" where
  "sigint_example_main = spawn_only SigStart (at_line ''examples/sigint.rs'' 2) (run_then (Ret ()))"

section \<open>What the futures do before they return\<close>

text \<open>The rounds that are left and those that have been done are all the rounds.\<close>

lemma await_path:
  assumes "prog_path (await p s k) tr r"
  obtains (wait) "prog_path p tr Pending" "r = (s, Pending)"
  | (go) tr1 tr2 x where "tr = tr1 @ tr2" "prog_path p tr1 (Ready x)" "prog_path (k x) tr2 r"
  using assms unfolding await_def by (auto split: poll.split_asm)

lemma io_loop_reads:
  "prog_path (io_loop oc t wk n) tr (s', r) \<Longrightarrow>
     (r = Pending \<longrightarrow> (\<exists>m. s' = IoTick m t \<and> length (reads tr) + m = n)) \<and> (r = Ready (Inr ()) \<longrightarrow> length (reads tr) = n)"
proof (induction n arbitrary: tr)
  case 0
  then show ?case by (auto dest: quiet_close)
next
  case (Suc n)
  from Suc.prems show ?case unfolding io_loop.simps
  proof (cases rule: await_path)
    case wait
    then show ?thesis by (auto dest: path_tick)
  next
    case (go tr1 tr2 x)
    then show ?thesis using Suc.IH [of tr2] path_tick [OF go(2)]
      by (cases x) (auto dest: quiet_close)
  qed
qed

text \<open>\<open>done_after\<close> says how far a future is: \<open>measured\<close> what it has done, \<open>left\<close> what its state has left.\<close>

definition done_after :: "(('f call \<times> 'v reply) list \<Rightarrow> nat) \<Rightarrow> ('s \<Rightarrow> nat) \<Rightarrow> nat \<Rightarrow> ('f call \<times> 'v reply) list \<Rightarrow> 's
    \<Rightarrow> (io_error + unit) poll \<Rightarrow> bool" where
  "done_after measured left n tr s r \<longleftrightarrow>
     (r = Pending \<longrightarrow> measured tr + left s = n) \<and> (r = Ready (Inr ()) \<longrightarrow> measured tr = n)"

lemma polled_done_after:
  assumes "polled poll s tr s' r" and "\<And>tr tr'. measured (tr @ tr') = measured tr + measured tr'"
    and "\<And>wk tr s' r. prog_path (poll s wk) tr (s', r) \<Longrightarrow> good r s' \<and> done_after measured left n tr s' r"
    and "\<And>wk tr s1 s' r. good Pending s1 \<Longrightarrow> prog_path (poll s1 wk) tr (s', r) \<Longrightarrow>
      good r s' \<and> done_after measured left (left s1) tr s' r"
  shows "done_after measured left n tr s' r"
proof -
  have "good r s' \<and> done_after measured left n tr s' r"
    using assms(1)
  proof (induction rule: polled.induct)
    case (again tr s1 wk tr1 s' r)
    from assms(4) [OF conjunct1 [OF again.IH] again.hyps(2)] again.IH show ?case
      by (auto simp: done_after_def assms(2))
  qed (rule assms(3))
  then show ?thesis ..
qed

primrec io_left :: "io_task \<Rightarrow> nat" where
  "io_left IoStart = IO_TASK_STEPS"
| "io_left (IoTick n t) = n"
| "io_left IoDone = 0"

primrec blocking_left :: "blocking_task \<Rightarrow> nat" where
  "blocking_left BlockingStart = BLOCKING_TASK_STEPS"
| "blocking_left (BlockingYield n y) = n"
| "blocking_left BlockingDone = 0"

lemma io_loop_done:
  "prog_path (io_loop oc t wk n) tr (s', r) \<Longrightarrow>
     (r = Pending \<longrightarrow> (\<exists>m t. s' = IoTick m t)) \<and> done_after (\<lambda>tr. length (reads tr)) io_left n tr s' r"
  using io_loop_reads [of oc t wk n tr s' r] by (auto simp: done_after_def)

lemma io_task_done:
  assumes "polled (io_task_poll oc) IoStart tr s' r"
  shows "done_after (\<lambda>tr. length (reads tr)) io_left IO_TASK_STEPS tr s' r"
  using assms
proof (rule polled_done_after [where good = "\<lambda>r s. r = Pending \<longrightarrow> (\<exists>m t. s = IoTick m t)"])
  show "(r = Pending \<longrightarrow> (\<exists>m t. s' = IoTick m t)) \<and> done_after (\<lambda>tr. length (reads tr)) io_left IO_TASK_STEPS tr s' r"
    if "prog_path (io_task_poll oc IoStart wk) tr (s', r)" for wk tr s' r
    using that
    by (auto simp: io_task_poll_def done_after_def dest!: quiet_timer_new quiet_timer_set quiet_close io_loop_reads
        split: sum.split_asm)
  show "(r = Pending \<longrightarrow> (\<exists>m t. s' = IoTick m t)) \<and> done_after (\<lambda>tr. length (reads tr)) io_left (io_left s1) tr s' r"
    if g: "Pending = Pending \<longrightarrow> (\<exists>m t. s1 = IoTick m t)" and p: "prog_path (io_task_poll oc s1 wk) tr (s', r)" for wk tr s1 s' r
  proof -
    obtain m t where m: "s1 = IoTick m t" using g by blast
    with p have "prog_path (io_loop oc t wk m) tr (s', r)" by (simp add: io_task_poll_def)
    from io_loop_done [OF this] m show ?thesis by simp
  qed
qed simp

text \<open>The blocking task wakes itself once in each round, in the poll before the round ends.\<close>

lemma yield_then_first:
  "prog_path (yield_then n False wk p) tr (s', r) \<Longrightarrow> s' = BlockingYield n True \<and> r = Pending \<and> wakes tr = 1"
  by (auto simp: yield_then_def yield_poll_def)

lemma yield_then_again: "yield_then n True wk p = p"
  by (simp add: yield_then_def yield_poll_def)

lemma blocking_loop_wakes:
  assumes "prog_path (blocking_loop nap wk n) tr (s', r)"
  shows "(r = Pending \<longrightarrow> (\<exists>m. s' = BlockingYield m True)) \<and> done_after wakes blocking_left n tr s' r"
proof (cases n)
  case (Suc m)
  with assms show ?thesis by (auto simp: done_after_def dest!: yield_then_first)
qed (use assms in \<open>simp add: done_after_def\<close>)

lemma blocking_task_done:
  assumes "polled (blocking_task_poll nap) BlockingStart tr s' r"
  shows "done_after wakes blocking_left BLOCKING_TASK_STEPS tr s' r"
  using assms
proof (rule polled_done_after [where good = "\<lambda>r s. r = Pending \<longrightarrow> (\<exists>m. s = BlockingYield m True)"])
  show "(r = Pending \<longrightarrow> (\<exists>m. s' = BlockingYield m True)) \<and> done_after wakes blocking_left BLOCKING_TASK_STEPS tr s' r"
    if "prog_path (blocking_task_poll nap BlockingStart wk) tr (s', r)" for wk tr s' r
    using that blocking_loop_wakes by (simp add: blocking_task_poll_def)
  show "(r = Pending \<longrightarrow> (\<exists>m. s' = BlockingYield m True)) \<and> done_after wakes blocking_left (blocking_left s1) tr s' r"
    if g: "Pending = Pending \<longrightarrow> (\<exists>m. s1 = BlockingYield m True)" and p: "prog_path (blocking_task_poll nap s1 wk) tr (s', r)"
    for wk tr s1 s' r
  proof -
    obtain m where m: "s1 = BlockingYield m True" using g by blast
    with p have "prog_path (blocking_loop nap wk m) tr (s', r)" by (simp add: blocking_task_poll_def yield_then_again)
    from blocking_loop_wakes [OF this] m show ?thesis by simp
  qed
qed simp

text \<open>The blocks of \<open>main\<close> follow the functions they await.\<close>

lemma unwrap_poll_path:
  assumes "prog_path (wrap_state c (unwrap_poll p)) tr (f, r)"
  shows "\<exists>s z. f = c s \<and> prog_path p tr (s, z) \<and> (if r = Pending then z = Pending else z = Ready (Inr ()))"
  using assms by (auto simp: wrap_state_def unwrap_poll_def unwrap_then_def split: poll.split_asm sum.split_asm)

lemma polled_block:
  assumes "polled poll (c s0) tr f r" and c: "\<And>s wk. poll (c s) wk = wrap_state c (unwrap_poll (inner s wk))"
  shows "\<exists>s z. f = c s \<and> polled inner s0 tr s z \<and> (if r = Pending then z = Pending else z = Ready (Inr ()))"
  using assms(1)
proof (induction rule: polled.induct)
  case (first wk tr f r)
  from unwrap_poll_path [OF first [unfolded c]] show ?case by (blast intro: polled.first)
next
  case (again tr f1 wk tr1 f r)
  then obtain s1 where s1: "f1 = c s1" "polled inner s0 tr s1 Pending" by auto
  from unwrap_poll_path [OF again.hyps(2) [unfolded s1(1) c]] show ?case by (blast intro: polled.again [OF s1(2)])
qed

text \<open>
  C31: the tasks of \<^verbatim>\<open>yield.rs\<close> do all their rounds. Whatever the kernel answers and whenever
  they are polled, the I/O task ends only after its third tick, and the blocking task only
  after it has yielded nine times, by waking itself.
\<close>

theorem yield_example_rounds:
  assumes "polled (yield_example_poll oc nap) (IoTask IoStart) tr f (Ready ())"
    and "polled (yield_example_poll oc nap) (BlockingTask BlockingStart) tr' f' (Ready ())"
  shows "length (reads tr) = 3 \<and> wakes tr' = 9"
proof -
  have "\<exists>s. polled (io_task_poll oc) IoStart tr s (Ready (Inr ()))"
    using polled_block [where c = IoTask and inner = "io_task_poll oc", OF assms(1)] by auto
  moreover have "\<exists>s. polled (blocking_task_poll nap) BlockingStart tr' s (Ready (Inr ()))"
    using polled_block [where c = BlockingTask and inner = "blocking_task_poll nap", OF assms(2)] by auto
  ultimately show ?thesis
    by (auto dest!: io_task_done blocking_task_done simp: done_after_def IO_TASK_STEPS_def BLOCKING_TASK_STEPS_def)
qed

text \<open>Both tasks can come to their ends.\<close>

lemma path_bindI:
  assumes "\<exists>tr. prog_path p tr x" and "\<exists>tr. prog_path (g x) tr r"
  shows "\<exists>tr. prog_path (bind_prog p g) tr r"
proof -
  obtain tr1 tr2 where "prog_path p tr1 x" "prog_path (g x) tr2 r" using assms by blast
  then have "prog_path (bind_prog p g) (tr1 @ tr2) r" by (induction rule: prog_path.induct) simp_all
  then show ?thesis by (rule exI)
qed

lemma ex_image [simp]: "\<exists>tr x. tr = f x"
  by blast

lemma polled_firstI: "\<exists>tr. prog_path (poll s wk) tr (s', r) \<Longrightarrow> \<exists>tr. polled poll s tr s' r"
  by (erule exE, rule exI, erule polled.first)

lemma polled_againI:
  "\<exists>tr. polled poll s tr s1 Pending \<Longrightarrow> \<exists>tr. prog_path (poll s1 wk) tr (s', r) \<Longrightarrow> \<exists>tr. polled poll s tr s' r"
  by (erule exE, erule exE, rule exI, erule polled.again)

lemma io_loop_ends: "\<exists>tr. prog_path (io_loop oc t wk n) tr (IoDone, Ready (Inr ()))"
proof (induction n)
  case 0
  have "\<exists>tr. prog_path (close_owned oc t) tr ()" unfolding close_owned_def
    by (rule path_bindI [where x = "()"], simp, rule path_bindI [where x = "Inr 0"]) simp_all
  then show ?case unfolding io_loop.simps by (rule path_bindI) simp
next
  case (Suc n)
  have "\<exists>tr. prog_path (timer_tick oc t wk) tr (Ready (Inr 1))" by (simp add: timer_tick_def)
  with Suc.IH show ?case unfolding io_loop.simps await_def by (intro path_bindI [where x = "Ready (Inr 1)"]) simp_all
qed

lemma io_task_ends: "\<exists>tr. prog_path (io_task_poll oc IoStart wk) tr (IoDone, Ready (Inr ()))"
proof -
  let ?t = "\<lparr>of_fd = 5, of_obj = 7\<rparr>"
  have "\<exists>tr. prog_path (open_owned oc 5 EPOLLIN) tr (Inr ?t)"
    unfolding open_owned_def by (rule path_bindI [where x = "Inr 7"]) simp_all
  then have "\<exists>tr. prog_path (timer_new oc) tr (Inr ?t)"
    unfolding timer_new_def by (intro path_bindI [where x = "Inr 5"]) simp_all
  moreover have "\<exists>tr. prog_path (timer_set oc ?t x) tr (Inr ())" for x
    unfolding timer_set_def by (rule path_bindI [where x = "Inr 0"]) simp_all
  ultimately show ?thesis using io_loop_ends unfolding io_task_poll_def io_task.case
    by (intro path_bindI [where x = "Inr ?t"]) (simp, simp, rule path_bindI [where x = "Inr ()"], simp_all)
qed

lemma block_path:
  "\<exists>tr. prog_path p tr (s, Ready (Inr ())) \<Longrightarrow> \<exists>tr. prog_path (wrap_state c (unwrap_poll p)) tr (c s, Ready ())"
  "\<exists>tr. prog_path p tr (s, Pending) \<Longrightarrow> \<exists>tr. prog_path (wrap_state c (unwrap_poll p)) tr (c s, Pending)"
  unfolding wrap_state_def unwrap_poll_def
  by (rule path_bindI [where x = "(s, Ready ())"], erule path_bindI; simp add: unwrap_then_def)
     (rule path_bindI [where x = "(s, Pending)"], erule path_bindI; simp)

lemma blocking_round: "\<exists>tr. prog_path (blocking_loop nap wk (Suc n)) tr (BlockingYield n True, Pending)"
  unfolding blocking_loop.simps by (rule path_bindI [where x = "Inr 0"]) (simp_all add: yield_then_def yield_poll_def)

lemma blocking_polls:
  "n < BLOCKING_TASK_STEPS \<Longrightarrow> \<exists>tr. polled (yield_example_poll oc nap) (BlockingTask BlockingStart) tr
     (BlockingTask (BlockingYield (BLOCKING_TASK_STEPS - Suc n) True)) Pending"
proof (induction n)
  case 0
  have "\<exists>tr. prog_path (blocking_task_poll nap BlockingStart NoopWaker) tr (BlockingYield (BLOCKING_TASK_STEPS - Suc 0) True, Pending)"
    using blocking_round [of nap NoopWaker "BLOCKING_TASK_STEPS - 1"] 0 by (simp add: blocking_task_poll_def)
  from block_path(2) [OF this, of BlockingTask] show ?case by (intro polled_firstI [where wk = NoopWaker]) simp
next
  case (Suc n)
  let ?m = "BLOCKING_TASK_STEPS - Suc (Suc n)"
  have m: "BLOCKING_TASK_STEPS - Suc n = Suc ?m" using Suc.prems by simp
  have prev: "\<exists>tr. polled (yield_example_poll oc nap) (BlockingTask BlockingStart) tr (BlockingTask (BlockingYield (Suc ?m) True)) Pending"
    using Suc.IH Suc.prems unfolding m by simp
  have "\<exists>tr. prog_path (blocking_task_poll nap (BlockingYield (Suc ?m) True) NoopWaker) tr (BlockingYield ?m True, Pending)"
    using blocking_round [of nap NoopWaker ?m] by (simp add: blocking_task_poll_def yield_then_again)
  from block_path(2) [OF this, of BlockingTask] show ?case by (intro polled_againI [OF prev, where wk = NoopWaker]) simp
qed

theorem yield_example_rounds_witness:
  "\<exists>tr tr'. (\<exists>f. polled (yield_example_poll demo_os 0) (IoTask IoStart) tr f (Ready ())) \<and>
     (\<exists>f. polled (yield_example_poll demo_os 0) (BlockingTask BlockingStart) tr' f (Ready ())) \<and>
     length (reads tr) = 3 \<and> wakes tr' = 9"
proof -
  have "\<exists>tr. polled (yield_example_poll demo_os 0) (IoTask IoStart) tr (IoTask IoDone) (Ready ())"
    by (rule polled_firstI [where wk = NoopWaker]) (use block_path(1) [OF io_task_ends, of IoTask] in simp)
  then obtain tr where tr: "polled (yield_example_poll demo_os 0) (IoTask IoStart) tr (IoTask IoDone) (Ready ())" ..
  have last: "\<exists>tr. polled (yield_example_poll demo_os 0) (BlockingTask BlockingStart) tr (BlockingTask (BlockingYield 0 True)) Pending"
    using blocking_polls [of 8 demo_os 0] by (simp add: BLOCKING_TASK_STEPS_def IO_TASK_STEPS_def)
  have "\<exists>tr. prog_path (blocking_task_poll 0 (BlockingYield 0 True) NoopWaker) tr (BlockingDone, Ready (Inr ()))"
    by (simp add: blocking_task_poll_def yield_then_again)
  from block_path(1) [OF this, of BlockingTask]
  have "\<exists>tr. polled (yield_example_poll demo_os 0) (BlockingTask BlockingStart) tr (BlockingTask BlockingDone) (Ready ())"
    by (intro polled_againI [OF last, where wk = NoopWaker]) simp
  then obtain tr' where tr': "polled (yield_example_poll demo_os 0) (BlockingTask BlockingStart) tr' (BlockingTask BlockingDone) (Ready ())" ..
  from yield_example_rounds [OF tr tr'] tr tr' show ?thesis by blast
qed

text \<open>The block of \<^verbatim>\<open>timer.rs\<close> returns after three ticks of one expiration each.\<close>

lemma tick_loop_reads:
  "prog_path (tick_loop oc t wk n) tr (s', r) \<Longrightarrow>
     \<exists>m \<le> n. reads tr = replicate (n - m) 1 \<and> (if r = Pending then s' = TickLoop m t else m = 0)"
proof (induction n arbitrary: tr)
  case 0
  then show ?case by (auto dest: quiet_close)
next
  case (Suc n)
  from Suc.prems show ?case unfolding tick_loop.simps
  proof (cases rule: await_path)
    case wait
    then show ?thesis by (auto dest!: path_tick intro!: exI [of _ "Suc n"])
  next
    case (go tr1 tr2 x)
    then have x: "x = Inr 1" "prog_path (tick_loop oc t wk n) tr2 (s', r)" by (auto simp: prog_path_unwrap split: if_split_asm)
    from Suc.IH [OF x(2)] obtain m where
      "m \<le> n" "reads tr2 = replicate (n - m) 1" "if r = Pending then s' = TickLoop m t else m = 0" by blast
    with go(1) x(1) path_tick [OF go(2)] show ?thesis
      by (intro exI [of _ m]) (simp add: Suc_diff_le)
  qed
qed

lemma timer_example_ticks:
  assumes "polled (tick_block_poll oc) (TickLoop n t) tr s' r"
  shows "\<exists>m \<le> n. reads tr = replicate (n - m) 1 \<and> (if r = Pending then s' = TickLoop m t else m = 0)"
  using assms
proof (induction rule: polled.induct)
  case (first wk tr s' r)
  then show ?case by (intro tick_loop_reads) (simp add: tick_block_poll_def)
next
  case (again tr s1 wk tr1 s' r)
  then obtain m where m: "m \<le> n" "reads tr = replicate (n - m) 1" "s1 = TickLoop m t" by auto
  with again.hyps(2) have "prog_path (tick_loop oc t wk m) tr1 (s', r)" by (simp add: tick_block_poll_def)
  from tick_loop_reads [OF this] obtain l where
    "l \<le> m" "reads tr1 = replicate (m - l) 1" "if r = Pending then s' = TickLoop l t else l = 0" by blast
  with m show ?case by (intro exI [of _ l]) (simp add: replicate_add [symmetric])
qed

text \<open>The task of \<^verbatim>\<open>sigint.rs\<close> reads a signal and then its timer.\<close>

primrec sigint_left :: "sigint_task \<Rightarrow> nat" where
  "sigint_left SigStart = 2"
| "sigint_left (SigReceive a) = 2"
| "sigint_left (SigTick a t) = 1"
| "sigint_left SigDone = 0"

definition sigint_waiting :: "(io_error + unit) poll \<Rightarrow> sigint_task \<Rightarrow> bool" where
  "sigint_waiting r s \<longleftrightarrow> (r = Pending \<longrightarrow> (\<exists>a. s = SigReceive a) \<or> (\<exists>a t. s = SigTick a t))"

lemma quiet_signal_new: "prog_path (signal_new oc m) tr r \<Longrightarrow> reads tr = []"
  by (auto simp: signal_new_def dest!: quiet_open split: sum.split_asm if_split_asm)

lemma quiet_sigint_end: "prog_path (sigint_end oc a z) tr (s', r) \<Longrightarrow> reads tr = [] \<and> s' = SigDone \<and> r = Ready z"
  by (auto simp: sigint_end_def signal_drop_def dest!: quiet_close)

lemma path_receive: "prog_path (signal_receive oc a wk) tr z \<Longrightarrow> reads tr = (case z of Ready (Inr n) \<Rightarrow> [n] | _ \<Rightarrow> [])"
  by (auto simp: signal_receive_def split: poll.split sum.split)

lemma sigint_tick_reads:
  assumes "prog_path (sigint_tick oc a t wk) tr (s', r)"
  shows "sigint_waiting r s' \<and> done_after (\<lambda>tr. length (reads tr)) sigint_left 1 tr s' r"
  using assms unfolding sigint_tick_def
proof (cases rule: await_path)
  case wait
  then show ?thesis by (auto simp: done_after_def sigint_waiting_def dest!: path_tick)
next
  case (go tr1 tr2 x)
  then show ?thesis using path_tick [OF go(2)]
    by (cases x) (auto simp: done_after_def sigint_waiting_def dest!: quiet_close quiet_sigint_end)
qed

lemma sigint_receive_reads:
  assumes "prog_path (sigint_receive oc a wk) tr (s', r)"
  shows "sigint_waiting r s' \<and> done_after (\<lambda>tr. length (reads tr)) sigint_left 2 tr s' r"
  using assms unfolding sigint_receive_def
proof (cases rule: await_path)
  case wait
  then show ?thesis by (auto simp: done_after_def sigint_waiting_def dest!: path_receive)
next
  case (go tr1 tr2 x)
  then show ?thesis using path_receive [OF go(2)]
    by (cases x)
       (auto simp: done_after_def sigint_waiting_def split: sum.split_asm
         dest!: quiet_timer_new quiet_timer_set quiet_close quiet_sigint_end sigint_tick_reads)
qed

lemma sigint_example_reads:
  assumes "polled (sigint_task_poll oc) SigStart tr s' r"
  shows "done_after (\<lambda>tr. length (reads tr)) sigint_left 2 tr s' r"
  using assms
proof (rule polled_done_after [where good = sigint_waiting])
  show "sigint_waiting r s' \<and> done_after (\<lambda>tr. length (reads tr)) sigint_left 2 tr s' r"
    if p: "prog_path (sigint_task_poll oc SigStart wk) tr (s', r)" for wk tr s' r
    using p unfolding sigint_task_poll_def sigint_task.case
    by (auto dest!: quiet_signal_new sigint_receive_reads simp: done_after_def sigint_waiting_def split: sum.split_asm)
  show "sigint_waiting r s' \<and> done_after (\<lambda>tr. length (reads tr)) sigint_left (sigint_left s1) tr s' r"
    if g: "sigint_waiting Pending s1" and p: "prog_path (sigint_task_poll oc s1 wk) tr (s', r)" for wk tr s1 s' r
    using g p sigint_receive_reads [of oc _ wk tr s' r] sigint_tick_reads [of oc _ _ wk tr s' r]
    by (auto simp: sigint_waiting_def sigint_task_poll_def)
qed simp

end
