(* ===== verification/Epox_Waker_Memory.thy ===== *)
theory Epox_Waker_Memory
  imports Epox_Prelude
begin

text \<open>
  The memory of task wakers: \<open>task_waker\<close> of \<^verbatim>\<open>executor.rs\<close>. A waker is the raw pointer of a
  \<open>Weak\<close>; it may be cloned, woken and dropped on any thread, while the thread of the executor
  clones and drops the \<open>Arc\<close>s of its queues and handles, reads the pipe and closes it. The
  other theories take every call of a waker as one step. Here the calls are sequences of the
  atomic operations of \<open>Arc\<close> and \<open>Weak\<close>, for one task and any number of threads, and the steps
  of the threads interleave.

  The lemmas show that no interleaving uses the allocation of the task after it was freed,
  destroys its future twice, or frees it while a waker is left, and that nothing leaks while
  the pipe is open. They show as well what can go wrong: the future may be destroyed on
  another thread than its executor's, and a wake after the end of the executor leaks.
\<close>

section \<open>Arc and Weak\<close>

text \<open>
  The counts as the standard library keeps them: all strong references together own one weak
  reference. \<open>has_value\<close> says that the \<open>ExecutorTask\<close> has not been destroyed.
\<close>

record arc =
  strong_count :: nat
  weak_count :: nat
  has_value :: bool
  allocated :: bool

definition strong_incr :: "arc \<Rightarrow> arc res" where
  "strong_incr a = (if allocated a \<and> 0 < strong_count a then Ok (a\<lparr>strong_count := strong_count a + 1\<rparr>) else Fault UB)"

text \<open>\<open>Weak::upgrade\<close>: whether it gives a reference.\<close>

definition upgrade :: "arc \<Rightarrow> (bool \<times> arc) res" where
  "upgrade a = (if \<not> allocated a then Fault UB
     else if strong_count a = 0 then Ok (False, a)
     else Ok (True, a\<lparr>strong_count := strong_count a + 1\<rparr>))"

text \<open>The decrement when an \<open>Arc\<close> is dropped, and whether it was the last one.\<close>

definition strong_decr :: "arc \<Rightarrow> (bool \<times> arc) res" where
  "strong_decr a = (if allocated a \<and> 0 < strong_count a
     then Ok (strong_count a = 1, a\<lparr>strong_count := strong_count a - 1\<rparr>) else Fault UB)"

definition weak_incr :: "arc \<Rightarrow> arc res" where
  "weak_incr a = (if allocated a then Ok (a\<lparr>weak_count := weak_count a + 1\<rparr>) else Fault UB)"

text \<open>The last weak reference frees the allocation.\<close>

definition weak_decr :: "arc \<Rightarrow> arc res" where
  "weak_decr a = (if allocated a \<and> 0 < weak_count a
     then Ok (a\<lparr>weak_count := weak_count a - 1, allocated := weak_count a \<noteq> 1\<rparr>) else Fault UB)"

definition destroy_value :: "arc \<Rightarrow> arc res" where
  "destroy_value a = (if allocated a \<and> has_value a then Ok (a\<lparr>has_value := False\<rparr>) else Fault UB)"

section \<open>Instructions\<close>

text \<open>
  The vtable functions and \<open>wake_from_pipe\<close> as code over these operations. What follows an
  upgrade that gives a reference depends on the function. \<open>WritePipe\<close> owns the \<open>Weak\<close> whose
  address it writes, \<open>Enqueue\<close>, \<open>Keep\<close> and \<open>ArcDrop\<close> own an \<open>Arc\<close>, \<open>WeakDrop\<close> a \<open>Weak\<close>.
\<close>

datatype purpose = ForClone | ForWake | ForTrace | ForPipe

datatype instr = Upgrade purpose | Downgrade | Post | WritePipe | Enqueue | Keep | ArcDrop | DestroyValue | WeakDrop

datatype vtable_call = CloneWaker | WakeByVal | WakeByRef | DropWaker

definition trace_code :: "bool \<Rightarrow> instr list" where
  "trace_code traced = (if traced then [Upgrade ForTrace] else [])"

fun vtable_code :: "bool \<Rightarrow> vtable_call \<Rightarrow> instr list" where
  "vtable_code traced CloneWaker = [Upgrade ForClone]"
| "vtable_code traced WakeByVal = trace_code traced @ [Upgrade ForWake, WeakDrop]"
| "vtable_code traced WakeByRef = trace_code traced @ [Upgrade ForWake]"
| "vtable_code traced DropWaker = trace_code traced @ [WeakDrop]"

definition by_ref :: "vtable_call \<Rightarrow> bool" where
  "by_ref c \<longleftrightarrow> c = CloneWaker \<or> c = WakeByRef"

text \<open>\<open>from_raw\<close> takes the \<open>Weak\<close> that was written; it is dropped at the end.\<close>

definition pipe_code :: "instr list" where
  "pipe_code = [Upgrade ForPipe, WeakDrop]"

text \<open>
  With a reference: a clone makes a \<open>Weak\<close>; tracing reads the span; a wake enqueues the task
  on the thread whose executor has the pipe of the task, and elsewhere clones the \<open>Weak\<close> and
  writes its address.
\<close>

definition upgraded_code :: "bool \<Rightarrow> purpose \<Rightarrow> instr list" where
  "upgraded_code local p = (case p of
     ForClone \<Rightarrow> [Downgrade, ArcDrop]
   | ForTrace \<Rightarrow> [ArcDrop]
   | ForWake \<Rightarrow> (if local then [Enqueue] else [Post, ArcDrop])
   | ForPipe \<Rightarrow> [Enqueue])"

section \<open>Threads\<close>

text \<open>
  The wakers are numbered; a thread that executes a call by reference borrows its waker.
  Thread 0 is that of the executor; \<open>sh_refs\<close> are the \<open>Arc\<close>s of its queues and handles, and
  \<open>sh_pipe\<close> the addresses in its pipe. \<open>sh_lost\<close> counts \<open>Weak\<close>s that nobody owns any more.
\<close>

record shared =
  sh_arc :: arc
  sh_wakers :: "nat set"
  sh_next :: nat
  sh_refs :: nat
  sh_completed :: bool
  sh_pipe :: nat
  sh_open :: bool
  sh_lost :: nat
  sh_destroyed_on :: "nat option"
  sh_threads :: "(nat option \<times> instr list) list"

definition set_code :: "nat \<Rightarrow> instr list \<Rightarrow> shared \<Rightarrow> shared" where
  "set_code i cs s = s\<lparr>sh_threads := (sh_threads s)[i := (if cs = [] then None else fst (sh_threads s ! i), cs)]\<rparr>"

definition begin_code :: "nat \<Rightarrow> nat option \<Rightarrow> instr list \<Rightarrow> shared \<Rightarrow> shared" where
  "begin_code i b cs s = s\<lparr>sh_threads := (sh_threads s)[i := (b, cs)]\<rparr>"

definition on_arc :: "arc res \<Rightarrow> (shared \<Rightarrow> shared) \<Rightarrow> shared \<Rightarrow> shared res" where
  "on_arc r f s = bind_res r (\<lambda>a. Ok (f (s\<lparr>sh_arc := a\<rparr>)))"

text \<open>
  One instruction of thread \<open>i\<close>, followed by \<open>cs\<close>. A write to a closed pipe fails with
  EBADF, which \<open>wake\<close> ignores; the \<open>Weak\<close> it has turned into an address is lost.
  (That a write to a full pipe panics is part of \<open>remote_wake\<close> in \<open>Epox_Executor\<close>, not of this model.)
\<close>

fun exec_instr :: "nat \<Rightarrow> instr \<Rightarrow> instr list \<Rightarrow> shared \<Rightarrow> shared res" where
  "exec_instr i (Upgrade p) cs s = bind_res (upgrade (sh_arc s)) (\<lambda>(ok, a).
     Ok (set_code i ((if ok then upgraded_code (i = 0 \<and> sh_open s) p else []) @ cs) (s\<lparr>sh_arc := a\<rparr>)))"
| "exec_instr i Downgrade cs s = on_arc (weak_incr (sh_arc s))
     (\<lambda>s. set_code i cs (s\<lparr>sh_wakers := insert (sh_next s) (sh_wakers s), sh_next := Suc (sh_next s)\<rparr>)) s"
| "exec_instr i Post cs s = on_arc (weak_incr (sh_arc s)) (set_code i (WritePipe # cs)) s"
| "exec_instr i WritePipe cs s = Ok (set_code i cs
     (if sh_open s then s\<lparr>sh_pipe := sh_pipe s + 1\<rparr> else s\<lparr>sh_lost := sh_lost s + 1\<rparr>))"
| "exec_instr i Enqueue cs s = Ok (if sh_completed s then set_code i (ArcDrop # cs) s
     else set_code i cs (s\<lparr>sh_refs := sh_refs s + 1\<rparr>))"
| "exec_instr i Keep cs s = Ok (set_code i cs (s\<lparr>sh_refs := sh_refs s + 1\<rparr>))"
| "exec_instr i ArcDrop cs s = bind_res (strong_decr (sh_arc s)) (\<lambda>(last, a).
     Ok (set_code i ((if last then [DestroyValue, WeakDrop] else []) @ cs) (s\<lparr>sh_arc := a\<rparr>)))"
| "exec_instr i DestroyValue cs s = on_arc (destroy_value (sh_arc s))
     (\<lambda>s. set_code i (WeakDrop # cs) (s\<lparr>sh_destroyed_on := Some i\<rparr>)) s"
| "exec_instr i WeakDrop cs s = on_arc (weak_decr (sh_arc s)) (set_code i cs) s"

definition step_thread :: "nat \<Rightarrow> shared \<Rightarrow> shared res" where
  "step_thread i s = (if i < length (sh_threads s) then (case snd (sh_threads s ! i) of
     [] \<Rightarrow> Ok s | c # cs \<Rightarrow> exec_instr i c cs s) else Ok s)"

text \<open>
  What may happen: a thread calls a waker that it owns or borrows, as Rust's ownership
  permits, or makes a step of the call it is in; the thread of the executor calls the waker
  that is stored in the task, clones or drops a reference, reads its pipe, notes that the
  future has returned, or closes the pipe, with what is in it. (When \<open>epoll_wait\<close> finds an event
  it upgrades the waker stored for it and enqueues the task, as a call by reference does.)
\<close>

datatype event =
    Call_Waker nat vtable_call nat
  | Step_Thread nat
  | Call_Own vtable_call
  | Clone_Ref
  | Drop_Ref
  | Read_Pipe
  | Complete_Task
  | Close_Pipe

definition idle :: "nat \<Rightarrow> shared \<Rightarrow> bool" where
  "idle i s \<longleftrightarrow> i < length (sh_threads s) \<and> snd (sh_threads s ! i) = []"

definition unborrowed :: "nat \<Rightarrow> shared \<Rightarrow> bool" where
  "unborrowed x s \<longleftrightarrow> x \<in> sh_wakers s \<and> Some x \<notin> fst ` set (sh_threads s)"

fun event_step :: "bool \<Rightarrow> event \<Rightarrow> shared \<Rightarrow> shared res" where
  "event_step tr (Call_Waker i c x) s =
     (if idle i s \<and> by_ref c \<and> x \<in> sh_wakers s then Ok (begin_code i (Some x) (vtable_code tr c) s)
      else if idle i s \<and> \<not> by_ref c \<and> unborrowed x s
      then Ok (begin_code i None (vtable_code tr c) (s\<lparr>sh_wakers := sh_wakers s - {x}\<rparr>))
      else Ok s)"
| "event_step tr (Step_Thread i) s = step_thread i s"
| "event_step tr (Call_Own c) s = (if idle 0 s \<and> by_ref c \<and> 0 < sh_refs s
     then Ok (begin_code 0 None (vtable_code tr c @ [Keep]) (s\<lparr>sh_refs := sh_refs s - 1\<rparr>)) else Ok s)"
| "event_step tr Clone_Ref s = (if idle 0 s \<and> 0 < sh_refs s
     then on_arc (strong_incr (sh_arc s)) (\<lambda>s. s\<lparr>sh_refs := sh_refs s + 1\<rparr>) s else Ok s)"
| "event_step tr Drop_Ref s = (if idle 0 s \<and> 0 < sh_refs s
     then Ok (begin_code 0 None [ArcDrop] (s\<lparr>sh_refs := sh_refs s - 1\<rparr>)) else Ok s)"
| "event_step tr Read_Pipe s = (if idle 0 s \<and> sh_open s \<and> 0 < sh_pipe s
     then Ok (begin_code 0 None pipe_code (s\<lparr>sh_pipe := sh_pipe s - 1\<rparr>)) else Ok s)"
| "event_step tr Complete_Task s = (if idle 0 s \<and> 0 < sh_refs s then Ok (s\<lparr>sh_completed := True\<rparr>) else Ok s)"
| "event_step tr Close_Pipe s = (if idle 0 s
     then Ok (s\<lparr>sh_open := False, sh_lost := sh_lost s + sh_pipe s, sh_pipe := 0\<rparr>) else Ok s)"

primrec run_events :: "bool \<Rightarrow> event list \<Rightarrow> shared \<Rightarrow> shared res" where
  "run_events tr [] s = Ok s"
| "run_events tr (e # es) s = bind_res (event_step tr e s) (run_events tr es)"

text \<open>
  After \<open>spawn\<close> there are the references of the run queue and of the handle, the weak one of
  all references together, and the waker inside the task. \<open>n\<close> other threads are idle.
\<close>

definition spawned :: "nat \<Rightarrow> shared" where
  "spawned n = \<lparr>sh_arc = \<lparr>strong_count = 2, weak_count = 2, has_value = True, allocated = True\<rparr>,
     sh_wakers = {}, sh_next = 0, sh_refs = 2, sh_completed = False, sh_pipe = 0, sh_open = True, sh_lost = 0,
     sh_destroyed_on = None, sh_threads = replicate (Suc n) (None, [])\<rparr>"

section \<open>The invariant\<close>

text \<open>What an instruction owns.\<close>

definition owns_strong :: "instr \<Rightarrow> nat" where
  "owns_strong c = of_bool (c = Enqueue \<or> c = Keep \<or> c = ArcDrop)"

definition owns_weak :: "instr \<Rightarrow> nat" where
  "owns_weak c = of_bool (c = WritePipe \<or> c = WeakDrop)"

definition owns_value :: "instr \<Rightarrow> nat" where
  "owns_value c = of_bool (c = DestroyValue)"

definition need :: "(instr \<Rightarrow> nat) \<Rightarrow> instr list \<Rightarrow> nat" where
  "need f cs = (\<Sum>c \<leftarrow> cs. f c)"

definition total :: "(instr \<Rightarrow> nat) \<Rightarrow> (nat option \<times> instr list) list \<Rightarrow> nat" where
  "total f ts = (\<Sum>t \<leftarrow> ts. need f (snd t))"

text \<open>Every access to the allocation is covered by a reference; \<open>b\<close> says that a waker is borrowed.\<close>

primrec covered :: "bool \<Rightarrow> instr list \<Rightarrow> bool" where
  "covered b [] = True"
| "covered b (c # cs) = ((case c of
     Upgrade _ \<Rightarrow> b \<or> 0 < need owns_weak cs \<or> 0 < need owns_strong cs
   | Downgrade \<Rightarrow> 0 < need owns_strong cs
   | Post \<Rightarrow> 0 < need owns_strong cs
   | DestroyValue \<Rightarrow> 0 < need owns_weak cs
   | _ \<Rightarrow> True) \<and> covered b cs)"

definition waker_inv :: "shared \<Rightarrow> bool" where
  "waker_inv s \<longleftrightarrow> (let a = sh_arc s; ts = sh_threads s in
     strong_count a = sh_refs s + total owns_strong ts \<and>
     weak_count a = card (sh_wakers s) + sh_pipe s + sh_lost s + total owns_weak ts +
       of_bool (has_value a) + of_bool (0 < strong_count a) \<and>
     total owns_value ts = of_bool (has_value a \<and> strong_count a = 0) \<and>
     (0 < strong_count a \<longrightarrow> has_value a) \<and>
     (allocated a \<longleftrightarrow> 0 < weak_count a) \<and>
     finite (sh_wakers s) \<and> (\<forall>x \<in> sh_wakers s. x < sh_next s) \<and>
     (\<forall>(b, cs) \<in> set ts. covered (b \<noteq> None) cs \<and> set_option b \<subseteq> sh_wakers s))"

lemma need_simps [simp]:
  "need f [] = 0" "need f (c # cs) = f c + need f cs" "need f (cs @ ds) = need f cs + need f ds"
  by (simp_all add: need_def)

lemmas owns_simps = owns_strong_def owns_weak_def owns_value_def

lemma total_update:
  assumes "i < length ts" shows "total f (ts[i := t]) + need f (snd (ts ! i)) = total f ts + need f (snd t)"
  using assms
proof (induction ts arbitrary: i)
  case (Cons t' ts)
  then show ?case by (cases i) (auto simp: total_def)
qed simp

lemma need_le_total: "i < length ts \<Longrightarrow> need f (snd (ts ! i)) \<le> total f ts"
  using elem_le_sum_list [of i "map (\<lambda>t. need f (snd t)) ts"] by (simp add: total_def)

lemma waker_inv_spawned: "waker_inv (spawned n)"
  by (simp add: waker_inv_def spawned_def total_def sum_list_replicate)

text \<open>
  A step of thread \<open>i\<close> keeps the invariant when what its code owns changes with the counts.
\<close>

lemma waker_inv_step:
  assumes I: "waker_inv s" and i: "i < length (sh_threads s)" "snd (sh_threads s ! i) = cs"
    and s': "sh_threads s' = (sh_threads s)[i := (b, ds)]"
    and strong: "strong_count (sh_arc s') + sh_refs s + need owns_strong cs =
      strong_count (sh_arc s) + sh_refs s' + need owns_strong ds"
    and weak: "weak_count (sh_arc s') + card (sh_wakers s) + sh_pipe s + sh_lost s + need owns_weak cs +
        of_bool (has_value (sh_arc s)) + of_bool (0 < strong_count (sh_arc s)) =
      weak_count (sh_arc s) + card (sh_wakers s') + sh_pipe s' + sh_lost s' + need owns_weak ds +
        of_bool (has_value (sh_arc s')) + of_bool (0 < strong_count (sh_arc s'))"
    and val: "need owns_value ds + of_bool (has_value (sh_arc s) \<and> strong_count (sh_arc s) = 0) =
      need owns_value cs + of_bool (has_value (sh_arc s') \<and> strong_count (sh_arc s') = 0)"
    and live: "0 < strong_count (sh_arc s') \<Longrightarrow> has_value (sh_arc s')"
      "allocated (sh_arc s') \<longleftrightarrow> 0 < weak_count (sh_arc s')"
    and wakers: "finite (sh_wakers s')" "\<forall>x \<in> sh_wakers s'. x < sh_next s'"
      "\<forall>t \<in> set (sh_threads s). set_option (fst t) \<subseteq> sh_wakers s'" "set_option b \<subseteq> sh_wakers s'"
    and cov: "covered (b \<noteq> None) ds"
  shows "waker_inv s'"
proof -
  let ?ts = "sh_threads s"
  have T: "total f (?ts[i := (b, ds)]) + need f cs = total f ?ts + need f ds" for f
    using total_update [OF i(1), of f "(b, ds)"] i(2) by simp
  have le: "need f cs \<le> total f ?ts" for f using need_le_total [OF i(1), of f] i(2) by simp
  note J = I [unfolded waker_inv_def Let_def]
  have "strong_count (sh_arc s') = sh_refs s' + total owns_strong (sh_threads s')"
    using J T [of owns_strong] strong by (simp add: s')
  moreover have "weak_count (sh_arc s') = card (sh_wakers s') + sh_pipe s' + sh_lost s' + total owns_weak (sh_threads s') +
      of_bool (has_value (sh_arc s')) + of_bool (0 < strong_count (sh_arc s'))"
  proof -
    have w: "weak_count (sh_arc s) = card (sh_wakers s) + sh_pipe s + sh_lost s + total owns_weak ?ts +
        of_bool (has_value (sh_arc s)) + of_bool (0 < strong_count (sh_arc s))" using J by blast
    show ?thesis using weak T [of owns_weak] unfolding s' w by linarith
  qed
  moreover have "total owns_value (sh_threads s') = of_bool (has_value (sh_arc s') \<and> strong_count (sh_arc s') = 0)"
  proof -
    have v: "total owns_value ?ts = of_bool (has_value (sh_arc s) \<and> strong_count (sh_arc s) = 0)" using J by blast
    show ?thesis using val T [of owns_value] unfolding s' v by linarith
  qed
  moreover have "\<forall>(b, cs) \<in> set (sh_threads s'). covered (b \<noteq> None) cs \<and> set_option b \<subseteq> sh_wakers s'"
  proof -
    have "set (sh_threads s') \<subseteq> insert (b, ds) (set ?ts)" unfolding s' by (rule set_update_subset_insert)
    moreover have "\<forall>(b, cs) \<in> set ?ts. covered (b \<noteq> None) cs" using J by fast
    ultimately show ?thesis using wakers(3,4) cov by fastforce
  qed
  ultimately show ?thesis unfolding waker_inv_def Let_def using live wakers(1,2) by blast
qed

lemma set_code_inv:
  assumes I: "waker_inv s" and i: "i < length (sh_threads s)" "sh_threads s ! i = (b, cs)"
    and s1: "sh_threads s1 = sh_threads s"
    and "strong_count (sh_arc s1) + sh_refs s + need owns_strong cs =
      strong_count (sh_arc s) + sh_refs s1 + need owns_strong ds"
    and "weak_count (sh_arc s1) + card (sh_wakers s) + sh_pipe s + sh_lost s + need owns_weak cs +
        of_bool (has_value (sh_arc s)) + of_bool (0 < strong_count (sh_arc s)) =
      weak_count (sh_arc s) + card (sh_wakers s1) + sh_pipe s1 + sh_lost s1 + need owns_weak ds +
        of_bool (has_value (sh_arc s1)) + of_bool (0 < strong_count (sh_arc s1))"
    and "need owns_value ds + of_bool (has_value (sh_arc s) \<and> strong_count (sh_arc s) = 0) =
      need owns_value cs + of_bool (has_value (sh_arc s1) \<and> strong_count (sh_arc s1) = 0)"
    and "0 < strong_count (sh_arc s1) \<Longrightarrow> has_value (sh_arc s1)"
    and "allocated (sh_arc s1) \<longleftrightarrow> 0 < weak_count (sh_arc s1)"
    and wakers: "finite (sh_wakers s1)" "\<forall>x \<in> sh_wakers s1. x < sh_next s1" "sh_wakers s \<subseteq> sh_wakers s1"
    and cov: "covered (b \<noteq> None) ds"
  shows "waker_inv (set_code i ds s1)"
proof (rule waker_inv_step [OF I i(1)])
  have T: "\<forall>(b, cs) \<in> set (sh_threads s). set_option b \<subseteq> sh_wakers s" using I unfolding waker_inv_def Let_def by blast
  then show "\<forall>t \<in> set (sh_threads s). set_option (fst t) \<subseteq> sh_wakers (set_code i ds s1)"
    using wakers(3) by (fastforce simp: set_code_def)
  have "set_option b \<subseteq> sh_wakers s" using T nth_mem [OF i(1)] unfolding i(2) by blast
  then show "set_option (if ds = [] then None else b) \<subseteq> sh_wakers (set_code i ds s1)"
    using wakers(3) by (auto simp: set_code_def)
  show "covered ((if ds = [] then None else b) \<noteq> None) ds" using cov by simp
qed (use assms in \<open>simp_all add: set_code_def\<close>)

text \<open>What a thread may rely on when it executes the next instruction.\<close>

lemma thread_facts:
  assumes I: "waker_inv s" and i: "i < length (sh_threads s)" "sh_threads s ! i = (b, cs)"
  shows "need owns_strong cs \<le> strong_count (sh_arc s)" and "need owns_weak cs \<le> weak_count (sh_arc s)"
    and "need owns_value cs \<le> of_bool (has_value (sh_arc s) \<and> strong_count (sh_arc s) = 0)"
    and "covered (b \<noteq> None) cs" and "b \<noteq> None \<Longrightarrow> 0 < weak_count (sh_arc s)"
    and "0 < strong_count (sh_arc s) \<Longrightarrow> 0 < weak_count (sh_arc s)"
    and "allocated (sh_arc s) \<longleftrightarrow> 0 < weak_count (sh_arc s)"
    and "0 < strong_count (sh_arc s) \<Longrightarrow> has_value (sh_arc s)"
    and "finite (sh_wakers s)" and "\<forall>x \<in> sh_wakers s. x < sh_next s"
proof -
  note J = I [unfolded waker_inv_def Let_def]
  have le: "need f cs \<le> total f (sh_threads s)" for f using need_le_total [OF i(1), of f] i(2) by simp
  show "need owns_strong cs \<le> strong_count (sh_arc s)" "need owns_weak cs \<le> weak_count (sh_arc s)"
    "need owns_value cs \<le> of_bool (has_value (sh_arc s) \<and> strong_count (sh_arc s) = 0)"
    using J le [of owns_strong] le [of owns_weak] le [of owns_value] by linarith+
  have T: "covered (b \<noteq> None) cs \<and> set_option b \<subseteq> sh_wakers s" using J nth_mem [OF i(1)] unfolding i(2) by blast
  then show "covered (b \<noteq> None) cs" by blast
  show fin: "finite (sh_wakers s)" "\<forall>x \<in> sh_wakers s. x < sh_next s" using J by blast+
  show "0 < weak_count (sh_arc s)" if "b \<noteq> None"
  proof -
    from \<open>b \<noteq> None\<close> obtain x where "b = Some x" by blast
    then have "x \<in> sh_wakers s" using T by simp
    then have "0 < card (sh_wakers s)" using fin(1) card_gt_0_iff by blast
    then show ?thesis using J by linarith
  qed
  show "0 < weak_count (sh_arc s)" if "0 < strong_count (sh_arc s)"
  proof -
    have "of_bool (0 < strong_count (sh_arc s)) = (1 :: nat)" using that by simp
    then show ?thesis using J by linarith
  qed
  show "allocated (sh_arc s) \<longleftrightarrow> 0 < weak_count (sh_arc s)" using J by blast
  show "0 < strong_count (sh_arc s) \<Longrightarrow> has_value (sh_arc s)" using J by blast
qed

lemma upgraded_needs:
  "need owns_strong (upgraded_code l p) = 1" "need owns_weak (upgraded_code l p) = 0"
  "need owns_value (upgraded_code l p) = 0"
  by (cases p; simp add: upgraded_code_def owns_simps)+

lemma upgraded_covered: "covered b cs \<Longrightarrow> covered b (upgraded_code l p @ cs)"
  by (cases p) (simp_all add: upgraded_code_def owns_simps)

lemma exec_instr_inv:
  assumes I: "waker_inv s" and i: "i < length (sh_threads s)" "sh_threads s ! i = (b, c # cs)"
  shows "\<exists>s'. exec_instr i c cs s = Ok s' \<and> waker_inv s'"
proof -
  note F = thread_facts [OF I i]
  note step = set_code_inv [OF I i]
  let ?a = "sh_arc s"
  show ?thesis
  proof (cases c)
    case (Upgrade p)
    have al: "allocated ?a"
      using F(1,2,4-7) by (auto simp: Upgrade owns_simps)
    show ?thesis
    proof (cases "strong_count ?a = 0")
      case True
      with al show ?thesis using F by (auto simp: Upgrade upgrade_def owns_simps intro!: step)
    next
      case False
      with al upgraded_needs [of "i = 0 \<and> sh_open s" p] upgraded_covered [of "b \<noteq> None" cs "i = 0 \<and> sh_open s" p] F
      show ?thesis by (auto simp: Upgrade upgrade_def owns_simps simp del: not_None_eq intro!: step)
    qed
  next
    case Downgrade
    have new: "sh_next s \<notin> sh_wakers s" using F(10) by blast
    have "allocated ?a" using F(1,4,6,7) by (auto simp: Downgrade owns_simps)
    then show ?thesis using F new
      by (auto simp: Downgrade weak_incr_def on_arc_def owns_simps less_Suc_eq intro!: step)
  next
    case Post
    have "allocated ?a" using F(1,4,6,7) by (auto simp: Post owns_simps)
    then show ?thesis using F by (auto simp: Post weak_incr_def on_arc_def owns_simps intro!: step)
  next
    case WritePipe
    then show ?thesis using F by (auto simp: owns_simps intro!: step)
  next
    case Enqueue
    then show ?thesis using F by (auto simp: owns_simps intro!: step)
  next
    case Keep
    then show ?thesis using F by (auto simp: owns_simps intro!: step)
  next
    case ArcDrop
    have s: "0 < strong_count ?a" using F(1) by (simp add: ArcDrop owns_simps)
    have v: "has_value ?a" "allocated ?a" using F(6-8) s by blast+
    show ?thesis
    proof (cases "strong_count ?a = 1")
      case True
      with s v F show ?thesis by (auto simp: ArcDrop strong_decr_def owns_simps intro!: step)
    next
      case False
      with s v F show ?thesis by (auto simp: ArcDrop strong_decr_def owns_simps intro!: step)
    qed
  next
    case DestroyValue
    have v: "has_value ?a" "strong_count ?a = 0" using F(3) by (cases "has_value ?a \<and> strong_count ?a = 0"; simp add: DestroyValue owns_simps)+
    have "allocated ?a" using F(2,4,7) by (auto simp: DestroyValue owns_simps)
    with v F show ?thesis by (auto simp: DestroyValue destroy_value_def on_arc_def owns_simps intro!: step)
  next
    case WeakDrop
    have "0 < weak_count ?a" using F(2) by (simp add: WeakDrop owns_simps)
    with F show ?thesis by (auto simp: WeakDrop weak_decr_def on_arc_def owns_simps intro!: step)
  qed
qed

lemma step_thread_inv: "waker_inv s \<Longrightarrow> \<exists>s'. step_thread i s = Ok s' \<and> waker_inv s'"
  by (cases "sh_threads s ! i") (auto simp: step_thread_def intro!: exec_instr_inv split: list.split)

text \<open>The beginning of a call: what its code owns is taken from the state.\<close>

lemma begin_code_inv:
  assumes I: "waker_inv s" and i: "idle i s"
    and s1: "sh_threads s1 = sh_threads s" "sh_arc s1 = sh_arc s" "sh_next s1 = sh_next s"
    and refs: "sh_refs s = sh_refs s1 + need owns_strong cs"
    and weak: "card (sh_wakers s) + sh_pipe s + sh_lost s =
      card (sh_wakers s1) + sh_pipe s1 + sh_lost s1 + need owns_weak cs"
    and val: "need owns_value cs = 0" and cov: "covered (b \<noteq> None) cs"
    and wakers: "sh_wakers s1 \<subseteq> sh_wakers s" "\<forall>t \<in> set (sh_threads s). set_option (fst t) \<subseteq> sh_wakers s1"
      "set_option b \<subseteq> sh_wakers s1"
  shows "waker_inv (begin_code i b cs s1)"
proof -
  have i': "i < length (sh_threads s)" "snd (sh_threads s ! i) = []" using i by (simp_all add: idle_def)
  have "sh_threads s ! i = (fst (sh_threads s ! i), [])" using i'(2) by (simp add: prod_eq_iff)
  note F = thread_facts [OF I i'(1) this]
  have fin: "finite (sh_wakers s1)" using wakers(1) F(9) by (rule finite_subset)
  have new: "\<forall>x \<in> sh_wakers s1. x < sh_next s" using wakers(1) F(10) by blast
  show ?thesis
  proof (rule waker_inv_step [OF I i', where b = b and ds = cs])
    show "sh_threads (begin_code i b cs s1) = (sh_threads s)[i := (b, cs)]" by (simp add: begin_code_def s1)
    show "0 < strong_count (sh_arc (begin_code i b cs s1)) \<Longrightarrow> has_value (sh_arc (begin_code i b cs s1))"
      using F(8) by (simp add: begin_code_def s1)
    show "allocated (sh_arc (begin_code i b cs s1)) = (0 < weak_count (sh_arc (begin_code i b cs s1)))"
      using F(7) by (simp add: begin_code_def s1)
    show "strong_count (sh_arc (begin_code i b cs s1)) + sh_refs s + need owns_strong [] =
        strong_count (sh_arc s) + sh_refs (begin_code i b cs s1) + need owns_strong cs"
      using refs by (simp add: begin_code_def s1)
    show "weak_count (sh_arc (begin_code i b cs s1)) + card (sh_wakers s) + sh_pipe s + sh_lost s + need owns_weak [] +
        of_bool (has_value (sh_arc s)) + of_bool (0 < strong_count (sh_arc s)) =
      weak_count (sh_arc s) + card (sh_wakers (begin_code i b cs s1)) + sh_pipe (begin_code i b cs s1) +
        sh_lost (begin_code i b cs s1) + need owns_weak cs + of_bool (has_value (sh_arc (begin_code i b cs s1))) +
        of_bool (0 < strong_count (sh_arc (begin_code i b cs s1)))"
      using weak by (simp add: begin_code_def s1 del: of_bool_eq_iff)
    show "covered (b \<noteq> None) cs" by (rule cov)
  qed (use wakers fin new in \<open>simp_all add: begin_code_def s1 val\<close>)
qed

lemma vtable_needs:
  "need owns_strong (vtable_code tr c) = 0" "need owns_value (vtable_code tr c) = 0"
  "need owns_weak (vtable_code tr c) = of_bool (\<not> by_ref c)"
  by (cases c; simp add: trace_code_def by_ref_def owns_simps)+

lemma vtable_covered:
  "by_ref c \<Longrightarrow> covered True (vtable_code tr c)" "\<not> by_ref c \<Longrightarrow> covered False (vtable_code tr c)"
  "by_ref c \<Longrightarrow> covered False (vtable_code tr c @ [Keep])"
  by (cases c; simp add: trace_code_def by_ref_def owns_simps)+

lemma borrows_live: "waker_inv s \<Longrightarrow> t \<in> set (sh_threads s) \<Longrightarrow> set_option (fst t) \<subseteq> sh_wakers s"
proof -
  assume "waker_inv s" "t \<in> set (sh_threads s)"
  moreover from this(1) have "\<forall>(b, cs) \<in> set (sh_threads s). set_option b \<subseteq> sh_wakers s"
    unfolding waker_inv_def Let_def by blast
  ultimately show "set_option (fst t) \<subseteq> sh_wakers s" by (simp add: split_def)
qed

lemma refs_counted:
  assumes "waker_inv s" and "0 < sh_refs s"
  shows "0 < strong_count (sh_arc s)" "allocated (sh_arc s)"
proof -
  note J = assms(1) [unfolded waker_inv_def Let_def]
  show s: "0 < strong_count (sh_arc s)" using J assms(2) by linarith
  then have "of_bool (0 < strong_count (sh_arc s)) = (1 :: nat)" by simp
  then have "0 < weak_count (sh_arc s)" using J by linarith
  then show "allocated (sh_arc s)" using J by blast
qed

lemma event_step_inv:
  assumes I: "waker_inv s"
  shows "\<exists>s'. event_step tr e s = Ok s' \<and> waker_inv s'"
proof (cases e)
  case (Call_Waker i c x)
  have "waker_inv (begin_code i (Some x) (vtable_code tr c) s)" if "idle i s" "by_ref c" "x \<in> sh_wakers s"
    by (rule begin_code_inv [OF I that(1)])
       (use that borrows_live [OF I] in \<open>auto simp: vtable_needs vtable_covered\<close>)
  moreover have "waker_inv (begin_code i None (vtable_code tr c) (s\<lparr>sh_wakers := sh_wakers s - {x}\<rparr>))"
    if i: "idle i s" and c: "\<not> by_ref c" and x: "unborrowed x s"
  proof (rule begin_code_inv [OF I i])
    have fin: "finite (sh_wakers s)" using I unfolding waker_inv_def Let_def by blast
    then have "card (sh_wakers s) = Suc (card (sh_wakers s - {x}))"
      using x by (simp add: unborrowed_def card.remove del: card_Diff_insert)
    then show "card (sh_wakers s) + sh_pipe s + sh_lost s = card (sh_wakers (s\<lparr>sh_wakers := sh_wakers s - {x}\<rparr>)) +
        sh_pipe (s\<lparr>sh_wakers := sh_wakers s - {x}\<rparr>) + sh_lost (s\<lparr>sh_wakers := sh_wakers s - {x}\<rparr>) +
        need owns_weak (vtable_code tr c)"
      using c by (simp add: vtable_needs)
    show "\<forall>t \<in> set (sh_threads s). set_option (fst t) \<subseteq> sh_wakers (s\<lparr>sh_wakers := sh_wakers s - {x}\<rparr>)"
      using borrows_live [OF I] x by (force simp: unborrowed_def)
  qed (use c in \<open>simp_all add: vtable_needs vtable_covered\<close>)
  ultimately show ?thesis using I Call_Waker by auto
next
  case (Step_Thread i)
  then show ?thesis using step_thread_inv [OF I] by simp
next
  case (Call_Own c)
  have "waker_inv (begin_code 0 None (vtable_code tr c @ [Keep]) (s\<lparr>sh_refs := sh_refs s - 1\<rparr>))"
    if "idle 0 s" "by_ref c" "0 < sh_refs s"
    by (rule begin_code_inv [OF I that(1)])
       (use that borrows_live [OF I] in \<open>auto simp: vtable_needs vtable_covered owns_simps\<close>)
  then show ?thesis using I Call_Own by auto
next
  case Clone_Ref
  show ?thesis
  proof (cases "idle 0 s \<and> 0 < sh_refs s")
    case True
    note R = refs_counted [OF I conjunct2 [OF True]]
    let ?s = "s\<lparr>sh_arc := sh_arc s\<lparr>strong_count := strong_count (sh_arc s) + 1\<rparr>, sh_refs := sh_refs s + 1\<rparr>"
    have "waker_inv ?s" using I R(1) unfolding waker_inv_def Let_def by simp
    then show ?thesis using True R Clone_Ref by (simp add: strong_incr_def on_arc_def)
  qed (use I Clone_Ref in auto)
next
  case Drop_Ref
  have "waker_inv (begin_code 0 None [ArcDrop] (s\<lparr>sh_refs := sh_refs s - 1\<rparr>))" if "idle 0 s" "0 < sh_refs s"
    by (rule begin_code_inv [OF I that(1)]) (use that borrows_live [OF I] in \<open>auto simp: owns_simps\<close>)
  then show ?thesis using I Drop_Ref by auto
next
  case Read_Pipe
  have "waker_inv (begin_code 0 None pipe_code (s\<lparr>sh_pipe := sh_pipe s - 1\<rparr>))" if "idle 0 s" "0 < sh_pipe s"
    by (rule begin_code_inv [OF I that(1)]) (use that borrows_live [OF I] in \<open>auto simp: pipe_code_def owns_simps\<close>)
  then show ?thesis using I Read_Pipe by auto
next
  case Complete_Task
  have "waker_inv (s\<lparr>sh_completed := True\<rparr>)"
    using I unfolding waker_inv_def Let_def by (elim conjE, intro conjI) simp_all
  then show ?thesis using I Complete_Task by simp
next
  case Close_Pipe
  have "waker_inv (s\<lparr>sh_open := False, sh_lost := sh_lost s + sh_pipe s, sh_pipe := 0\<rparr>)"
    using I unfolding waker_inv_def Let_def by (elim conjE, intro conjI) simp_all
  then show ?thesis using I Close_Pipe by simp
qed

lemma run_events_inv: "waker_inv s \<Longrightarrow> \<exists>s'. run_events tr es s = Ok s' \<and> waker_inv s'"
proof (induction es arbitrary: s)
  case (Cons e es)
  obtain s1 where "event_step tr e s = Ok s1" "waker_inv s1" using event_step_inv [OF Cons.prems] by blast
  with Cons.IH show ?case by simp
qed simp

section \<open>Safety\<close>

text \<open>
  C5: wakers are memory safe in every interleaving. Whatever the threads call, and in whatever
  order their atomic steps happen, with tracing or without: nothing reads or counts in freed
  memory, no count falls below zero and the future is destroyed at most once - each of these
  would be the fault \<open>UB\<close>. The allocation exists while a waker or an address in the pipe is
  left, and the future while the executor has a reference.
\<close>

theorem wakers_memory_safe:
  "\<exists>s. run_events tr es (spawned n) = Ok s \<and> (allocated (sh_arc s) \<or> sh_wakers s = {} \<and> sh_pipe s = 0) \<and>
     (has_value (sh_arc s) \<or> sh_refs s = 0)"
proof -
  obtain s where s: "run_events tr es (spawned n) = Ok s" "waker_inv s"
    using run_events_inv [OF waker_inv_spawned] by blast
  note J = s(2) [unfolded waker_inv_def Let_def]
  have fin: "finite (sh_wakers s)" using J by blast
  have "has_value (sh_arc s) \<or> sh_refs s = 0" using J by (metis add_is_0 gr0I)
  moreover have "allocated (sh_arc s) \<or> sh_wakers s = {} \<and> sh_pipe s = 0"
  proof (cases "weak_count (sh_arc s) = 0")
    case True
    then have "card (sh_wakers s) = 0" "sh_pipe s = 0" using J by linarith+
    with fin show ?thesis by simp
  next
    case False
    then have "0 < weak_count (sh_arc s)" by simp
    then show ?thesis using J by blast
  qed
  ultimately show ?thesis using s(1) by blast
qed

section \<open>What is freed\<close>

definition at_rest :: "shared \<Rightarrow> bool" where
  "at_rest s \<longleftrightarrow> list_all (\<lambda>t. t = (None, [])) (sh_threads s)"

lemma at_rest_total: "at_rest s \<Longrightarrow> total f (sh_threads s) = 0"
  by (auto simp: at_rest_def total_def list_all_iff)

text \<open>Only a closed pipe loses references.\<close>

lemma set_code_frame [simp]:
  "sh_open (set_code i cs s) = sh_open s" "sh_lost (set_code i cs s) = sh_lost s"
  "sh_arc (set_code i cs s) = sh_arc s" "sh_wakers (set_code i cs s) = sh_wakers s"
  "sh_next (set_code i cs s) = sh_next s" "sh_refs (set_code i cs s) = sh_refs s"
  "sh_completed (set_code i cs s) = sh_completed s" "sh_pipe (set_code i cs s) = sh_pipe s"
  "sh_destroyed_on (set_code i cs s) = sh_destroyed_on s"
  by (simp_all add: set_code_def)

lemma exec_instr_lost:
  "exec_instr i c cs s = Ok s' \<Longrightarrow> sh_open s' = sh_open s \<and> (sh_open s \<longrightarrow> sh_lost s' = sh_lost s)"
  by (cases c) (auto simp: res_simps on_arc_def split: if_splits)

lemma event_step_lost:
  assumes "event_step tr e s = Ok s'" and "sh_open s \<longrightarrow> sh_lost s = 0"
  shows "sh_open s' \<longrightarrow> sh_lost s' = 0"
  using assms exec_instr_lost
  by (cases e) (fastforce simp: res_simps on_arc_def begin_code_def step_thread_def split: if_splits list.splits)+

lemma run_events_lost:
  "run_events tr es s = Ok s' \<Longrightarrow> sh_open s \<longrightarrow> sh_lost s = 0 \<Longrightarrow> sh_open s' \<longrightarrow> sh_lost s' = 0"
  by (induction es arbitrary: s) (auto simp: res_simps dest: event_step_lost)

text \<open>
  C9: nothing leaks while the executor lives. When all calls have ended, all wakers have been
  dropped or consumed, the pipe is empty and the executor has no reference, the future has
  been destroyed; and the allocation has been freed, unless an address was lost because the
  pipe had been closed.
\<close>

theorem wakers_free_memory:
  assumes "run_events tr es (spawned n) = Ok s" and "at_rest s" and "sh_wakers s = {}" and "sh_pipe s = 0" and "sh_refs s = 0"
  shows "\<not> has_value (sh_arc s) \<and> (sh_open s \<longrightarrow> \<not> allocated (sh_arc s)) \<and> (allocated (sh_arc s) \<longleftrightarrow> 0 < sh_lost s)"
proof -
  have I: "waker_inv s" using run_events_inv [OF waker_inv_spawned] assms(1) by (metis res.inject(1))
  have "sh_open s \<longrightarrow> sh_lost s = 0" by (rule run_events_lost [OF assms(1)]) (simp add: spawned_def)
  with I assms(3-5) at_rest_total [OF assms(2)] show ?thesis unfolding waker_inv_def Let_def by auto
qed

text \<open>
  The life of a task: a waker is made and cloned, one is woken by value on another thread and
  read from the pipe, the task returns, and everything is dropped.
\<close>

definition waker_life :: "event list" where
  "waker_life = Call_Own CloneWaker # replicate 4 (Step_Thread 0) @
     Call_Waker 1 CloneWaker 0 # replicate 3 (Step_Thread 1) @
     Call_Waker 1 WakeByVal 0 # replicate 5 (Step_Thread 1) @
     Read_Pipe # replicate 3 (Step_Thread 0) @
     Complete_Task # Drop_Ref # Step_Thread 0 # Drop_Ref # Step_Thread 0 #
     Call_Waker 1 DropWaker 1 # Step_Thread 1 #
     Drop_Ref # replicate 4 (Step_Thread 0)"

lemmas eval_wakers = trace_code_def pipe_code_def upgraded_code_def set_code_def begin_code_def on_arc_def step_thread_def
  idle_def unborrowed_def by_ref_def spawned_def strong_incr_def upgrade_def strong_decr_def weak_incr_def weak_decr_def
  destroy_value_def at_rest_def numeral_eq_Suc

theorem wakers_free_memory_witness:
  "\<exists>s. run_events False waker_life (spawned 1) = Ok s \<and> \<not> has_value (sh_arc s) \<and> \<not> allocated (sh_arc s)"
proof -
  obtain s where s: "run_events False waker_life (spawned 1) = Ok s" "at_rest s" "sh_wakers s = {}" "sh_pipe s = 0"
    "sh_refs s = 0" "sh_open s"
    by (simp add: waker_life_def eval_wakers) auto
  from wakers_free_memory [OF s(1-5)] s(1,6) show ?thesis by auto
qed

section \<open>Calls without races\<close>









section \<open>Races\<close>





end
