(* ===== verification/Epox_Tracing.thy ===== *)
theory Epox_Tracing
  imports Epox_Task
begin

text \<open>
  The spans of the optional feature \<open>tracing\<close>: \<open>instrument_future\<close> of \<^verbatim>\<open>task.rs\<close>. Whether a span
  is recorded, and under which identifier, is the decision of the subscriber, a parameter.
  (The events of wakers are instructions in \<open>Epox_Waker_Memory\<close>, because reading the span of a
  task takes a reference to it.)
\<close>

record task_span =
  sp_kind :: string
  sp_name :: string
  sp_id :: nat
  sp_priority :: priority
  sp_spawn_checked :: bool
  sp_file :: string
  sp_line :: nat
  sp_column :: nat

record 'f instrumented =
  in_future :: 'f
  in_span :: task_span

definition instrument_future :: "(task_span \<Rightarrow> nat option) \<Rightarrow> 'f \<Rightarrow> metadata \<Rightarrow> nat \<Rightarrow> nat option \<times> 'f instrumented" where
  "instrument_future subscriber f md addr =
     (let span = \<lparr>sp_kind = ''task'', sp_name = md_name md, sp_id = addr, sp_priority = md_priority md,
        sp_spawn_checked = md_spawn_checked md, sp_file = loc_file (md_spawn_location md),
        sp_line = loc_line (md_spawn_location md), sp_column = loc_column (md_spawn_location md)\<rparr>
      in (subscriber span, \<lparr>in_future = f, in_span = span\<rparr>))"

text \<open>
  A span describes its builder, except that \<open>spawn_checked\<close> is true for all of them: \<open>spawn\<close>
  and \<open>spawn_checked\<close> take the same parts, so the spans of checked and unchecked tasks cannot
  be told apart.
\<close>

lemma span_describes_builder:
  assumes "into_parts b = (f, md, p)" and "instrument_future subscriber f md addr = (ident, i)"
  shows "in_future i = b_future b \<and> sp_priority (in_span i) = p \<and> sp_id (in_span i) = addr \<and>
    sp_name (in_span i) = (case b_name b of None \<Rightarrow> [] | Some n \<Rightarrow> n) \<and>
    sp_line (in_span i) = loc_line (b_spawn_location b) \<and> sp_spawn_checked (in_span i)"
  using assms by (auto simp: into_parts_def instrument_future_def Let_def)

end
